(* ===== verification/Rock_Prelude.thy ===== *)
theory Rock_Prelude
  imports Main "HOL-Library.Word"
begin

text \<open>
  Shared vocabulary of the development: the names of the machine integer types the sources use, the
  collections of hints that the component theories fill, and the facts about bytes, words and lists
  that more than one component needs. Nothing here models code.
\<close>

unbundle bit_operations_syntax

type_synonym u8 = "8 word"
type_synonym u16 = "16 word"
type_synonym u32 = "32 word"
type_synonym u64 = "64 word"

text \<open>A C character constant is the byte of its code.\<close>

abbreviation ch :: "char \<Rightarrow> u8" where
  "ch c \<equiv> of_char c"

text \<open>
  \<open>wf_simps\<close> collects the unfolding rules of the components' well-formedness predicates,
  \<open>byte_simps\<close> the rules that turn word expressions into arithmetic on naturals, and
  \<open>frame_simps\<close> the equations saying which part of a state an operation leaves alone.
\<close>

named_theorems wf_simps
named_theorems byte_simps
named_theorems frame_simps

section \<open>Words\<close>

lemma unat_u8_lt [simp]: "unat (b :: u8) < 256"
  using unsigned_less [of b, where ?'a = nat] by simp

lemma uint_u8_lt [simp]: "uint (b :: u8) < 256"
  using unsigned_less [of b, where ?'a = int] by simp

lemma unat_u32_lt: "unat (w :: u32) < 2 ^ 32"
  using unsigned_less [of w, where ?'a = nat] by simp

lemma unat_u64_lt: "unat (w :: u64) < 2 ^ 64"
  using unsigned_less [of w, where ?'a = nat] by simp

lemma unat_ucast_down [byte_simps]:
  "unat (ucast (w :: 'a::len word) :: 'b::len word) = unat w mod 2 ^ LENGTH('b)"
  by (simp add: unsigned_ucast_eq take_bit_eq_mod)

lemma unat_ucast_up [byte_simps]:
  "LENGTH('a::len) \<le> LENGTH('b::len) \<Longrightarrow> unat (ucast (w :: 'a word) :: 'b word) = unat w"
  by (simp add: unsigned_ucast_eq take_bit_nat_eq_self_iff)
     (meson unsigned_less less_le_trans power_increasing one_le_numeral)

lemma unat_and_mask [byte_simps]: "unat (w AND mask n) = unat (w :: 'a::len word) mod 2 ^ n"
  by (simp flip: take_bit_eq_mask take_bit_eq_mod add: unsigned_take_bit_eq)

lemma unat_of_nat_lt:
  "n < 2 ^ LENGTH('a) \<Longrightarrow> unat (of_nat n :: 'a::len word) = n"
  by (simp add: unsigned_of_nat take_bit_nat_eq_self)

lemma unat_u32_of_nat: "n < 2 ^ 32 \<Longrightarrow> unat (of_nat n :: u32) = n"
  by (rule unat_of_nat_lt) simp

lemma unat_u64_of_nat: "n < 2 ^ 64 \<Longrightarrow> unat (of_nat n :: u64) = n"
  by (rule unat_of_nat_lt) simp

lemma of_nat_eqI: "unat w = n \<Longrightarrow> w = of_nat n"
  by auto

lemma xor_cancel_right [simp]: "(a XOR b) XOR b = (a :: 'a::len word)"
  by (simp add: xor.assoc)

lemma xor_cancel_left [simp]: "b XOR (b XOR a) = (a :: 'a::len word)"
  by (simp flip: xor.assoc)

section \<open>Lists\<close>

lemma takeWhile_prefix_stop:
  "\<forall>x \<in> set xs. P x \<Longrightarrow> \<not> P y \<Longrightarrow> takeWhile P (xs @ y # ys) = xs"
  by simp

lemma dropWhile_prefix_stop:
  "\<forall>x \<in> set xs. P x \<Longrightarrow> \<not> P y \<Longrightarrow> dropWhile P (xs @ y # ys) = y # ys"
  by (simp add: dropWhile_append)

end
