(* ===== verification/C_Library.thy ===== *)
theory C_Library
  imports Rock_Prelude
begin

text \<open>
  The functions of the C library that the sources call on NUL-terminated strings and on byte
  buffers. They are not code of the repository: each follows the C standard, on 8-bit bytes, with
  the 32-bit \<^verbatim>\<open>long\<close> of the boards the firmware is built for. A C string is the list of its bytes
  before the terminating NUL (\<open>cstr\<close> reads it out of a buffer); the byte found at the end of the
  string is that NUL (\<open>char_at\<close>).
\<close>

definition cstr :: "u8 list \<Rightarrow> u8 list" where
  "cstr buf = takeWhile (\<lambda>b. b \<noteq> 0) buf"

definition char_at :: "u8 list \<Rightarrow> nat \<Rightarrow> u8" where
  "char_at s i = (if i < length s then s ! i else 0)"

definition isdigit :: "u8 \<Rightarrow> bool" where
  "isdigit c \<longleftrightarrow> ch CHR ''0'' \<le> c \<and> c \<le> ch CHR ''9''"

definition isspace :: "u8 \<Rightarrow> bool" where
  "isspace c \<longleftrightarrow> c = ch CHR '' '' \<or> (9 \<le> c \<and> c \<le> 13)"

text \<open>
  \<^verbatim>\<open>atol\<close>: optional white space, an optional sign, decimal digits. A value that does not fit the
  \<^verbatim>\<open>long\<close> is undefined by the standard; newlib's \<^verbatim>\<open>strtol\<close>, which the boards use, saturates.
\<close>

fun digits_value :: "int \<Rightarrow> u8 list \<Rightarrow> int" where
  "digits_value a [] = a"
| "digits_value a (c # cs) =
     (if isdigit c then digits_value (10 * a + (uint c - 48)) cs else a)"

definition atol_int :: "u8 list \<Rightarrow> int" where
  "atol_int s =
     (case dropWhile isspace s of
        [] \<Rightarrow> 0
      | c # cs \<Rightarrow>
          if c = ch CHR ''-'' then - digits_value 0 cs
          else if c = ch CHR ''+'' then digits_value 0 cs
          else digits_value 0 (c # cs))"

definition atol :: "u8 list \<Rightarrow> u32" where
  "atol s = word_of_int (max (- (2 ^ 31)) (min (2 ^ 31 - 1) (atol_int s)))"

text \<open>\<^verbatim>\<open>strcmp\<close>: the sign of the first difference, bytes compared as \<^verbatim>\<open>unsigned char\<close>.\<close>

fun strcmp :: "u8 list \<Rightarrow> u8 list \<Rightarrow> int" where
  "strcmp [] [] = 0"
| "strcmp [] (y # ys) = - 1"
| "strcmp (x # xs) [] = 1"
| "strcmp (x # xs) (y # ys) = (if x = y then strcmp xs ys else if x < y then - 1 else 1)"

text \<open>
  \<^verbatim>\<open>strcpy\<close> and \<^verbatim>\<open>strncpy\<close> into a buffer that is at least as long as what they write: the bytes
  they do not reach keep their old value, and \<^verbatim>\<open>strncpy\<close> fills up with NULs.
\<close>

definition strcpy :: "u8 list \<Rightarrow> u8 list \<Rightarrow> u8 list" where
  "strcpy dst src = cstr src @ [0] @ drop (length (cstr src) + 1) dst"

definition strncpy :: "u8 list \<Rightarrow> u8 list \<Rightarrow> nat \<Rightarrow> u8 list" where
  "strncpy dst src n =
     (let s = take n (cstr src) in s @ replicate (n - length s) 0 @ drop n dst)"

section \<open>Facts about them\<close>

lemma char_at_Cons_0 [simp]: "char_at (c # cs) 0 = c"
  by (simp add: char_at_def)

lemma char_at_Cons_Suc [simp]: "char_at (c # cs) (Suc i) = char_at cs i"
  by (simp add: char_at_def)

lemma char_at_numeral [simp]: "char_at (c # cs) (numeral n) = char_at cs (pred_numeral n)"
  by (simp add: numeral_eq_Suc)

lemma char_at_Nil [simp]: "char_at [] i = 0"
  by (simp add: char_at_def)

lemma isdigit_0 [simp]: "\<not> isdigit 0"
  by (simp add: isdigit_def)

lemma isdigit_uint: "isdigit c \<Longrightarrow> 48 \<le> uint c \<and> uint c \<le> 57"
  by (simp add: isdigit_def word_le_def)

lemma isdigit_not_sign: "isdigit c \<Longrightarrow> c \<noteq> 45 \<and> c \<noteq> 43 \<and> c \<noteq> 46 \<and> \<not> isspace c"
  by (auto simp: isdigit_def isspace_def word_le_def)

lemma cstr_append_NUL: "0 \<notin> set xs \<Longrightarrow> cstr (xs @ 0 # ys) = xs"
  unfolding cstr_def by (rule takeWhile_prefix_stop) auto

lemma cstr_no_NUL: "0 \<notin> set (cstr xs)"
  by (auto simp: cstr_def dest: set_takeWhileD)

lemma length_cstr_le: "length (cstr xs) \<le> length xs"
  by (simp add: cstr_def length_takeWhile_le)

lemma length_cstr_less: "0 \<in> set xs \<Longrightarrow> length (cstr xs) < length xs"
  by (induction xs) (auto simp: cstr_def)

lemma cstr_idem [simp]: "cstr (cstr xs) = cstr xs"
  by (simp add: cstr_def)

lemma length_strcpy:
  "length (cstr src) < length dst \<Longrightarrow> length (strcpy dst src) = length dst"
  by (simp add: strcpy_def)

lemma cstr_strcpy [simp]: "cstr (strcpy dst src) = cstr src"
  unfolding strcpy_def using cstr_append_NUL [OF cstr_no_NUL, of src] by simp

lemma length_strncpy: "n \<le> length dst \<Longrightarrow> length (strncpy dst src n) = length dst"
  by (simp add: strncpy_def Let_def)

lemma cstr_strncpy:
  assumes "length (cstr src) < n"
  shows "cstr (strncpy dst src n) = cstr src"
proof -
  have "strncpy dst src n = cstr src @ 0 # (replicate (n - length (cstr src) - 1) 0 @ drop n dst)"
    using assms by (simp add: strncpy_def Let_def flip: replicate_Suc Cons_eq_appendI)
  then show ?thesis by (simp only: cstr_append_NUL [OF cstr_no_NUL])
qed

lemma strcmp_refl [simp]: "strcmp xs xs = 0"
  by (induction xs) auto

lemma strcmp_eq_0: "strcmp xs ys = 0 \<longleftrightarrow> xs = ys"
  by (induction xs ys rule: strcmp.induct) auto

lemma strcmp_antisym: "strcmp xs ys < 0 \<longleftrightarrow> 0 < strcmp ys xs"
  by (induction xs ys rule: strcmp.induct) auto

lemma strcmp_trans: "strcmp xs ys < 0 \<Longrightarrow> strcmp ys zs < 0 \<Longrightarrow> strcmp xs zs < 0"
proof (induction xs zs arbitrary: ys rule: strcmp.induct)
  case (4 x xs z zs)
  then show ?case by (cases ys) (auto split: if_splits)
next
  case (2 z zs)
  then show ?case by simp
next
  case (1)
  then show ?case by (cases ys) auto
next
  case (3 x xs)
  then show ?case by (cases ys) auto
qed

lemma digits_value_append:
  "\<forall>c \<in> set xs. isdigit c \<Longrightarrow> digits_value a (xs @ ys) = digits_value (digits_value a xs) ys"
  by (induction xs arbitrary: a) auto

lemma digits_value_stop:
  "\<forall>c \<in> set xs. isdigit c \<Longrightarrow> \<not> isdigit y \<Longrightarrow> digits_value a (xs @ y # ys) = digits_value a xs"
  by (simp add: digits_value_append)

lemma digits_value_nonneg: "0 \<le> a \<Longrightarrow> 0 \<le> digits_value a xs"
proof (induction xs arbitrary: a)
  case (Cons c cs)
  then show ?case using isdigit_uint [of c] by auto
qed simp

lemma digits_value_bound:
  "0 \<le> a \<Longrightarrow> digits_value a xs < (a + 1) * 10 ^ length xs"
proof (induction xs arbitrary: a)
  case (Cons c cs)
  show ?case
  proof (cases "isdigit c")
    case True
    let ?b = "10 * a + (uint c - 48)"
    from True have b: "0 \<le> ?b" "?b + 1 \<le> (a + 1) * 10"
      using Cons.prems isdigit_uint [of c] by auto
    have "digits_value a (c # cs) < (?b + 1) * 10 ^ length cs"
      using Cons.IH [OF b(1)] True by simp
    also have "\<dots> \<le> ((a + 1) * 10) * 10 ^ length cs"
      using b(2) by (rule mult_right_mono) simp
    finally show ?thesis by (simp add: algebra_simps)
  next
    case False
    have "a + 1 \<le> (a + 1) * 10 ^ length (c # cs)"
      using Cons.prems mult_left_mono [OF one_le_power [of "10::int" "length (c # cs)"], of "a + 1"]
      by simp
    with False show ?thesis by simp
  qed
qed simp

lemma atol_int_digits:
  assumes "isdigit d" "\<forall>c \<in> set ds. isdigit c"
  shows "atol_int (d # ds @ rest) = digits_value (uint d - 48) (ds @ rest)"
  using assms isdigit_not_sign [of d] by (simp add: atol_int_def)

end
