(* ===== verification/Gps_Terms.thy ===== *)
theory Gps_Terms
  imports C_Library
begin

text \<open>
  The term parsers and the data objects of the GPS library the firmware's sketches are built on
  (\<^verbatim>\<open>example/gps/TinyGPSPlus.h\<close>, \<^verbatim>\<open>TinyGPSPlus.cpp\<close>): numbers with two decimals, degrees in the NMEA
  form, and the location, date, time, decimal, integer and custom objects, each with the staged
  value a sentence is parsed into and the committed value the sketch reads. Integers have the
  width the library gives them, so every wrap-around is that of the code. The conversions to
  \<^verbatim>\<open>double\<close> (\<^verbatim>\<open>lat\<close>, \<^verbatim>\<open>lng\<close>, \<^verbatim>\<open>knots\<close>, \<^verbatim>\<open>distanceBetween\<close>, \<dots>) are not modelled.
\<close>

section \<open>Numbers in a term\<close>

text \<open>
  \<^verbatim>\<open>parseDecimal\<close>: a number with up to two decimal digits, times 100, as a 32-bit integer.
\<close>

definition parseDecimal :: "u8 list \<Rightarrow> u32" where
  "parseDecimal term0 =
     (let negative = char_at term0 0 = ch CHR ''-'';
          term1 = (if negative then drop 1 term0 else term0);
          ret = 100 * atol term1;
          term2 = dropWhile isdigit term1;
          ret = (if char_at term2 0 = ch CHR ''.'' \<and> isdigit (char_at term2 1)
                 then (let ret = ret + 10 * (ucast (char_at term2 1) - 48)
                       in if isdigit (char_at term2 2)
                          then ret + (ucast (char_at term2 2) - 48) else ret)
                 else ret)
      in if negative then - ret else ret)"

record raw_degrees =
  deg :: u16
  billionths :: u32
  negative :: bool

text \<open>
  The digits after the decimal point: each divides the multiplier by ten and adds its weight
  (\<^verbatim>\<open>while (isdigit(*++term))\<close>).
\<close>

fun minutes_fraction :: "u32 \<Rightarrow> u32 \<Rightarrow> u8 list \<Rightarrow> u32" where
  "minutes_fraction multiplier tenMillionths [] = tenMillionths"
| "minutes_fraction multiplier tenMillionths (c # cs) =
     (if isdigit c
      then minutes_fraction (multiplier div 10)
             (tenMillionths + (ucast c - 48) * (multiplier div 10)) cs
      else tenMillionths)"

definition tenMillionthsOfMinutes :: "u8 list \<Rightarrow> u32" where
  "tenMillionthsOfMinutes term0 =
     (let leftOfDecimal = atol term0;
          minutes = (ucast (leftOfDecimal mod 100) :: u16);
          multiplier = 10000000;
          t = ucast minutes * multiplier;
          term1 = dropWhile isdigit term0
      in if char_at term1 0 = ch CHR ''.'' then minutes_fraction multiplier t (drop 1 term1) else t)"

definition parseDegrees :: "u8 list \<Rightarrow> raw_degrees" where
  "parseDegrees term0 =
     \<lparr>deg = ucast (atol term0 div 100),
      billionths = (5 * tenMillionthsOfMinutes term0 + 1) div 3,
      negative = False\<rparr>"

section \<open>The data objects\<close>

record gps_location =
  loc_valid :: bool
  loc_updated :: bool
  rawLatData :: raw_degrees
  rawLngData :: raw_degrees
  rawNewLatData :: raw_degrees
  rawNewLngData :: raw_degrees
  loc_lastCommitTime :: u32

definition location_commit :: "u32 \<Rightarrow> gps_location \<Rightarrow> gps_location" where
  "location_commit now l =
     l\<lparr>rawLatData := rawNewLatData l, rawLngData := rawNewLngData l,
       loc_lastCommitTime := now, loc_valid := True, loc_updated := True\<rparr>"

definition setLatitude :: "u8 list \<Rightarrow> gps_location \<Rightarrow> gps_location" where
  "setLatitude term0 l = l\<lparr>rawNewLatData := parseDegrees term0\<rparr>"

definition setLongitude :: "u8 list \<Rightarrow> gps_location \<Rightarrow> gps_location" where
  "setLongitude term0 l = l\<lparr>rawNewLngData := parseDegrees term0\<rparr>"

definition rawLat :: "gps_location \<Rightarrow> raw_degrees \<times> gps_location" where
  "rawLat l = (rawLatData l, l\<lparr>loc_updated := False\<rparr>)"

definition rawLng :: "gps_location \<Rightarrow> raw_degrees \<times> gps_location" where
  "rawLng l = (rawLngData l, l\<lparr>loc_updated := False\<rparr>)"

definition location_age :: "u32 \<Rightarrow> gps_location \<Rightarrow> u32" where
  "location_age now l = (if loc_valid l then now - loc_lastCommitTime l else - 1)"

record gps_date =
  date_valid :: bool
  date_updated :: bool
  date_date :: u32
  date_newDate :: u32
  date_lastCommitTime :: u32

definition date_commit :: "u32 \<Rightarrow> gps_date \<Rightarrow> gps_date" where
  "date_commit now d =
     d\<lparr>date_date := date_newDate d, date_lastCommitTime := now,
       date_valid := True, date_updated := True\<rparr>"

definition setDate :: "u8 list \<Rightarrow> gps_date \<Rightarrow> gps_date" where
  "setDate term0 d = d\<lparr>date_newDate := atol term0\<rparr>"

definition year :: "gps_date \<Rightarrow> u16 \<times> gps_date" where
  "year d = ((ucast (date_date d mod 100) :: u16) + 2000, d\<lparr>date_updated := False\<rparr>)"

definition month :: "gps_date \<Rightarrow> u8 \<times> gps_date" where
  "month d = (ucast (date_date d div 100 mod 100), d\<lparr>date_updated := False\<rparr>)"

definition day :: "gps_date \<Rightarrow> u8 \<times> gps_date" where
  "day d = (ucast (date_date d div 10000), d\<lparr>date_updated := False\<rparr>)"

record gps_time =
  time_valid :: bool
  time_updated :: bool
  time_time :: u32
  time_newTime :: u32
  time_lastCommitTime :: u32

definition time_commit :: "u32 \<Rightarrow> gps_time \<Rightarrow> gps_time" where
  "time_commit now t =
     t\<lparr>time_time := time_newTime t, time_lastCommitTime := now,
       time_valid := True, time_updated := True\<rparr>"

definition setTime :: "u8 list \<Rightarrow> gps_time \<Rightarrow> gps_time" where
  "setTime term0 t = t\<lparr>time_newTime := parseDecimal term0\<rparr>"

definition hour :: "gps_time \<Rightarrow> u8 \<times> gps_time" where
  "hour t = (ucast (time_time t div 1000000), t\<lparr>time_updated := False\<rparr>)"

definition minute :: "gps_time \<Rightarrow> u8 \<times> gps_time" where
  "minute t = (ucast (time_time t div 10000 mod 100), t\<lparr>time_updated := False\<rparr>)"

definition second :: "gps_time \<Rightarrow> u8 \<times> gps_time" where
  "second t = (ucast (time_time t div 100 mod 100), t\<lparr>time_updated := False\<rparr>)"

definition centisecond :: "gps_time \<Rightarrow> u8 \<times> gps_time" where
  "centisecond t = (ucast (time_time t mod 100), t\<lparr>time_updated := False\<rparr>)"

record gps_decimal =
  dec_valid :: bool
  dec_updated :: bool
  dec_lastCommitTime :: u32
  dec_val :: u32
  dec_newval :: u32

definition decimal_commit :: "u32 \<Rightarrow> gps_decimal \<Rightarrow> gps_decimal" where
  "decimal_commit now d =
     d\<lparr>dec_val := dec_newval d, dec_lastCommitTime := now, dec_valid := True, dec_updated := True\<rparr>"

definition decimal_set :: "u8 list \<Rightarrow> gps_decimal \<Rightarrow> gps_decimal" where
  "decimal_set term0 d = d\<lparr>dec_newval := parseDecimal term0\<rparr>"

definition decimal_value :: "gps_decimal \<Rightarrow> u32 \<times> gps_decimal" where
  "decimal_value d = (dec_val d, d\<lparr>dec_updated := False\<rparr>)"

record gps_integer =
  int_valid :: bool
  int_updated :: bool
  int_lastCommitTime :: u32
  int_val :: u32
  int_newval :: u32

definition integer_commit :: "u32 \<Rightarrow> gps_integer \<Rightarrow> gps_integer" where
  "integer_commit now d =
     d\<lparr>int_val := int_newval d, int_lastCommitTime := now, int_valid := True, int_updated := True\<rparr>"

definition integer_set :: "u8 list \<Rightarrow> gps_integer \<Rightarrow> gps_integer" where
  "integer_set term0 d = d\<lparr>int_newval := atol term0\<rparr>"

definition integer_value :: "gps_integer \<Rightarrow> u32 \<times> gps_integer" where
  "integer_value d = (int_val d, d\<lparr>int_updated := False\<rparr>)"

text \<open>
  A custom element listens to one term of one sentence. Its buffers hold
  \<^verbatim>\<open>_GPS_MAX_FIELD_SIZE + 1\<close> bytes.
\<close>

record gps_custom =
  cust_stagingBuffer :: "u8 list"
  cust_buffer :: "u8 list"
  cust_lastCommitTime :: u32
  cust_valid :: bool
  cust_updated :: bool
  cust_sentenceName :: "u8 list"
  cust_termNumber :: int

definition GPS_MAX_FIELD_SIZE :: nat where
  "GPS_MAX_FIELD_SIZE = 15"

definition custom_begin :: "u8 list \<Rightarrow> int \<Rightarrow> gps_custom" where
  "custom_begin sentenceName termNumber =
     \<lparr>cust_stagingBuffer = replicate (GPS_MAX_FIELD_SIZE + 1) 0,
      cust_buffer = replicate (GPS_MAX_FIELD_SIZE + 1) 0,
      cust_lastCommitTime = 0, cust_valid = False, cust_updated = False,
      cust_sentenceName = sentenceName, cust_termNumber = termNumber\<rparr>"

definition custom_commit :: "u32 \<Rightarrow> gps_custom \<Rightarrow> gps_custom" where
  "custom_commit now p =
     p\<lparr>cust_buffer := strcpy (cust_buffer p) (cust_stagingBuffer p),
       cust_lastCommitTime := now, cust_valid := True, cust_updated := True\<rparr>"

definition custom_set :: "u8 list \<Rightarrow> gps_custom \<Rightarrow> gps_custom" where
  "custom_set term0 p =
     p\<lparr>cust_stagingBuffer := strncpy (cust_stagingBuffer p) term0 (GPS_MAX_FIELD_SIZE + 1)\<rparr>"

definition custom_value :: "gps_custom \<Rightarrow> u8 list \<times> gps_custom" where
  "custom_value p = (cstr (cust_buffer p), p\<lparr>cust_updated := False\<rparr>)"

section \<open>What the parsers compute\<close>

text \<open>The value of a run of digits, on naturals.\<close>

definition digit :: "u8 \<Rightarrow> nat" where
  "digit c = unat c - 48"

fun decimal_places :: "nat \<Rightarrow> u8 list \<Rightarrow> nat" where
  "decimal_places 0 cs = 0"
| "decimal_places (Suc k) [] = 0"
| "decimal_places (Suc k) (c # cs) = digit c * 10 ^ k + decimal_places k cs"

lemma isdigit_unat: "isdigit c \<Longrightarrow> 48 \<le> unat c \<and> unat c \<le> 57"
  by (simp add: isdigit_def word_le_nat_alt)

lemma digit_le_9: "isdigit c \<Longrightarrow> digit c \<le> 9"
  by (drule isdigit_unat) (unfold digit_def, arith)

lemma uint_digit: "isdigit c \<Longrightarrow> uint c - 48 = int (digit c)"
  using isdigit_unat [of c] by (simp add: digit_def of_nat_diff)

lemma unat_digit_u32: "isdigit c \<Longrightarrow> unat ((ucast c :: u32) - 48) = digit c"
  using isdigit_unat [of c] by (simp add: digit_def unat_sub word_le_nat_alt unat_ucast_up)

lemma ucast_digit: "isdigit c \<Longrightarrow> (ucast c :: u32) - 48 = of_nat (digit c)"
  by (simp flip: unat_digit_u32)

lemma decimal_places_less: "\<forall>c \<in> set cs. isdigit c \<Longrightarrow> decimal_places k cs < 10 ^ k"
proof (induction k cs rule: decimal_places.induct)
  case (3 k c cs)
  then have "decimal_places k cs < 10 ^ k" "digit c \<le> 9" by (auto simp: digit_le_9)
  moreover have "digit c * 10 ^ k \<le> 9 * 10 ^ k" using calculation(2) by (rule mult_right_mono) simp
  ultimately have "digit c * 10 ^ k + decimal_places k cs < 9 * 10 ^ k + 10 ^ k" by linarith
  then show ?case by simp
qed simp_all

lemma digits_value_digit:
  "\<forall>c \<in> set cs. isdigit c \<Longrightarrow>
     digits_value (int a) cs = int (a * 10 ^ length cs + decimal_places (length cs) cs)"
proof (induction cs arbitrary: a)
  case (Cons c cs)
  then have "digits_value (int a) (c # cs) = digits_value (int (10 * a + digit c)) cs"
    by (simp add: uint_digit)
  with Cons.IH [of "10 * a + digit c"] Cons.prems show ?case by (simp add: algebra_simps)
qed simp

lemma atol_digits:
  assumes "ds \<noteq> []" "\<forall>c \<in> set ds. isdigit c" "length ds \<le> 9" "\<not> isdigit (char_at rest 0)"
  shows "atol (ds @ rest) = of_nat (decimal_places (length ds) ds)"
proof -
  let ?v = "decimal_places (length ds) ds"
  obtain d ds' where ds: "ds = d # ds'" using assms(1) by (cases ds) auto
  have "atol_int (ds @ rest) = digits_value 0 (ds @ rest)"
    using assms(2) isdigit_not_sign [of d] by (simp add: ds atol_int_def)
  also have "\<dots> = digits_value 0 ds"
    using assms(2,4) by (cases rest) (simp_all add: digits_value_append)
  also have "\<dots> = int ?v" using digits_value_digit [OF assms(2), of 0] by simp
  finally have v: "atol_int (ds @ rest) = int ?v" .
  have "?v < 10 ^ length ds" by (rule decimal_places_less) (rule assms(2))
  also have "(10::nat) ^ length ds \<le> 10 ^ 9" by (rule power_increasing) (use assms(3) in auto)
  finally have "?v < 10 ^ 9" .
  then show ?thesis by (simp add: atol_def v)
qed

lemma digits_char_at_0: "ds \<noteq> [] \<Longrightarrow> \<forall>c \<in> set ds. isdigit c \<Longrightarrow> char_at (ds @ xs) 0 \<noteq> 45"
  using isdigit_not_sign by (cases ds) auto

lemma dropWhile_digits:
  "\<forall>c \<in> set ds. isdigit c \<Longrightarrow> \<not> isdigit (char_at rest 0) \<Longrightarrow> dropWhile isdigit (ds @ rest) = rest"
  by (cases rest) (simp_all add: dropWhile_append)

lemma unat_parseDecimal:
  assumes "ds \<noteq> []" "\<forall>c \<in> set ds. isdigit c" "length ds \<le> 7" "isdigit d1" "isdigit d2"
  shows "unat (parseDecimal (ds @ [ch CHR ''.'', d1, d2])) =
           100 * decimal_places (length ds) ds + 10 * digit d1 + digit d2"
proof -
  let ?v = "decimal_places (length ds) ds"
  have dot: "\<not> isdigit (char_at [46, d1, d2] 0)" by (simp add: isdigit_def)
  have a: "atol (ds @ [46, d1, d2]) = of_nat ?v"
    by (rule atol_digits) (use assms dot in auto)
  have "?v < 10 ^ length ds" by (rule decimal_places_less) (rule assms(2))
  also have "(10::nat) ^ length ds \<le> 10 ^ 7" by (rule power_increasing) (use assms(3) in auto)
  finally have v: "?v < 10 ^ 7" .
  have eq: "parseDecimal (ds @ [46, d1, d2]) = of_nat (100 * ?v + 10 * digit d1 + digit d2)"
    using assms(4,5) digits_char_at_0 [OF assms(1,2), of "[46, d1, d2]"]
    by (simp add: parseDecimal_def Let_def dropWhile_digits [OF assms(2) dot] a ucast_digit)
  have "100 * ?v + 10 * digit d1 + digit d2 < 2 ^ 32"
    using v digit_le_9 [OF assms(4)] digit_le_9 [OF assms(5)] by simp
  then have "unat (parseDecimal (ds @ [46, d1, d2])) = 100 * ?v + 10 * digit d1 + digit d2"
    unfolding eq by (intro unat_of_nat_lt) simp
  then show ?thesis by simp
qed

lemma minutes_fraction_exhausted: "m = 0 \<or> m = 1 \<Longrightarrow> minutes_fraction m t cs = t"
  by (induction cs arbitrary: m) auto

lemma unat_minutes_fraction:
  "k \<le> 7 \<Longrightarrow> \<forall>c \<in> set cs. isdigit c \<Longrightarrow> unat t + 10 ^ k \<le> 2 ^ 32 \<Longrightarrow>
     unat (minutes_fraction (of_nat (10 ^ k)) t cs) = unat t + decimal_places k cs"
proof (induction k cs arbitrary: t rule: decimal_places.induct)
  case (1 cs)
  then show ?case by (simp add: minutes_fraction_exhausted)
next
  case (2 k)
  then show ?case by simp
next
  case (3 k c cs)
  let ?t = "t + of_nat (digit c) * of_nat (10 ^ k) :: u32"
  have le: "(10::nat) ^ k \<le> 10 ^ 6" by (rule power_increasing) (use "3.prems"(1) in auto)
  then have "10 ^ Suc k < (2::nat) ^ 32" by simp
  then have "unat ((of_nat (10 ^ Suc k) :: u32) div 10) = 10 ^ k"
    by (simp add: unat_div unat_of_nat_lt del: of_nat_power power_Suc) simp
  then have m: "(of_nat (10 ^ Suc k) :: u32) div 10 = of_nat (10 ^ k)"
    by (rule of_nat_eqI)
  have c: "isdigit c" and dig: "digit c * 10 ^ k \<le> 9 * 10 ^ k"
    using "3.prems"(2) by (auto intro: digit_le_9)
  have "?t = of_nat (unat t + digit c * 10 ^ k)" by simp
  moreover have "unat t + digit c * 10 ^ k < 2 ^ 32" using "3.prems"(3) dig zero_less_power [of "10::nat" k]
    unfolding power_Suc by linarith
  ultimately have t: "unat ?t = unat t + digit c * 10 ^ k" by (simp only: unat_u32_of_nat)
  have "unat (minutes_fraction (of_nat (10 ^ k)) ?t cs) = unat ?t + decimal_places k cs"
  proof (rule "3.IH")
    show "unat ?t + 10 ^ k \<le> 2 ^ 32"
      using "3.prems"(3) dig unfolding t power_Suc by linarith
  qed (use "3.prems"(1,2) c in auto)
  then show ?case by (simp add: c m ucast_digit t del: of_nat_power power_Suc)
qed

lemma unat_tenMillionths:
  assumes "ds \<noteq> []" "\<forall>c \<in> set ds. isdigit c" "length ds \<le> 9" "\<forall>c \<in> set fs. isdigit c"
  shows "unat (tenMillionthsOfMinutes (ds @ ch CHR ''.'' # fs)) =
           decimal_places (length ds) ds mod 100 * 10 ^ 7 + decimal_places 7 fs"
proof -
  let ?l = "decimal_places (length ds) ds"
  let ?t = "of_nat (?l mod 100) * 10000000 :: u32"
  have dot: "\<not> isdigit (char_at (46 # fs) 0)" by (simp add: isdigit_def)
  have a: "atol (ds @ 46 # fs) = of_nat ?l" by (rule atol_digits) (use assms dot in auto)
  have "?l < 10 ^ length ds" by (rule decimal_places_less) (rule assms(2))
  also have "(10::nat) ^ length ds \<le> 10 ^ 9" by (rule power_increasing) (use assms(3) in auto)
  finally have l: "?l < 2 ^ 32" by simp
  have "unat ((of_nat ?l :: u32) mod 100) = ?l mod 100"
    using l by (simp add: unat_mod unat_u32_of_nat)
  then have "unat (ucast (ucast ((of_nat ?l :: u32) mod 100) :: u16) :: u32) = ?l mod 100"
    by (simp add: unat_ucast_up unat_ucast_down)
  then have m: "(ucast (ucast ((of_nat ?l :: u32) mod 100) :: u16) :: u32) = of_nat (?l mod 100)"
    by (rule of_nat_eqI)
  have l100: "?l mod 100 \<le> 99" by (simp add: le_simps)
  have "?t = of_nat (?l mod 100 * 10 ^ 7)" by simp
  also have "unat \<dots> = ?l mod 100 * 10 ^ 7" using l100 by (intro unat_u32_of_nat) simp
  finally have t: "unat ?t = ?l mod 100 * 10 ^ 7" .
  have "unat (minutes_fraction (of_nat (10 ^ 7)) ?t fs) = unat ?t + decimal_places 7 fs"
    by (rule unat_minutes_fraction) (use assms(4) t l100 in auto)
  then show ?thesis
    unfolding tenMillionthsOfMinutes_def
    by (simp add: Let_def a m t dropWhile_digits [OF assms(2) dot])
qed

lemma parseDegrees_accuracy:
  assumes "ds \<noteq> []" "\<forall>c \<in> set ds. isdigit c" "length ds \<le> 5" "\<forall>c \<in> set fs. isdigit c"
    and "l = decimal_places (length ds) ds" and "l mod 100 < 60"
    and "t = l mod 100 * 10 ^ 7 + decimal_places 7 fs"
    and "r = parseDegrees (ds @ ch CHR ''.'' # fs)"
  shows "unat (deg r) = l div 100" "unat (billionths r) = (5 * t + 1) div 3" "t < 60 * 10 ^ 7"
proof -
  have dot: "\<not> isdigit (char_at (46 # fs) 0)" by (simp add: isdigit_def)
  have a: "atol (ds @ 46 # fs) = of_nat l"
    unfolding assms(5) by (rule atol_digits) (use assms dot in auto)
  have "l < 10 ^ length ds" unfolding assms(5) by (rule decimal_places_less) (rule assms(2))
  also have "(10::nat) ^ length ds \<le> 10 ^ 5" by (rule power_increasing) (use assms(3) in auto)
  finally have l: "l < 10 ^ 5" .
  show "unat (deg r) = l div 100"
    using l by (simp add: assms(8) parseDegrees_def a unat_ucast_down unat_div unat_u32_of_nat)
  show t: "t < 60 * 10 ^ 7"
    using decimal_places_less [OF assms(4), of 7] assms(6) unfolding assms(7) by simp
  have "tenMillionthsOfMinutes (ds @ 46 # fs) = of_nat t"
    unfolding assms(7) assms(5)
    by (rule of_nat_eqI) (use unat_tenMillionths [of ds fs] assms in simp)
  then have b: "billionths r = of_nat (5 * t + 1) div 3"
    by (simp add: assms(8) parseDegrees_def add.commute)
  have "unat (of_nat (5 * t + 1) :: u32) = 5 * t + 1" using t by (intro unat_u32_of_nat) simp
  then show "unat (billionths r) = (5 * t + 1) div 3"
    unfolding b unat_div by (simp only: unsigned_numeral) simp
qed

lemma hms_split:
  fixes H M S C :: nat
  assumes "M < 100" "S < 100" "C < 100" and v: "v = H * 1000000 + M * 10000 + S * 100 + C"
  shows "v div 1000000 = H" "v div 10000 mod 100 = M" "v div 100 mod 100 = S" "v mod 100 = C"
proof -
  have v1: "v = C + 100 * (S + 100 * (M + 100 * H))" using v by simp
  have d1: "v div 100 = S + 100 * (M + 100 * H)" unfolding v1 using assms(3) by simp
  have "v div 10000 = v div 100 div 100" by (simp add: div_mult2_eq [symmetric])
  then have d2: "v div 10000 = M + 100 * H" unfolding d1 using assms(2) by simp
  have "v div 1000000 = v div 10000 div 100" by (simp add: div_mult2_eq [symmetric])
  then show "v div 1000000 = H" unfolding d2 using assms(1) by simp
  show "v div 10000 mod 100 = M" unfolding d2 using assms(1) by (simp only: mod_mult_self2 mod_less)
  show "v div 100 mod 100 = S" unfolding d1 using assms(2) by (simp only: mod_mult_self2 mod_less)
  show "v mod 100 = C" unfolding v1 using assms(3) by (simp only: mod_mult_self2 mod_less)
qed

lemma digit_pair_less: "isdigit a \<Longrightarrow> isdigit b \<Longrightarrow> 10 * digit a + digit b < 100"
  using digit_le_9 [of a] digit_le_9 [of b] by simp

section \<open>Properties\<close>

text \<open>
  Property C23: a latitude or longitude term DDMM.FFF\<dots> is parsed to whole degrees exactly and to the
  nearest billionth: the stored billionths are within a third of the exact 5t/3, where t is the
  minutes in ten-millionths, and they never reach a whole degree.
\<close>

theorem parseDegrees_precise:
  assumes "ds \<noteq> []" and "length ds \<le> 5"
    and "list_all isdigit ds" and "list_all isdigit fs"
    and "decimal_places (length ds) ds mod 100 < 60"
  shows "let l = decimal_places (length ds) ds;
             t = l mod 100 * 10 ^ 7 + decimal_places 7 fs;
             r = parseDegrees (ds @ ch CHR ''.'' # fs)
         in unat (deg r) = l div 100 \<and> unat (billionths r) < 10 ^ 9 \<and>
            5 * t \<le> 3 * unat (billionths r) + 1 \<and> 3 * unat (billionths r) \<le> 5 * t + 1 \<and>
            \<not> negative r"
proof -
  note acc = parseDegrees_accuracy [OF assms(1) _ assms(2) _ refl assms(5) refl refl, of fs]
  show ?thesis
    unfolding Let_def using acc assms(3,4) by (simp add: list_all_iff parseDegrees_def) linarith
qed

theorem parseDegrees_precise_witness:
  "let r = parseDegrees (map ch ''4807.038'')
   in unat (deg r) = 48 \<and> unat (billionths r) < 10 ^ 9"
  using parseDegrees_precise [of "map ch ''4807''" "map ch ''038''"]
  by (simp add: isdigit_def digit_def Let_def)

text \<open>
  Property C24: a time term hhmmss.cc, once committed, is read back by the accessors digit for digit:
  hour, minute, second and centisecond are exactly the four digit pairs of the term.
\<close>

theorem setTime_read_back:
  assumes "list_all isdigit [h1, h2, m1, m2, s1, s2, c1, c2]"
  shows "let t' = time_commit now (setTime [h1, h2, m1, m2, s1, s2, ch CHR ''.'', c1, c2] t)
         in unat (fst (hour t')) = 10 * digit h1 + digit h2 \<and>
            unat (fst (minute t')) = 10 * digit m1 + digit m2 \<and>
            unat (fst (second t')) = 10 * digit s1 + digit s2 \<and>
            unat (fst (centisecond t')) = 10 * digit c1 + digit c2 \<and> time_valid t'"
proof -
  let ?H = "10 * digit h1 + digit h2" and ?M = "10 * digit m1 + digit m2"
  let ?S = "10 * digit s1 + digit s2" and ?C = "10 * digit c1 + digit c2"
  let ?w = "parseDecimal [h1, h2, m1, m2, s1, s2, 46, c1, c2]"
  have lt: "?H < 100" "?M < 100" "?S < 100" "?C < 100"
    using assms by (auto intro!: digit_pair_less)
  have "unat ?w = ?H * 1000000 + ?M * 10000 + ?S * 100 + ?C"
    using unat_parseDecimal [of "[h1, h2, m1, m2, s1, s2]" c1 c2] assms
    by simp
  note hms = hms_split [OF lt(2-4) this]
  show ?thesis
    using lt by (simp add: Let_def setTime_def time_commit_def hour_def minute_def second_def
        centisecond_def unat_ucast_down unat_div unat_mod hms)
qed

theorem setTime_read_back_witness:
  "unat (fst (minute (time_commit 5 (setTime (map ch ''123519.00'')
     \<lparr>time_valid = False, time_updated = False, time_time = 0, time_newTime = 0,
      time_lastCommitTime = 0\<rparr>)))) = 35"
  using setTime_read_back [of "ch CHR ''1''" "ch CHR ''2''" "ch CHR ''3''" "ch CHR ''5''"
      "ch CHR ''1''" "ch CHR ''9''" "ch CHR ''0''" "ch CHR ''0''" 5]
  by (simp add: isdigit_def digit_def Let_def)

end
