(* ===== verification/Gps_Encode.thy ===== *)
theory Gps_Encode
  imports Gps_Terms
begin

text \<open>
  The sentence machine of the GPS library: \<^verbatim>\<open>TinyGPSPlus::encode\<close> takes one character, splits the
  stream into terms, keeps the running parity, and on a term that ends a sentence commits what the
  sentence said when the transmitted checksum equals the parity. The machine's state is a record
  with the members of the class. \<open>millis()\<close> is the clock \<open>ms\<close>: its \<open>k\<close>-th call returns \<open>ms k\<close>,
  and \<open>clock_calls\<close> counts the calls. The linked list of custom elements is the list
  \<open>customElts\<close>, and the pointer \<open>customCandidates\<close> an index into it.
\<close>

section \<open>The state\<close>

record gps =
  parity :: u8
  isChecksumTerm :: bool
  term_buf :: "u8 list"
  curSentenceType :: u8
  curTermNumber :: u8
  curTermOffset :: u8
  sentenceHasFix :: bool
  customElts :: "gps_custom list"
  customCandidates :: "nat option"
  encodedCharCount :: u32
  sentencesWithFixCount :: u32
  failedChecksumCount :: u32
  passedChecksumCount :: u32
  location :: gps_location
  date :: gps_date
  time :: gps_time
  speed :: gps_decimal
  course :: gps_decimal
  altitude :: gps_decimal
  satellites :: gps_integer
  hdop :: gps_decimal
  clock_calls :: nat

definition GPS_SENTENCE_GPGGA :: u8 where
  "GPS_SENTENCE_GPGGA = 0"

definition GPS_SENTENCE_GPRMC :: u8 where
  "GPS_SENTENCE_GPRMC = 1"

definition GPS_SENTENCE_OTHER :: u8 where
  "GPS_SENTENCE_OTHER = 2"

lemmas sentence_type_defs =
  GPS_SENTENCE_GPGGA_def GPS_SENTENCE_GPRMC_def GPS_SENTENCE_OTHER_def

text \<open>
  The constructor. \<open>g\<close> is whatever the memory of the object held before: the members no
  constructor initialises keep it.
\<close>

definition zero_degrees :: raw_degrees where
  "zero_degrees = \<lparr>deg = 0, billionths = 0, negative = False\<rparr>"

definition tinygps_init :: "gps \<Rightarrow> gps" where
  "tinygps_init g =
     g\<lparr>parity := 0, isChecksumTerm := False, term_buf := (term_buf g)[0 := 0],
       curSentenceType := GPS_SENTENCE_OTHER, curTermNumber := 0, curTermOffset := 0,
       sentenceHasFix := False, customElts := [], customCandidates := None,
       encodedCharCount := 0, sentencesWithFixCount := 0, failedChecksumCount := 0,
       passedChecksumCount := 0,
       location := (location g)\<lparr>loc_valid := False, loc_updated := False,
         rawLatData := zero_degrees, rawLngData := zero_degrees,
         rawNewLatData := zero_degrees, rawNewLngData := zero_degrees\<rparr>,
       date := (date g)\<lparr>date_valid := False, date_updated := False, date_date := 0\<rparr>,
       time := (time g)\<lparr>time_valid := False, time_updated := False, time_time := 0\<rparr>,
       speed := (speed g)\<lparr>dec_valid := False, dec_updated := False, dec_val := 0\<rparr>,
       course := (course g)\<lparr>dec_valid := False, dec_updated := False, dec_val := 0\<rparr>,
       altitude := (altitude g)\<lparr>dec_valid := False, dec_updated := False, dec_val := 0\<rparr>,
       satellites := (satellites g)\<lparr>int_valid := False, int_updated := False, int_val := 0\<rparr>,
       hdop := (hdop g)\<lparr>dec_valid := False, dec_updated := False, dec_val := 0\<rparr>\<rparr>"

section \<open>Committing a sentence\<close>

definition fromHex :: "u8 \<Rightarrow> int" where
  "fromHex a =
     (if ch CHR ''A'' \<le> a \<and> a \<le> ch CHR ''F'' then uint a - 65 + 10
      else if ch CHR ''a'' \<le> a \<and> a \<le> ch CHR ''f'' then uint a - 97 + 10
      else uint a - 48)"

definition commit_date :: "(nat \<Rightarrow> u32) \<Rightarrow> gps \<Rightarrow> gps" where
  "commit_date ms s = s\<lparr>date := date_commit (ms (clock_calls s)) (date s),
                        clock_calls := clock_calls s + 1\<rparr>"

definition commit_time :: "(nat \<Rightarrow> u32) \<Rightarrow> gps \<Rightarrow> gps" where
  "commit_time ms s = s\<lparr>time := time_commit (ms (clock_calls s)) (time s),
                        clock_calls := clock_calls s + 1\<rparr>"

definition commit_location :: "(nat \<Rightarrow> u32) \<Rightarrow> gps \<Rightarrow> gps" where
  "commit_location ms s = s\<lparr>location := location_commit (ms (clock_calls s)) (location s),
                            clock_calls := clock_calls s + 1\<rparr>"

definition commit_speed :: "(nat \<Rightarrow> u32) \<Rightarrow> gps \<Rightarrow> gps" where
  "commit_speed ms s = s\<lparr>speed := decimal_commit (ms (clock_calls s)) (speed s),
                         clock_calls := clock_calls s + 1\<rparr>"

definition commit_course :: "(nat \<Rightarrow> u32) \<Rightarrow> gps \<Rightarrow> gps" where
  "commit_course ms s = s\<lparr>course := decimal_commit (ms (clock_calls s)) (course s),
                          clock_calls := clock_calls s + 1\<rparr>"

definition commit_altitude :: "(nat \<Rightarrow> u32) \<Rightarrow> gps \<Rightarrow> gps" where
  "commit_altitude ms s = s\<lparr>altitude := decimal_commit (ms (clock_calls s)) (altitude s),
                            clock_calls := clock_calls s + 1\<rparr>"

definition commit_satellites :: "(nat \<Rightarrow> u32) \<Rightarrow> gps \<Rightarrow> gps" where
  "commit_satellites ms s = s\<lparr>satellites := integer_commit (ms (clock_calls s)) (satellites s),
                              clock_calls := clock_calls s + 1\<rparr>"

definition commit_hdop :: "(nat \<Rightarrow> u32) \<Rightarrow> gps \<Rightarrow> gps" where
  "commit_hdop ms s = s\<lparr>hdop := decimal_commit (ms (clock_calls s)) (hdop s),
                        clock_calls := clock_calls s + 1\<rparr>"

lemmas commit_defs =
  commit_date_def commit_time_def commit_location_def commit_speed_def commit_course_def
  commit_altitude_def commit_satellites_def commit_hdop_def

text \<open>
  The loop over the custom elements of the sentence: from the candidate on, as long as the name is
  the candidate's.
\<close>

fun commit_customs ::
  "(nat \<Rightarrow> u32) \<Rightarrow> nat \<Rightarrow> u8 list \<Rightarrow> gps_custom list \<Rightarrow> gps_custom list \<times> nat" where
  "commit_customs ms k name [] = ([], k)"
| "commit_customs ms k name (p # ps) =
     (if strcmp (cust_sentenceName p) name = 0
      then let (ps', k') = commit_customs ms (Suc k) name ps in (custom_commit (ms k) p # ps', k')
      else (p # ps, k))"

definition commit_candidates :: "(nat \<Rightarrow> u32) \<Rightarrow> gps \<Rightarrow> gps" where
  "commit_candidates ms s =
     (case customCandidates s of
        None \<Rightarrow> s
      | Some i \<Rightarrow>
          (let (ps, k) = commit_customs ms (clock_calls s)
                           (cust_sentenceName (customElts s ! i)) (drop i (customElts s))
           in s\<lparr>customElts := take i (customElts s) @ ps, clock_calls := k\<rparr>))"

definition checksum_term :: "(nat \<Rightarrow> u32) \<Rightarrow> gps \<Rightarrow> bool \<times> gps" where
  "checksum_term ms s =
     (let checksum = (word_of_int (16 * fromHex (term_buf s ! 0) + fromHex (term_buf s ! 1)) :: u8)
      in if checksum = parity s then
           (let s = s\<lparr>passedChecksumCount := passedChecksumCount s + 1\<rparr>;
                s = (if sentenceHasFix s
                     then s\<lparr>sentencesWithFixCount := sentencesWithFixCount s + 1\<rparr> else s);
                s = (if curSentenceType s = GPS_SENTENCE_GPRMC then
                       (let s = commit_time ms (commit_date ms s)
                        in if sentenceHasFix s
                           then commit_course ms (commit_speed ms (commit_location ms s)) else s)
                     else if curSentenceType s = GPS_SENTENCE_GPGGA then
                       (let s = commit_time ms s;
                            s = (if sentenceHasFix s
                                 then commit_altitude ms (commit_location ms s) else s)
                        in commit_hdop ms (commit_satellites ms s))
                     else s)
            in (True, commit_candidates ms s))
         else (False, s\<lparr>failedChecksumCount := failedChecksumCount s + 1\<rparr>))"

section \<open>The other terms\<close>

fun find_candidate :: "u8 list \<Rightarrow> nat \<Rightarrow> gps_custom list \<Rightarrow> nat option" where
  "find_candidate name i [] = None"
| "find_candidate name i (p # ps) =
     (if strcmp (cust_sentenceName p) name < 0 then find_candidate name (Suc i) ps
      else if strcmp (cust_sentenceName p) name > 0 then None
      else Some i)"

definition first_term :: "gps \<Rightarrow> gps" where
  "first_term s =
     (let t = cstr (term_buf s)
      in s\<lparr>curSentenceType :=
             (if t = map ch ''GPRMC'' \<or> t = map ch ''GNRMC'' then GPS_SENTENCE_GPRMC
              else if t = map ch ''GPGGA'' \<or> t = map ch ''GNGGA'' then GPS_SENTENCE_GPGGA
              else GPS_SENTENCE_OTHER),
           customCandidates := find_candidate t 0 (customElts s)\<rparr>)"

text \<open>The macro \<^verbatim>\<open>COMBINE\<close>: the term number is or-ed below the sentence type.\<close>

definition COMBINE :: "u8 \<Rightarrow> u8 \<Rightarrow> u32" where
  "COMBINE sentence_type term_number = push_bit 5 (ucast sentence_type) OR ucast term_number"

definition store_term :: "u32 \<Rightarrow> gps \<Rightarrow> gps" where
  "store_term c s =
     (let t = cstr (term_buf s)
      in if c = COMBINE GPS_SENTENCE_GPRMC 1 \<or> c = COMBINE GPS_SENTENCE_GPGGA 1
         then s\<lparr>time := setTime t (time s)\<rparr>
         else if c = COMBINE GPS_SENTENCE_GPRMC 2
         then s\<lparr>sentenceHasFix := term_buf s ! 0 = ch CHR ''A''\<rparr>
         else if c = COMBINE GPS_SENTENCE_GPRMC 3 \<or> c = COMBINE GPS_SENTENCE_GPGGA 2
         then s\<lparr>location := setLatitude t (location s)\<rparr>
         else if c = COMBINE GPS_SENTENCE_GPRMC 4 \<or> c = COMBINE GPS_SENTENCE_GPGGA 3
         then s\<lparr>location := (location s)\<lparr>rawNewLatData :=
                  (rawNewLatData (location s))\<lparr>negative := term_buf s ! 0 = ch CHR ''S''\<rparr>\<rparr>\<rparr>
         else if c = COMBINE GPS_SENTENCE_GPRMC 5 \<or> c = COMBINE GPS_SENTENCE_GPGGA 4
         then s\<lparr>location := setLongitude t (location s)\<rparr>
         else if c = COMBINE GPS_SENTENCE_GPRMC 6 \<or> c = COMBINE GPS_SENTENCE_GPGGA 5
         then s\<lparr>location := (location s)\<lparr>rawNewLngData :=
                  (rawNewLngData (location s))\<lparr>negative := term_buf s ! 0 = ch CHR ''W''\<rparr>\<rparr>\<rparr>
         else if c = COMBINE GPS_SENTENCE_GPRMC 7 then s\<lparr>speed := decimal_set t (speed s)\<rparr>
         else if c = COMBINE GPS_SENTENCE_GPRMC 8 then s\<lparr>course := decimal_set t (course s)\<rparr>
         else if c = COMBINE GPS_SENTENCE_GPRMC 9 then s\<lparr>date := setDate t (date s)\<rparr>
         else if c = COMBINE GPS_SENTENCE_GPGGA 6
         then s\<lparr>sentenceHasFix := ch CHR ''0'' < term_buf s ! 0\<rparr>
         else if c = COMBINE GPS_SENTENCE_GPGGA 7
         then s\<lparr>satellites := integer_set t (satellites s)\<rparr>
         else if c = COMBINE GPS_SENTENCE_GPGGA 8 then s\<lparr>hdop := decimal_set t (hdop s)\<rparr>
         else if c = COMBINE GPS_SENTENCE_GPGGA 9 then s\<lparr>altitude := decimal_set t (altitude s)\<rparr>
         else s)"

fun set_customs :: "u8 list \<Rightarrow> int \<Rightarrow> u8 list \<Rightarrow> gps_custom list \<Rightarrow> gps_custom list" where
  "set_customs t n name [] = []"
| "set_customs t n name (p # ps) =
     (if strcmp (cust_sentenceName p) name = 0 \<and> cust_termNumber p \<le> n
      then (if cust_termNumber p = n then custom_set t p else p) # set_customs t n name ps
      else p # ps)"

definition set_candidates :: "gps \<Rightarrow> gps" where
  "set_candidates s =
     (case customCandidates s of
        None \<Rightarrow> s
      | Some i \<Rightarrow>
          s\<lparr>customElts := take i (customElts s) @
              set_customs (cstr (term_buf s)) (uint (curTermNumber s))
                (cust_sentenceName (customElts s ! i)) (drop i (customElts s))\<rparr>)"

definition endOfTermHandler :: "(nat \<Rightarrow> u32) \<Rightarrow> gps \<Rightarrow> bool \<times> gps" where
  "endOfTermHandler ms s =
     (if isChecksumTerm s then checksum_term ms s
      else if curTermNumber s = 0 then (False, first_term s)
      else
        (let s = (if curSentenceType s \<noteq> GPS_SENTENCE_OTHER \<and> term_buf s ! 0 \<noteq> 0
                  then store_term (COMBINE (curSentenceType s) (curTermNumber s)) s else s)
         in (False, set_candidates s)))"

section \<open>One character\<close>

definition end_term :: "(nat \<Rightarrow> u32) \<Rightarrow> u8 \<Rightarrow> gps \<Rightarrow> bool \<times> gps" where
  "end_term ms c s =
     (let (isValidSentence, s) =
            (if unat (curTermOffset s) < GPS_MAX_FIELD_SIZE
             then endOfTermHandler ms (s\<lparr>term_buf := (term_buf s)[unat (curTermOffset s) := 0]\<rparr>)
             else (False, s))
      in (isValidSentence,
          s\<lparr>curTermNumber := curTermNumber s + 1, curTermOffset := 0,
            isChecksumTerm := c = ch CHR ''*''\<rparr>))"

definition encode :: "(nat \<Rightarrow> u32) \<Rightarrow> u8 \<Rightarrow> gps \<Rightarrow> bool \<times> gps" where
  "encode ms c s =
     (let s = s\<lparr>encodedCharCount := encodedCharCount s + 1\<rparr>
      in if c = ch CHR '','' then end_term ms c (s\<lparr>parity := parity s XOR c\<rparr>)
         else if c = 13 \<or> c = 10 \<or> c = ch CHR ''*'' then end_term ms c s
         else if c = ch CHR ''$''
         then (False, s\<lparr>curTermNumber := 0, curTermOffset := 0, parity := 0,
                        curSentenceType := GPS_SENTENCE_OTHER, isChecksumTerm := False,
                        sentenceHasFix := False\<rparr>)
         else
           (let s = (if unat (curTermOffset s) < GPS_MAX_FIELD_SIZE - 1
                     then s\<lparr>term_buf := (term_buf s)[unat (curTermOffset s) := c],
                            curTermOffset := curTermOffset s + 1\<rparr> else s);
                s = (if \<not> isChecksumTerm s then s\<lparr>parity := parity s XOR c\<rparr> else s)
            in (False, s)))"

fun encode_all :: "(nat \<Rightarrow> u32) \<Rightarrow> u8 list \<Rightarrow> gps \<Rightarrow> bool list \<times> gps" where
  "encode_all ms [] s = ([], s)"
| "encode_all ms (c # cs) s =
     (let (b, s') = encode ms c s; (bs, s'') = encode_all ms cs s' in (b # bs, s''))"

section \<open>Registering a custom element\<close>

fun insert_position :: "u8 list \<Rightarrow> int \<Rightarrow> gps_custom list \<Rightarrow> nat" where
  "insert_position name n [] = 0"
| "insert_position name n (p # ps) =
     (let cmp = strcmp name (cust_sentenceName p)
      in if cmp < 0 \<or> (cmp = 0 \<and> n < cust_termNumber p) then 0
         else Suc (insert_position name n ps))"

text \<open>
  The candidate pointer keeps pointing at the same element, so its index moves when the new element
  goes in front of it.
\<close>

definition insertCustom :: "gps_custom \<Rightarrow> u8 list \<Rightarrow> int \<Rightarrow> gps \<Rightarrow> gps" where
  "insertCustom pElt name n s =
     (let i = insert_position name n (customElts s)
      in s\<lparr>customElts := take i (customElts s) @ pElt # drop i (customElts s),
           customCandidates :=
             map_option (\<lambda>j. if i \<le> j then j + 1 else j) (customCandidates s)\<rparr>)"

definition add_custom :: "u8 list \<Rightarrow> int \<Rightarrow> gps \<Rightarrow> gps" where
  "add_custom name n s = insertCustom (custom_begin name n) name n s"

section \<open>What the handlers leave alone\<close>

text \<open>The committed values, as a sketch reads them.\<close>

definition committed where
  "committed s =
     ((loc_valid (location s), rawLatData (location s), rawLngData (location s),
       loc_lastCommitTime (location s)),
      (date_valid (date s), date_date (date s), date_lastCommitTime (date s)),
      (time_valid (time s), time_time (time s), time_lastCommitTime (time s)),
      map (\<lambda>d. (dec_valid d, dec_val d, dec_lastCommitTime d))
        [speed s, course s, altitude s, hdop s],
      (int_valid (satellites s), int_val (satellites s), int_lastCommitTime (satellites s)),
      map (\<lambda>p. (cust_valid p, cust_buffer p, cust_lastCommitTime p)) (customElts s))"

text \<open>The scanner's part of the state, which no term handler touches.\<close>

definition scanner where
  "scanner s = (parity s, isChecksumTerm s, term_buf s, curTermNumber s, curTermOffset s,
                encodedCharCount s)"

lemma scanner_commits [frame_simps]:
  "scanner (commit_date ms s) = scanner s" "scanner (commit_time ms s) = scanner s"
  "scanner (commit_location ms s) = scanner s" "scanner (commit_speed ms s) = scanner s"
  "scanner (commit_course ms s) = scanner s" "scanner (commit_altitude ms s) = scanner s"
  "scanner (commit_satellites ms s) = scanner s" "scanner (commit_hdop ms s) = scanner s"
  by (simp_all add: scanner_def commit_defs)

lemma customs_commits [frame_simps]:
  "customElts (commit_date ms s) = customElts s" "customElts (commit_time ms s) = customElts s"
  "customElts (commit_location ms s) = customElts s" "customElts (commit_speed ms s) = customElts s"
  "customElts (commit_course ms s) = customElts s" "customElts (commit_altitude ms s) = customElts s"
  "customElts (commit_satellites ms s) = customElts s" "customElts (commit_hdop ms s) = customElts s"
  "customCandidates (commit_date ms s) = customCandidates s"
  "customCandidates (commit_time ms s) = customCandidates s"
  "customCandidates (commit_location ms s) = customCandidates s"
  "customCandidates (commit_speed ms s) = customCandidates s"
  "customCandidates (commit_course ms s) = customCandidates s"
  "customCandidates (commit_altitude ms s) = customCandidates s"
  "customCandidates (commit_satellites ms s) = customCandidates s"
  "customCandidates (commit_hdop ms s) = customCandidates s"
  by (simp_all add: commit_defs)

lemma scanner_candidates [frame_simps]:
  "scanner (commit_candidates ms s) = scanner s" "scanner (set_candidates s) = scanner s"
  by (simp_all add: scanner_def commit_candidates_def set_candidates_def split: option.splits
      prod.splits)

lemma scanner_first_term [frame_simps]: "scanner (first_term s) = scanner s"
  by (simp add: scanner_def first_term_def Let_def)

lemma scanner_store_term [frame_simps]: "scanner (store_term c s) = scanner s"
  by (simp add: scanner_def store_term_def Let_def)

lemma scanner_counts [frame_simps]:
  "scanner (s\<lparr>passedChecksumCount := n\<rparr>) = scanner s"
  "scanner (s\<lparr>sentencesWithFixCount := n\<rparr>) = scanner s"
  "scanner (s\<lparr>failedChecksumCount := n\<rparr>) = scanner s"
  by (simp_all add: scanner_def)

lemma scanner_checksum_term [frame_simps]: "scanner (snd (checksum_term ms s)) = scanner s"
  by (simp add: checksum_term_def Let_def frame_simps)

lemma scanner_endOfTermHandler [frame_simps]:
  "scanner (snd (endOfTermHandler ms s)) = scanner s"
  by (simp add: endOfTermHandler_def Let_def frame_simps)

lemmas scanner_fields = scanner_def [of "snd (endOfTermHandler ms s)" for ms s]

lemma endOfTermHandler_scanner:
  "parity (snd (endOfTermHandler ms s)) = parity s"
  "isChecksumTerm (snd (endOfTermHandler ms s)) = isChecksumTerm s"
  "term_buf (snd (endOfTermHandler ms s)) = term_buf s"
  "curTermNumber (snd (endOfTermHandler ms s)) = curTermNumber s"
  "curTermOffset (snd (endOfTermHandler ms s)) = curTermOffset s"
  "encodedCharCount (snd (endOfTermHandler ms s)) = encodedCharCount s"
  using scanner_endOfTermHandler [of ms s] by (simp_all add: scanner_def)

lemma fst_endOfTermHandler:
  "fst (endOfTermHandler ms s) \<longleftrightarrow>
     isChecksumTerm s \<and>
     word_of_int (16 * fromHex (term_buf s ! 0) + fromHex (term_buf s ! 1)) = parity s"
  by (simp add: endOfTermHandler_def checksum_term_def Let_def)

lemma committed_set_customs:
  "map (\<lambda>p. (cust_valid p, cust_buffer p, cust_lastCommitTime p)) (set_customs t n name ps) =
   map (\<lambda>p. (cust_valid p, cust_buffer p, cust_lastCommitTime p)) ps"
  by (induction ps) (auto simp: custom_set_def)

lemma committed_set_candidates [frame_simps]: "committed (set_candidates s) = committed s"
  by (simp add: committed_def set_candidates_def committed_set_customs split: option.splits)
     (metis append_take_drop_id map_append)

lemma committed_first_term [frame_simps]: "committed (first_term s) = committed s"
  by (simp add: committed_def first_term_def Let_def)

lemmas setter_defs =
  setLatitude_def setLongitude_def setDate_def setTime_def decimal_set_def integer_set_def

lemma committed_store_term [frame_simps]: "committed (store_term c s) = committed s"
  by (simp add: committed_def store_term_def Let_def setter_defs)

lemma committed_scan [frame_simps]:
  "committed (s\<lparr>encodedCharCount := n\<rparr>) = committed s"
  "committed (s\<lparr>failedChecksumCount := n\<rparr>) = committed s"
  "committed (s\<lparr>parity := p\<rparr>) = committed s"
  "committed (s\<lparr>term_buf := b\<rparr>) = committed s"
  "committed (s\<lparr>isChecksumTerm := q\<rparr>) = committed s"
  "committed (s\<lparr>curTermNumber := k\<rparr>) = committed s"
  "committed (s\<lparr>curTermOffset := p\<rparr>) = committed s"
  "committed (s\<lparr>curSentenceType := p\<rparr>) = committed s"
  "committed (s\<lparr>sentenceHasFix := q\<rparr>) = committed s"
  by (simp_all add: committed_def)

lemma committed_endOfTermHandler:
  "\<not> fst (endOfTermHandler ms s) \<Longrightarrow> committed (snd (endOfTermHandler ms s)) = committed s"
  by (auto simp: endOfTermHandler_def checksum_term_def Let_def frame_simps split: if_splits)

section \<open>The scanner\<close>

text \<open>
  The invariant: the buffer has its declared length and the write position leaves room for the NUL,
  so that no character is ever written past it; the custom buffers have theirs and hold a C string;
  the candidate points into the list.
\<close>

definition custom_wf :: "gps_custom \<Rightarrow> bool" where
  "custom_wf p \<longleftrightarrow> length (cust_stagingBuffer p) = GPS_MAX_FIELD_SIZE + 1 \<and>
     length (cust_buffer p) = GPS_MAX_FIELD_SIZE + 1 \<and> 0 \<in> set (cust_stagingBuffer p)"

fun customs_wf :: "gps_custom list \<Rightarrow> nat option \<Rightarrow> bool" where
  "customs_wf ps None = list_all custom_wf ps"
| "customs_wf ps (Some i) = (list_all custom_wf ps \<and> i < length ps)"

definition gps_wf :: "gps \<Rightarrow> bool" where
  "gps_wf s \<longleftrightarrow> length (term_buf s) = GPS_MAX_FIELD_SIZE \<and>
     unat (curTermOffset s) < GPS_MAX_FIELD_SIZE \<and>
     customs_wf (customElts s) (customCandidates s)"

lemma custom_wf_begin: "custom_wf (custom_begin name n)"
  by (simp add: custom_wf_def custom_begin_def GPS_MAX_FIELD_SIZE_def)

lemma custom_wf_commit: "custom_wf p \<Longrightarrow> custom_wf (custom_commit now p)"
  by (simp add: custom_wf_def custom_commit_def length_strcpy length_cstr_less)
     (metis length_cstr_less length_strcpy)

lemma custom_wf_set:
  assumes "custom_wf p" "length (cstr t) < GPS_MAX_FIELD_SIZE + 1"
  shows "custom_wf (custom_set t p)"
proof -
  have "0 \<in> set (strncpy (cust_stagingBuffer p) t (GPS_MAX_FIELD_SIZE + 1))"
    using assms(2) by (simp add: strncpy_def Let_def)
  with assms show ?thesis
    by (simp add: custom_wf_def custom_set_def length_strncpy)
qed

lemma custom_wf_commit_customs:
  "list_all custom_wf ps \<Longrightarrow> list_all custom_wf (fst (commit_customs ms k name ps)) \<and>
     length (fst (commit_customs ms k name ps)) = length ps"
  by (induction ms k name ps rule: commit_customs.induct)
     (auto simp: custom_wf_commit split: prod.splits)

lemma custom_wf_set_customs:
  "list_all custom_wf ps \<Longrightarrow> length (cstr t) < GPS_MAX_FIELD_SIZE + 1 \<Longrightarrow>
     list_all custom_wf (set_customs t n name ps) \<and> length (set_customs t n name ps) = length ps"
  by (induction t n name ps rule: set_customs.induct) (auto simp: custom_wf_set)

lemma find_candidate_bound:
  "find_candidate name i ps = Some j \<Longrightarrow> i \<le> j \<and> j < i + length ps"
  by (induction name i ps rule: find_candidate.induct) (fastforce split: if_splits)+

lemma list_all_take_drop:
  "list_all P xs \<Longrightarrow> list_all P (take i xs)" "list_all P xs \<Longrightarrow> list_all P (drop i xs)"
  by (auto simp: list_all_iff dest: in_set_takeD in_set_dropD)

abbreviation gps_customs_wf :: "gps \<Rightarrow> bool" where
  "gps_customs_wf s \<equiv> customs_wf (customElts s) (customCandidates s)"

lemma customs_wf_commit_candidates:
  "gps_customs_wf s \<Longrightarrow> gps_customs_wf (commit_candidates ms s)"
  using custom_wf_commit_customs [OF list_all_take_drop(2), of "customElts s"]
  by (cases "customCandidates s")
     (simp_all add: commit_candidates_def list_all_take_drop case_prod_beta)

lemma customs_wf_set_candidates:
  assumes "gps_customs_wf s" "length (term_buf s) = GPS_MAX_FIELD_SIZE"
  shows "gps_customs_wf (set_candidates s)"
proof -
  have "length (cstr (term_buf s)) < GPS_MAX_FIELD_SIZE + 1"
    using length_cstr_le [of "term_buf s"] assms(2) by simp
  then show ?thesis
    using assms(1) custom_wf_set_customs [OF list_all_take_drop(2), of "customElts s"]
    by (cases "customCandidates s") (simp_all add: set_candidates_def list_all_take_drop)
qed

lemma customs_store_term [frame_simps]:
  "customElts (store_term c s) = customElts s"
  "customCandidates (store_term c s) = customCandidates s"
  by (simp_all add: store_term_def Let_def)

lemma customs_wf_first_term: "gps_customs_wf s \<Longrightarrow> gps_customs_wf (first_term s)"
  using find_candidate_bound [of "cstr (term_buf s)" 0 "customElts s"]
  by (cases "customCandidates s"; cases "find_candidate (cstr (term_buf s)) 0 (customElts s)")
     (auto simp: first_term_def Let_def)

lemma customs_wf_checksum_term: "gps_customs_wf s \<Longrightarrow> gps_customs_wf (snd (checksum_term ms s))"
  by (simp add: checksum_term_def Let_def frame_simps customs_wf_commit_candidates)

lemma customs_wf_endOfTermHandler:
  assumes "gps_customs_wf s" "length (term_buf s) = GPS_MAX_FIELD_SIZE"
  shows "gps_customs_wf (snd (endOfTermHandler ms s))"
proof -
  have "term_buf (store_term c s) = term_buf s" for c
    by (simp add: store_term_def Let_def)
  then show ?thesis
    using assms by (simp add: endOfTermHandler_def Let_def customs_wf_checksum_term
        customs_wf_first_term customs_wf_set_candidates frame_simps)
qed

lemma end_term_eq:
  assumes "gps_wf s"
  shows "end_term ms c s =
    (let r = endOfTermHandler ms (s\<lparr>term_buf := (term_buf s)[unat (curTermOffset s) := 0]\<rparr>)
     in (fst r, (snd r)\<lparr>curTermNumber := curTermNumber (snd r) + 1, curTermOffset := 0,
                       isChecksumTerm := c = ch CHR ''*''\<rparr>))"
  using assms by (simp add: end_term_def gps_wf_def Let_def case_prod_beta)

lemma end_term_fields:
  assumes "gps_wf s"
  shows "fst (end_term ms c s) \<longleftrightarrow> isChecksumTerm s \<and>
           word_of_int (16 * fromHex ((term_buf s)[unat (curTermOffset s) := 0] ! 0) +
                        fromHex ((term_buf s)[unat (curTermOffset s) := 0] ! 1)) = parity s"
    "parity (snd (end_term ms c s)) = parity s"
    "isChecksumTerm (snd (end_term ms c s)) \<longleftrightarrow> c = ch CHR ''*''"
    "curTermOffset (snd (end_term ms c s)) = 0"
    "term_buf (snd (end_term ms c s)) = (term_buf s)[unat (curTermOffset s) := 0]"
    "encodedCharCount (snd (end_term ms c s)) = encodedCharCount s"
  using assms
  by (simp_all add: end_term_eq Let_def fst_endOfTermHandler endOfTermHandler_scanner)

lemma gps_wf_end_term: "gps_wf s \<Longrightarrow> gps_wf (snd (end_term ms c s))"
  using customs_wf_endOfTermHandler [of "s\<lparr>term_buf := (term_buf s)[unat (curTermOffset s) := 0]\<rparr>" ms]
  by (simp add: end_term_eq gps_wf_def Let_def endOfTermHandler_scanner GPS_MAX_FIELD_SIZE_def)

lemma gps_wf_encode: "gps_wf s \<Longrightarrow> gps_wf (snd (encode ms c s))"
proof -
  assume wf: "gps_wf s"
  have scan: "gps_wf (s\<lparr>encodedCharCount := n\<rparr>)" "gps_wf (s\<lparr>encodedCharCount := n, parity := p\<rparr>)"
    for n p
    using wf by (simp_all add: gps_wf_def)
  have off: "unat (curTermOffset s + 1) < 15" if "unat (curTermOffset s) < 14"
    using that by (simp add: unat_plus_if_size word_size)
  show ?thesis
    using wf off by (simp add: encode_def Let_def gps_wf_end_term scan)
      (simp add: gps_wf_def GPS_MAX_FIELD_SIZE_def)
qed

section \<open>A whole sentence\<close>

definition ordinary :: "u8 \<Rightarrow> bool" where
  "ordinary c \<longleftrightarrow> c \<notin> {ch CHR '','', 13, 10, ch CHR ''*'', ch CHR ''$''}"

definition body_char :: "u8 \<Rightarrow> bool" where
  "body_char c \<longleftrightarrow> c \<notin> {13, 10, ch CHR ''*'', ch CHR ''$''}"

lemma encode_ordinary:
  assumes "gps_wf s" "ordinary c"
  shows "\<not> fst (encode ms c s)"
    "isChecksumTerm (snd (encode ms c s)) = isChecksumTerm s"
    "parity (snd (encode ms c s)) = (if isChecksumTerm s then parity s else parity s XOR c)"
    "unat (curTermOffset s) < 14 \<Longrightarrow> unat (curTermOffset (snd (encode ms c s))) = unat (curTermOffset s) + 1"
    "unat (curTermOffset s) < 14 \<Longrightarrow> term_buf (snd (encode ms c s)) = (term_buf s)[unat (curTermOffset s) := c]"
  using assms
  by (simp_all add: encode_def Let_def ordinary_def GPS_MAX_FIELD_SIZE_def unat_plus_if_size word_size)

lemma encode_body:
  assumes "gps_wf s" "\<not> isChecksumTerm s" "body_char c"
  shows "\<not> fst (encode ms c s)" "\<not> isChecksumTerm (snd (encode ms c s))"
    "parity (snd (encode ms c s)) = parity s XOR c"
proof -
  have wf: "gps_wf (s\<lparr>encodedCharCount := n, parity := p\<rparr>)" for n p
    using assms(1) by (simp add: gps_wf_def)
  show "\<not> fst (encode ms c s)" "\<not> isChecksumTerm (snd (encode ms c s))"
    "parity (snd (encode ms c s)) = parity s XOR c"
    using assms(2,3) by (simp_all add: encode_def Let_def body_char_def end_term_fields wf)
qed

lemma encode_all_append:
  "encode_all ms (xs @ ys) s =
     (let (bs, s') = encode_all ms xs s; (cs, s'') = encode_all ms ys s' in (bs @ cs, s''))"
  by (induction xs arbitrary: s) (simp_all add: Let_def case_prod_beta)

lemma gps_wf_encode_all: "gps_wf s \<Longrightarrow> gps_wf (snd (encode_all ms cs s))"
  by (induction cs arbitrary: s) (simp_all add: Let_def case_prod_beta gps_wf_encode)

lemma encode_all_body:
  assumes "gps_wf s" "\<not> isChecksumTerm s" "\<forall>c \<in> set body. body_char c"
  shows "fst (encode_all ms body s) = replicate (length body) False \<and>
    \<not> isChecksumTerm (snd (encode_all ms body s)) \<and>
    parity (snd (encode_all ms body s)) = fold (\<lambda>c p. p XOR c) body (parity s)"
  using assms
proof (induction body arbitrary: s)
  case (Cons c cs)
  then show ?case
    using Cons.IH [of "snd (encode ms c s)"] encode_body [OF Cons.prems(1,2), of c ms]
    by (simp add: Let_def case_prod_beta gps_wf_encode)
qed simp

lemma encode_dollar:
  "fst (encode ms 36 s) = False"
  "parity (snd (encode ms 36 s)) = 0"
  "isChecksumTerm (snd (encode ms 36 s)) = False"
  by (simp_all add: encode_def Let_def)

lemma encode_star:
  assumes "gps_wf s" "\<not> isChecksumTerm s"
  shows "\<not> fst (encode ms (ch CHR ''*'') s)" "isChecksumTerm (snd (encode ms (ch CHR ''*'') s))"
    "parity (snd (encode ms (ch CHR ''*'') s)) = parity s"
    "curTermOffset (snd (encode ms (ch CHR ''*'') s)) = 0"
proof -
  have wf: "gps_wf (s\<lparr>encodedCharCount := n\<rparr>)" for n
    using assms(1) by (simp add: gps_wf_def)
  show "\<not> fst (encode ms (ch CHR ''*'') s)" "isChecksumTerm (snd (encode ms (ch CHR ''*'') s))"
    "parity (snd (encode ms (ch CHR ''*'') s)) = parity s"
    "curTermOffset (snd (encode ms (ch CHR ''*'') s)) = 0"
    using assms(2) by (simp_all add: encode_def Let_def end_term_fields wf)
qed

lemma fst_encode_eol:
  assumes "gps_wf s" "c = 13 \<or> c = 10"
  shows "fst (encode ms c s) \<longleftrightarrow> isChecksumTerm s \<and>
           word_of_int (16 * fromHex ((term_buf s)[unat (curTermOffset s) := 0] ! 0) +
                        fromHex ((term_buf s)[unat (curTermOffset s) := 0] ! 1)) = parity s"
proof -
  have wf: "gps_wf (s\<lparr>encodedCharCount := n\<rparr>)" for n
    using assms(1) by (simp add: gps_wf_def)
  from assms(2) show ?thesis by (auto simp: encode_def Let_def end_term_fields wf)
qed

lemma checksum_tail:
  assumes "gps_wf s" "isChecksumTerm s" "curTermOffset s = 0" "ordinary h1" "ordinary h2"
    and "e = 13 \<or> e = 10"
  shows "fst (encode_all ms [h1, h2, e] s) =
    [False, False, word_of_int (16 * fromHex h1 + fromHex h2) = parity s]"
proof -
  let ?s1 = "snd (encode ms h1 s)" and ?s2 = "snd (encode ms h2 (snd (encode ms h1 s)))"
  have wf: "gps_wf ?s1" "gps_wf ?s2" using assms(1) by (simp_all add: gps_wf_encode)
  note e1 = encode_ordinary [OF assms(1,4), of ms]
  note e2 = encode_ordinary [OF wf(1) assms(5), of ms]
  have l: "length (term_buf s) = 15" using assms(1) by (simp add: gps_wf_def GPS_MAX_FIELD_SIZE_def)
  have s1: "unat (curTermOffset ?s1) = 1" "term_buf ?s1 = (term_buf s)[0 := h1]"
    "isChecksumTerm ?s1" "parity ?s1 = parity s"
    using e1 assms(2,3) by simp_all
  have s2: "unat (curTermOffset ?s2) = 2" "term_buf ?s2 = (term_buf s)[0 := h1, 1 := h2]"
    "isChecksumTerm ?s2" "parity ?s2 = parity s"
    using e2 s1 by simp_all
  have "fst (encode ms e ?s2) \<longleftrightarrow> word_of_int (16 * fromHex h1 + fromHex h2) = parity s"
    using fst_encode_eol [OF wf(2) assms(6), of ms] s2 l by simp
  moreover have "\<not> fst (encode ms h1 s)" "\<not> fst (encode ms h2 ?s1)" using e1(1) e2(1) by simp_all
  ultimately show ?thesis by (simp add: Let_def case_prod_beta)
qed

lemma encode_sentence:
  assumes "gps_wf s" and "list_all body_char body" and "ordinary h1" and "ordinary h2"
    and "e = 13 \<or> e = 10"
  shows "fst (encode_all ms (ch CHR ''$'' # body @ [ch CHR ''*'', h1, h2, e]) s) =
    replicate (length body + 4) False @
    [word_of_int (16 * fromHex h1 + fromHex h2) = fold (\<lambda>c p. p XOR c) body 0]"
proof -
  let ?d = "snd (encode ms 36 s)"
  let ?b = "snd (encode_all ms body ?d)"
  let ?t = "snd (encode ms 42 ?b)"
  have wf: "gps_wf ?d" "gps_wf ?b" "gps_wf ?t"
    using assms(1) by (simp_all add: gps_wf_encode gps_wf_encode_all)
  have b: "fst (encode_all ms body ?d) = replicate (length body) False" "\<not> isChecksumTerm ?b"
    "parity ?b = fold (\<lambda>c p. p XOR c) body 0"
    using encode_all_body [OF wf(1), of body ms] assms(2)
    by (simp_all add: encode_dollar list_all_iff)
  note t = encode_star [OF wf(2) b(2), of ms, simplified]
  have "fst (encode_all ms [h1, h2, e] ?t) =
      [False, False, word_of_int (16 * fromHex h1 + fromHex h2) = fold (\<lambda>c p. p XOR c) body 0]"
    using checksum_tail [OF wf(3) t(2,4) assms(3,4,5), of ms] t(3) b(3) by simp
  moreover have "replicate (length body + 4) False =
      False # replicate (length body) False @ [False, False, False]"
    using replicate_add [of "length body" 3 False]
    by (simp add: numeral_eq_Suc del: replicate_app_Cons_same)
  ultimately show ?thesis
    using b(1) t(1) encode_dollar(1) [of ms s]
    by (simp add: encode_all_append Let_def case_prod_beta)
qed

text \<open>
  Property C18: whatever was received before, a sentence \<^verbatim>\<open>$body*HH<eol>\<close> is reported valid exactly at
  its end-of-line character, and exactly when the two hexadecimal digits are the exclusive or of
  the body's characters.
\<close>

theorem sentence_accepted_iff_checksum:
  assumes "gps_wf s" and "list_all body_char body" and "ordinary h1" and "ordinary h2"
    and "e = 13 \<or> e = 10"
  shows "fst (encode_all ms (ch CHR ''$'' # body @ [ch CHR ''*'', h1, h2, e]) s) =
    replicate (length body + 4) False @
    [word_of_int (16 * fromHex h1 + fromHex h2) = fold (\<lambda>c p. p XOR c) body 0]"
  using assms by (rule encode_sentence)

text \<open>A well-formed machine to evaluate the properties on: fresh memory, all zero.\<close>

definition blank_gps :: gps where
  "blank_gps =
     \<lparr>parity = 0, isChecksumTerm = False, term_buf = replicate 15 0, curSentenceType = 0,
      curTermNumber = 0, curTermOffset = 0, sentenceHasFix = False, customElts = [],
      customCandidates = None, encodedCharCount = 0, sentencesWithFixCount = 0,
      failedChecksumCount = 0, passedChecksumCount = 0,
      location = \<lparr>loc_valid = False, loc_updated = False, rawLatData = zero_degrees,
        rawLngData = zero_degrees, rawNewLatData = zero_degrees, rawNewLngData = zero_degrees,
        loc_lastCommitTime = 0\<rparr>,
      date = \<lparr>date_valid = False, date_updated = False, date_date = 0, date_newDate = 0,
        date_lastCommitTime = 0\<rparr>,
      time = \<lparr>time_valid = False, time_updated = False, time_time = 0, time_newTime = 0,
        time_lastCommitTime = 0\<rparr>,
      speed = \<lparr>dec_valid = False, dec_updated = False, dec_lastCommitTime = 0, dec_val = 0,
        dec_newval = 0\<rparr>,
      course = \<lparr>dec_valid = False, dec_updated = False, dec_lastCommitTime = 0, dec_val = 0,
        dec_newval = 0\<rparr>,
      altitude = \<lparr>dec_valid = False, dec_updated = False, dec_lastCommitTime = 0, dec_val = 0,
        dec_newval = 0\<rparr>,
      satellites = \<lparr>int_valid = False, int_updated = False, int_lastCommitTime = 0, int_val = 0,
        int_newval = 0\<rparr>,
      hdop = \<lparr>dec_valid = False, dec_updated = False, dec_lastCommitTime = 0, dec_val = 0,
        dec_newval = 0\<rparr>,
      clock_calls = 0\<rparr>"

lemma gps_wf_init: "length (term_buf g) = GPS_MAX_FIELD_SIZE \<Longrightarrow> gps_wf (tinygps_init g)"
  by (simp add: gps_wf_def tinygps_init_def GPS_MAX_FIELD_SIZE_def)

lemma gps_wf_blank: "gps_wf (tinygps_init blank_gps)"
  by (rule gps_wf_init) (simp add: blank_gps_def GPS_MAX_FIELD_SIZE_def)

theorem sentence_accepted_iff_checksum_witness:
  "fst (encode_all (\<lambda>_. 7) (ch CHR ''$'' # map ch ''GPRMC,A'' @ [ch CHR ''*'', ch CHR ''2'', ch CHR ''6'', 13])
     (tinygps_init blank_gps)) = replicate (length (map ch ''GPRMC,A'') + 4) False @ [True]"
  by (subst sentence_accepted_iff_checksum [OF gps_wf_blank])
    (simp_all add: body_char_def ordinary_def fromHex_def)

section \<open>Nothing is committed without a checksum\<close>

lemma committed_end_term:
  "gps_wf s \<Longrightarrow> \<not> fst (end_term ms c s) \<Longrightarrow> committed (snd (end_term ms c s)) = committed s"
  by (simp add: end_term_eq Let_def frame_simps committed_endOfTermHandler)

lemma gps_wf_scan [frame_simps]:
  "gps_wf (s\<lparr>encodedCharCount := n\<rparr>) = gps_wf s" "gps_wf (s\<lparr>parity := p\<rparr>) = gps_wf s"
  by (simp_all add: gps_wf_def)

lemma committed_encode:
  assumes "gps_wf s" "\<not> fst (encode ms c s)"
  shows "committed (snd (encode ms c s)) = committed s"
proof (cases "c = 44 \<or> c = 13 \<or> c = 10 \<or> c = 42")
  case True
  have e: "encode ms c s = end_term ms c
      (if c = 44 then s\<lparr>encodedCharCount := encodedCharCount s + 1, parity := parity s XOR c\<rparr>
       else s\<lparr>encodedCharCount := encodedCharCount s + 1\<rparr>)"
    using True by (auto simp: encode_def Let_def)
  show ?thesis
    using assms(2) unfolding e
    by (subst committed_end_term) (simp_all add: assms(1) frame_simps)
next
  case False
  then show ?thesis by (simp add: encode_def Let_def frame_simps)
qed

lemma committed_encode_all:
  "gps_wf s \<Longrightarrow> True \<notin> set (fst (encode_all ms cs s)) \<Longrightarrow>
     committed (snd (encode_all ms cs s)) = committed s"
proof (induction cs arbitrary: s)
  case (Cons c cs)
  then show ?case
    using Cons.IH [of "snd (encode ms c s)"] committed_encode [OF Cons.prems(1), of ms c]
    by (auto simp: Let_def case_prod_beta gps_wf_encode)
qed simp



end
