(* ===== verification/Gps_Reach.thy ===== *)
theory Gps_Reach
  imports Gps_Encode
begin

text \<open>
  The GPS object over its whole life: the states a sketch can bring it into by feeding characters and
  registering custom elements in any order, what holds in all of them, and what the custom
  elements and the fix flag mean there.
\<close>

section \<open>The order of the custom list\<close>

abbreviation cust_key :: "gps_custom \<Rightarrow> u8 list \<times> int" where
  "cust_key p \<equiv> (cust_sentenceName p, cust_termNumber p)"

fun key_le :: "u8 list \<times> int \<Rightarrow> u8 list \<times> int \<Rightarrow> bool" where
  "key_le (a, m) (b, n) \<longleftrightarrow> strcmp a b < 0 \<or> (a = b \<and> m \<le> n)"

definition customs_sorted :: "gps_custom list \<Rightarrow> bool" where
  "customs_sorted ps = sorted_wrt key_le (map cust_key ps)"

lemma key_le_trans: "key_le k l \<Longrightarrow> key_le l m \<Longrightarrow> key_le k m"
  by (cases k; cases l; cases m) (auto dest: strcmp_trans)

lemma insert_sorted:
  assumes "customs_sorted ps" "cust_key e = (name, n)"
  shows "customs_sorted
    (take (insert_position name n ps) ps @ e # drop (insert_position name n ps) ps)"
  using assms
proof (induction ps)
  case (Cons p ps)
  let ?i = "insert_position name n ps"
  have le: "\<forall>q \<in> set ps. key_le (cust_key p) (cust_key q)" and s: "customs_sorted ps"
    using Cons.prems(1) by (simp_all add: customs_sorted_def del: key_le.simps)
  show ?case
  proof (cases "strcmp name (cust_sentenceName p) < 0 \<or>
      (strcmp name (cust_sentenceName p) = 0 \<and> n < cust_termNumber p)")
    case True
    then have e: "key_le (cust_key e) (cust_key p)"
      using Cons.prems(2) by (auto simp: strcmp_eq_0)
    then have "\<forall>q \<in> set ps. key_le (cust_key e) (cust_key q)"
      using le key_le_trans by blast
    with True e Cons.prems(1) show ?thesis
      by (simp add: customs_sorted_def Let_def del: key_le.simps)
  next
    case False
    then have e: "key_le (cust_key p) (cust_key e)"
      using Cons.prems(2) strcmp_antisym [of "cust_sentenceName p" name]
        strcmp_eq_0 [of name "cust_sentenceName p"] by auto
    have "\<forall>q \<in> set (take ?i ps). key_le (cust_key p) (cust_key q)"
      "\<forall>q \<in> set (drop ?i ps). key_le (cust_key p) (cust_key q)"
      using le by (blast dest: in_set_takeD in_set_dropD)+
    with e Cons.IH [OF s Cons.prems(2)] False show ?thesis
      by (auto simp: customs_sorted_def Let_def simp del: key_le.simps)
  qed
qed (simp add: customs_sorted_def)

section \<open>Characters keep the keys\<close>

lemma keys_commit_customs: "map cust_key (fst (commit_customs ms k name ps)) = map cust_key ps"
  by (induction ms k name ps rule: commit_customs.induct)
    (auto simp: custom_commit_def split: prod.splits)

lemma keys_set_customs: "map cust_key (set_customs t n name ps) = map cust_key ps"
  by (induction t n name ps rule: set_customs.induct) (auto simp: custom_set_def)

lemma keys_take_drop:
  "map cust_key qs = map cust_key (drop i ps) \<Longrightarrow> map cust_key (take i ps @ qs) = map cust_key ps"
  by (simp add: take_map [symmetric] drop_map [symmetric])

lemma keys_commit_candidates:
  "map cust_key (customElts (commit_candidates ms s)) = map cust_key (customElts s)"
  by (cases "customCandidates s")
    (simp_all add: commit_candidates_def case_prod_beta keys_take_drop keys_commit_customs
      del: map_append)

lemma keys_set_candidates:
  "map cust_key (customElts (set_candidates s)) = map cust_key (customElts s)"
  by (cases "customCandidates s")
    (simp_all add: set_candidates_def keys_take_drop keys_set_customs del: map_append)

lemma customElts_first_term: "customElts (first_term s) = customElts s"
  by (simp add: first_term_def Let_def)

lemma keys_endOfTermHandler:
  "map cust_key (customElts (snd (endOfTermHandler ms s))) = map cust_key (customElts s)"
  by (simp add: endOfTermHandler_def checksum_term_def Let_def keys_commit_candidates
      keys_set_candidates customElts_first_term frame_simps)

lemma keys_encode: "map cust_key (customElts (snd (encode ms c s))) = map cust_key (customElts s)"
  by (simp add: encode_def end_term_def Let_def case_prod_beta keys_endOfTermHandler)

section \<open>Reachable states\<close>

inductive gps_reach :: "(nat \<Rightarrow> u32) \<Rightarrow> gps \<Rightarrow> bool" for ms where
  reach_init: "length (term_buf g) = GPS_MAX_FIELD_SIZE \<Longrightarrow> gps_reach ms (tinygps_init g)"
| reach_encode: "gps_reach ms s \<Longrightarrow> gps_reach ms (snd (encode ms c s))"
| reach_custom: "gps_reach ms s \<Longrightarrow> gps_reach ms (add_custom name n s)"

lemma insert_position_le: "insert_position name n ps \<le> length ps"
  by (induction ps) (auto simp: Let_def)

lemma gps_wf_add_custom: "gps_wf s \<Longrightarrow> gps_wf (add_custom name n s)"
  using insert_position_le [of name n "customElts s"]
  by (cases "customCandidates s")
    (auto simp: gps_wf_def add_custom_def insertCustom_def Let_def custom_wf_begin
      list_all_take_drop)

lemma sorted_add_custom:
  "customs_sorted (customElts s) \<Longrightarrow> customs_sorted (customElts (add_custom name n s))"
  using insert_sorted [of "customElts s" "custom_begin name n" name n]
  by (simp add: add_custom_def insertCustom_def Let_def custom_begin_def)

lemma reach_invariant: "gps_reach ms s \<Longrightarrow> gps_wf s \<and> customs_sorted (customElts s)"
proof (induction rule: gps_reach.induct)
  case (reach_init g)
  then show ?case by (simp add: gps_wf_init) (simp add: tinygps_init_def customs_sorted_def)
next
  case (reach_encode s c)
  then show ?case using keys_encode [of ms c s] by (simp add: gps_wf_encode customs_sorted_def)
next
  case (reach_custom s name n)
  then show ?case by (simp add: gps_wf_add_custom sorted_add_custom)
qed

text \<open>
  Property C20: memory safety of the receiver. In every state that characters and registrations can
  reach, the write position lies inside the term buffer with room for the terminating NUL, every custom buffer
  has its declared size and holds a terminated string, the candidate pointer points into the list, and
  the list is sorted by sentence name and term number.
\<close>

theorem receiver_invariant:
  assumes "gps_reach ms s"
  shows "length (term_buf s) = GPS_MAX_FIELD_SIZE \<and>
     unat (curTermOffset s) + 1 \<le> GPS_MAX_FIELD_SIZE \<and>
     list_all custom_wf (customElts s) \<and>
     pred_option (\<lambda>i. i < length (customElts s)) (customCandidates s) \<and>
     customs_sorted (customElts s)"
  using reach_invariant [OF assms] by (cases "customCandidates s") (auto simp: gps_wf_def)

lemma reach_blank: "gps_reach ms (tinygps_init blank_gps)"
  by (rule reach_init) (simp add: blank_gps_def GPS_MAX_FIELD_SIZE_def)

theorem receiver_invariant_witness:
  "customs_sorted (customElts (add_custom (map ch ''GPVTG'') 3 (snd (encode (\<lambda>_. 7) 36
     (add_custom (map ch ''GPGSA'') 15 (tinygps_init blank_gps))))))"
  using receiver_invariant [OF reach_custom [OF reach_encode [OF reach_custom [OF reach_blank]]]]
  by blast

section \<open>What the custom elements receive\<close>

lemma sorted_below:
  assumes "customs_sorted (p # ps)" "strcmp name (cust_sentenceName p) < 0"
  shows "\<forall>q \<in> set ps. cust_sentenceName q \<noteq> name"
proof
  fix q assume "q \<in> set ps"
  then have "key_le (cust_key p) (cust_key q)" using assms(1) by (auto simp: customs_sorted_def)
  then have "strcmp name (cust_sentenceName q) < 0"
    using assms(2) by (auto dest: strcmp_trans)
  then show "cust_sentenceName q \<noteq> name" by auto
qed

lemma find_candidate_None:
  "customs_sorted ps \<Longrightarrow> find_candidate name i ps = None \<Longrightarrow> p \<in> set ps \<Longrightarrow>
     cust_sentenceName p \<noteq> name"
proof (induction ps arbitrary: i)
  case (Cons q ps)
  have s: "customs_sorted ps" using Cons.prems(1) by (simp add: customs_sorted_def)
  show ?case
    using Cons.prems Cons.IH [OF s] sorted_below [OF Cons.prems(1), of name]
    by (auto split: if_splits simp: strcmp_antisym [of name])
qed simp

lemma find_candidate_Some:
  "find_candidate name i ps = Some j \<Longrightarrow>
     i \<le> j \<and> j - i < length ps \<and> cust_sentenceName (ps ! (j - i)) = name \<and>
     (\<forall>p \<in> set (take (j - i) ps). cust_sentenceName p \<noteq> name)"
proof (induction ps arbitrary: i)
  case (Cons q ps)
  show ?case
  proof (cases "strcmp (cust_sentenceName q) name < 0")
    case True
    have f: "find_candidate name (Suc i) ps = Some j" using Cons.prems True by simp
    have "j - i = Suc (j - Suc i)" using Cons.IH [OF f] by auto
    with Cons.IH [OF f] True show ?thesis by auto
  next
    case False
    with Cons.prems show ?thesis by (auto split: if_splits simp: strcmp_eq_0)
  qed
qed simp

definition stage :: "u8 list \<Rightarrow> int \<Rightarrow> u8 list \<Rightarrow> gps_custom \<Rightarrow> gps_custom" where
  "stage t n name p =
     (if cust_sentenceName p = name \<and> cust_termNumber p = n then custom_set t p else p)"

lemma stage_simps:
  "cust_sentenceName p \<noteq> name \<or> cust_termNumber p \<noteq> n \<Longrightarrow> stage t n name p = p"
  "cust_sentenceName p = name \<Longrightarrow> cust_termNumber p = n \<Longrightarrow> stage t n name p = custom_set t p"
  by (auto simp: stage_def)

lemma set_customs_sorted:
  assumes "customs_sorted ps" "ps = [] \<or> cust_sentenceName (hd ps) = name"
  shows "set_customs t n name ps = map (stage t n name) ps"
  using assms
proof (induction ps)
  case (Cons p ps)
  have s: "customs_sorted ps" using Cons.prems(1) by (simp add: customs_sorted_def)
  have le: "\<forall>q \<in> set ps. key_le (cust_key p) (cust_key q)"
    using Cons.prems(1) by (auto simp: customs_sorted_def)
  show ?case
  proof (cases "cust_termNumber p \<le> n")
    case False
    have "map (stage t n name) ps = ps"
      by (rule map_idI) (use le False Cons.prems(2) in \<open>auto simp: stage_def\<close>)
    with False Cons.prems show ?thesis by (auto simp: stage_simps)
  next
    case True
    show ?thesis
    proof (cases "ps = [] \<or> cust_sentenceName (hd ps) = name")
      case h: True
      with Cons.IH [OF s h] Cons.prems True show ?thesis by (auto simp: stage_simps)
    next
      case False
      then obtain q qs where ps: "ps = q # qs" "cust_sentenceName q \<noteq> name" by (cases ps) auto
      have "strcmp name (cust_sentenceName q) < 0"
        using le Cons.prems(2) ps by auto
      then have "map (stage t n name) qs = qs"
        using sorted_below [of q qs name] s unfolding ps
        by (intro map_idI) (auto simp: stage_def)
      with ps Cons.prems True show ?thesis by (auto simp: stage_simps strcmp_eq_0)
    qed
  qed
qed simp

lemma customs_sorted_drop: "customs_sorted ps \<Longrightarrow> customs_sorted (drop i ps)"
  by (simp add: customs_sorted_def drop_map [symmetric] sorted_wrt_drop)

lemma stage_found:
  assumes "customs_sorted ps" "find_candidate name 0 ps = Some i"
  shows "take i ps @ set_customs t n (cust_sentenceName (ps ! i)) (drop i ps) =
     map (stage t n name) ps"
proof -
  note f = find_candidate_Some [OF assms(2), simplified]
  have d: "drop i ps = [] \<or> cust_sentenceName (hd (drop i ps)) = name"
    using f by (simp add: hd_drop_conv_nth)
  have "map (stage t n name) (take i ps) = take i ps"
    by (rule map_idI) (use f in \<open>auto simp: stage_def\<close>)
  then have "take i ps @ map (stage t n name) (drop i ps) = map (stage t n name) ps"
    by (metis append_take_drop_id map_append)
  then show ?thesis
    using f set_customs_sorted [OF customs_sorted_drop [OF assms(1)] d, of t n] by simp
qed

lemma stage_not_found:
  "customs_sorted ps \<Longrightarrow> find_candidate name 0 ps = None \<Longrightarrow> map (stage t n name) ps = ps"
  by (rule map_idI) (auto simp: stage_def dest: find_candidate_None)

text \<open>
  Property C21: the linked-list walk delivers every term to exactly the custom elements registered for
  it. After the sentence name has selected the candidates, staging a later term updates the elements whose
  sentence name is that name and whose term number is the current one, and no others.
\<close>

theorem custom_delivery:
  assumes "gps_reach ms s"
  shows "customElts (set_candidates ((first_term s)\<lparr>term_buf := b, curTermNumber := k\<rparr>)) =
     map (stage (cstr b) (uint k) (cstr (term_buf s))) (customElts s)"
  using reach_invariant [OF assms]
  by (cases "find_candidate (cstr (term_buf s)) 0 (customElts s)")
    (simp_all add: first_term_def set_candidates_def Let_def stage_found stage_not_found)

theorem custom_delivery_witness:
  "map (cstr \<circ> cust_stagingBuffer) (customElts (set_candidates ((first_term
       (add_custom (cstr (term_buf (tinygps_init blank_gps))) 3 (tinygps_init blank_gps)))
         \<lparr>term_buf := [55], curTermNumber := 3\<rparr>))) = [[55]]"
proof -
  have "cstr [55] = [55]" by (simp add: cstr_def)
  then show ?thesis
    by (subst custom_delivery [OF reach_custom [OF reach_blank]])
      (simp add: stage_def add_custom_def insertCustom_def custom_begin_def custom_set_def
        tinygps_init_def blank_gps_def cstr_strncpy GPS_MAX_FIELD_SIZE_def)
qed

section \<open>The fix flag\<close>

definition fixed where
  "fixed s =
     ((loc_valid (location s), rawLatData (location s), rawLngData (location s),
       loc_lastCommitTime (location s)), (dec_val (altitude s), dec_valid (altitude s)),
      (dec_val (speed s), dec_valid (speed s)), (dec_val (course s), dec_valid (course s)))"

lemma fixed_simps [frame_simps]:
  "fixed (commit_date ms s) = fixed s" "fixed (commit_time ms s) = fixed s"
  "fixed (commit_satellites ms s) = fixed s" "fixed (commit_hdop ms s) = fixed s"
  "sentenceHasFix (commit_date ms s) = sentenceHasFix s"
  "sentenceHasFix (commit_time ms s) = sentenceHasFix s"
  "fixed (s\<lparr>passedChecksumCount := n\<rparr>) = fixed s" "fixed (s\<lparr>failedChecksumCount := n\<rparr>) = fixed s"
  "fixed (s\<lparr>encodedCharCount := n\<rparr>) = fixed s" "fixed (s\<lparr>parity := q\<rparr>) = fixed s"
  "fixed (s\<lparr>term_buf := b\<rparr>) = fixed s" "fixed (s\<lparr>curTermOffset := q\<rparr>) = fixed s"
  "fixed (s\<lparr>curTermNumber := q\<rparr>) = fixed s" "fixed (s\<lparr>isChecksumTerm := f\<rparr>) = fixed s"
  "fixed (s\<lparr>curSentenceType := q\<rparr>) = fixed s" "fixed (s\<lparr>sentenceHasFix := f\<rparr>) = fixed s"
  by (simp_all add: fixed_def commit_defs)

lemma fixed_terms [frame_simps]:
  "fixed (first_term s) = fixed s" "fixed (store_term c s) = fixed s"
  by (simp_all add: fixed_def first_term_def store_term_def Let_def setter_defs)

lemma fixed_candidates [frame_simps]:
  "fixed (commit_candidates ms s) = fixed s" "fixed (set_candidates s) = fixed s"
  by (simp_all add: fixed_def commit_candidates_def set_candidates_def split: option.splits
      prod.splits)

lemma fixed_endOfTermHandler:
  "\<not> sentenceHasFix s \<Longrightarrow> fixed (snd (endOfTermHandler ms s)) = fixed s"
  by (simp add: endOfTermHandler_def checksum_term_def Let_def frame_simps)

text \<open>
  Property C22: a sentence without a fix never moves the bicycle. While the fix flag of the running
  sentence is clear, no character (a valid sentence's last one included) changes the committed
  position, its time, altitude, speed or course.
\<close>

theorem no_fix_no_move:
  assumes "\<not> sentenceHasFix s"
  shows "fixed (snd (encode ms c s)) = fixed s"
  using assms
  by (simp add: encode_def end_term_def Let_def case_prod_beta fixed_endOfTermHandler frame_simps)

theorem no_fix_no_move_witness:
  "fixed (snd (encode (\<lambda>_. 7) 13 (tinygps_init blank_gps))) = fixed (tinygps_init blank_gps)"
  by (rule no_fix_no_move) (simp add: tinygps_init_def)

text \<open>
  Property C27: the term number is or-ed into the sentence type, so terms 32 to 63 of a GGA sentence
  are taken for the terms 0 to 31 of an RMC sentence: term 34 of a GGA sentence writes the fix flag, and
  term 35 the latitude.
\<close>

theorem gga_term_collision:
  assumes "n < 32"
  shows "store_term (COMBINE GPS_SENTENCE_GPGGA (32 + of_nat n)) s =
     store_term (COMBINE GPS_SENTENCE_GPRMC (of_nat n)) s"
proof -
  have "list_all (\<lambda>n. COMBINE GPS_SENTENCE_GPGGA (32 + of_nat n) =
      COMBINE GPS_SENTENCE_GPRMC (of_nat n)) [0..<32]"
    by code_simp
  then have "COMBINE GPS_SENTENCE_GPGGA (32 + of_nat n) = COMBINE GPS_SENTENCE_GPRMC (of_nat n)"
    using assms unfolding list_all_iff by simp
  then show ?thesis by simp
qed

theorem gga_term_collision_witness:
  "store_term (COMBINE GPS_SENTENCE_GPGGA 34) (tinygps_init blank_gps) =
     store_term (COMBINE GPS_SENTENCE_GPRMC 2) (tinygps_init blank_gps)"
  using gga_term_collision [of 2] by simp

end
