(* ===== verification/Firmware.thy ===== *)
theory Firmware
  imports Rock_Prelude
begin

text \<open>
  The lock firmware (\<^verbatim>\<open>src/embedded/Rock-YOU_nodeMCU\<close> with its libraries MyWifi, MyBluetooth,
  MyFirebase, MyGPS, MyMotor and Value). What the sketch does to the outside world is a trace of
  effects (a \<open>Serial_Angle\<close> prints the angle, or 0.0 for the library's invalid angle; the Wi-Fi and Firebase
  credentials are left out). The hardware and the libraries that are not in the repository enter as arguments: the
  character source and clock of the GPS loop as a list of polls, the receiver (\<open>TinyGPS\<close>) as
  \<open>enc\<close> and \<open>pos\<close>, \<open>distance_between\<close> as \<open>dist\<close>, Firebase's answers as functions of the call's number,
  the value of uninitialised locals as \<open>junk\<close> arguments. A \<open>float\<close> is its IEEE-754 bit pattern, of
  which the code only asks whether it is zero and whether it is at least 4.
\<close>

section \<open>Values\<close>

type_synonym f32 = "32 word"

definition f32_is_zero :: "f32 \<Rightarrow> bool" where
  "f32_is_zero x \<longleftrightarrow> x = 0 \<or> x = 0x80000000"

definition f32_ge_4 :: "f32 \<Rightarrow> bool" where
  "f32_ge_4 x \<longleftrightarrow> 0x40800000 \<le> x \<and> x \<le> 0x7F800000"

record gps_value =
  latitude :: f32
  longitude :: f32

definition OPEN :: int where "OPEN = 0"
definition CLOSE :: int where "CLOSE = 1"
definition DRIVE :: int where "DRIVE = 0"
definition LOCKED :: int where "LOCKED = 1"
definition STEEL :: int where "STEEL = 2"
definition LONGITUDE :: int where "LONGITUDE = 0"
definition LATITUDE :: int where "LATITUDE = 1"
definition LOCK :: int where "LOCK = 2"
definition STATE :: int where "STATE = 3"

lemmas enum_defs = OPEN_def CLOSE_def DRIVE_def LOCKED_def STEEL_def
lemmas field_defs = LONGITUDE_def LATITUDE_def LOCK_def STATE_def

datatype gear = MainGear | LockGear

datatype json = JInt int | JFloat f32

datatype effect =
    Attach gear
  | Servo gear int
  | Delay nat
  | Pin_Mode nat bool
  | Serial_Begin nat
  | Serial_Write u8
  | Serial_Print string
  | Gps_Begin nat
  | Ble_Begin nat
  | Ble_Write u8
  | Wifi_Begin
  | Serial_Println
  | Serial_Angle f32
  | Serial_Local_IP
  | Response_Size nat
  | Firebase_Begin
  | Reconnect_WiFi bool
  | Patch string "(string \<times> json) list" string
  | Patch_Ok
  | Patch_Error

text \<open>
  The globals: the members of \<open>Value\<close>, the JSON object \<open>content\<close> as the list of \<open>set\<close> calls since
  the last \<open>clear\<close>, the receiver's own state, the number of Firebase calls made and the trace.
\<close>

record 'g firmware =
  state :: int
  preGpsValue :: gps_value
  content :: "(string \<times> json) list"
  gps :: 'g
  fb_calls :: nat
  trace :: "effect list"

definition emit :: "effect list \<Rightarrow> 'g firmware \<Rightarrow> 'g firmware" where
  "emit es s = s\<lparr>trace := trace s @ es\<rparr>"

section \<open>Value, motor, bluetooth\<close>

definition initValue :: "'g firmware \<Rightarrow> 'g firmware" where
  "initValue s = s\<lparr>state := DRIVE, preGpsValue := (preGpsValue s)\<lparr>latitude := 0, longitude := 0\<rparr>\<rparr>"

definition setMotor :: "'g firmware \<Rightarrow> 'g firmware" where
  "setMotor = emit [Attach MainGear, Attach LockGear, Servo LockGear 0]"

text \<open>The two sweeps: \<^verbatim>\<open>for (pos = 0; pos <= 180; pos += 5)\<close> and back.\<close>

function sweep_up :: "gear \<Rightarrow> int \<Rightarrow> effect list" where
  "sweep_up g pos = (if pos \<le> 180 then Servo g pos # Delay 20 # sweep_up g (pos + 5) else [])"
  by auto
termination by (relation "measure (\<lambda>(g, pos). nat (181 - pos))") auto

function sweep_down :: "gear \<Rightarrow> int \<Rightarrow> effect list" where
  "sweep_down g pos = (if 0 \<le> pos then Servo g pos # Delay 20 # sweep_down g (pos - 5) else [])"
  by auto
termination by (relation "measure (\<lambda>(g, pos). nat (pos + 1))") auto

declare sweep_up.simps [simp del] sweep_down.simps [simp del]

definition unlockBicycle :: "'g firmware \<Rightarrow> 'g firmware" where
  "unlockBicycle s = emit (sweep_down LockGear 180 @ sweep_down MainGear 180) s"

definition lockBicycle :: "'g firmware \<Rightarrow> 'g firmware" where
  "lockBicycle s = emit (sweep_up MainGear 0 @ sweep_up LockGear 0) s"

definition setBLEPin :: "'g firmware \<Rightarrow> 'g firmware" where
  "setBLEPin = emit [Pin_Mode 32 False, Pin_Mode 33 True, Ble_Begin 9600]"

text \<open>\<open>ble\<close> is what \<open>parseInt\<close> returns when a character is available, \<open>None\<close> when none is.\<close>

definition getCmdFromBLE :: "int option \<Rightarrow> 'g firmware \<Rightarrow> int \<times> 'g firmware" where
  "getCmdFromBLE ble s =
     (case ble of None \<Rightarrow> (- 1, s) | Some c \<Rightarrow> (c, emit [Serial_Write (word_of_int c)] s))"

definition sendCmdToBLE :: "int \<Rightarrow> 'g firmware \<Rightarrow> 'g firmware" where
  "sendCmdToBLE lockState = emit [Ble_Write (word_of_int lockState)]"

section \<open>Firebase\<close>

text \<open>
  The cloud's answers: \<open>fb k = (ready, accepted)\<close> is what \<open>Firebase.ready()\<close> and, when it is asked,
  \<open>patchDocument\<close> return the \<open>k\<close>-th time an update gets that far.
\<close>

definition document_path :: string where
  "document_path = ''bicycle/qf6r5zOcY4jXmmcniqX9''"

definition patch :: "(nat \<Rightarrow> bool \<times> bool) \<Rightarrow> string \<Rightarrow> 'g firmware \<Rightarrow> 'g firmware" where
  "patch fb updateMask s =
     (let (ready, accepted) = fb (fb_calls s); s = s\<lparr>fb_calls := fb_calls s + 1\<rparr>
      in if ready
         then emit [Patch document_path (content s) updateMask,
                    if accepted then Patch_Ok else Patch_Error] s
         else s)"

definition updateFirebase ::
  "(nat \<Rightarrow> bool \<times> bool) \<Rightarrow> int \<Rightarrow> int \<Rightarrow> 'g firmware \<Rightarrow> 'g firmware" where
  "updateFirebase fb updateValue data s =
     (let (jsonPath, updateMask, s) =
            (if updateValue = LOCK then (''fields/lock/integerValue'', ''lock'', s)
             else if updateValue = STATE then (''fields/state/integerValue'', ''state'', s)
             else ('''', '''', emit [Serial_Print ''Need to update state first''] s));
          s = s\<lparr>content := []\<rparr>;
          s = s\<lparr>content := content s @ [(jsonPath, JInt data)]\<rparr>
      in patch fb updateMask s)"

definition updateGPSFirebase ::
  "(nat \<Rightarrow> bool \<times> bool) \<Rightarrow> int \<Rightarrow> f32 \<Rightarrow> 'g firmware \<Rightarrow> 'g firmware" where
  "updateGPSFirebase fb updateValue data s =
     (let (jsonPath, updateMask, s) =
            (if updateValue = LONGITUDE then (''fields/GPS/geoPointValue/longitude'', ''GPS'', s)
             else if updateValue = LATITUDE then (''fields/GPS/geoPointValue/latitude'', ''GPS'', s)
             else ('''', '''', emit [Serial_Print ''Need to update state first''] s));
          s = s\<lparr>content := content s @ [(jsonPath, JFloat data)]\<rparr>
      in patch fb updateMask s)"

definition setFirebase :: "'g firmware \<Rightarrow> 'g firmware" where
  "setFirebase = emit [Response_Size 2048, Firebase_Begin, Reconnect_WiFi True]"

section \<open>GPS\<close>

definition setGPSPin :: "'g firmware \<Rightarrow> 'g firmware" where
  "setGPSPin = emit [Pin_Mode 35 False, Gps_Begin 9600]"

text \<open>
  The receive loop. A poll is one evaluation of the loop's condition and body: the clock read by the
  condition and the character that is available, if one is. The result is \<open>None\<close> when the polls run
  out before the second is over; otherwise the flag, the receiver and the polls that are left.
\<close>

fun receive ::
  "('g \<Rightarrow> u8 \<Rightarrow> bool \<times> 'g) \<Rightarrow> u32 \<Rightarrow> (u32 \<times> u8 option) list \<Rightarrow> bool \<Rightarrow> 'g \<Rightarrow>
     (bool \<times> 'g \<times> (u32 \<times> u8 option) list) option" where
  "receive enc start [] newData g = None"
| "receive enc start ((now, c) # polls) newData g =
     (if now - start < 1000
      then (case c of
              None \<Rightarrow> receive enc start polls newData g
            | Some b \<Rightarrow> (let (done, g') = enc g b in receive enc start polls (done \<or> newData) g'))
      else Some (newData, g, polls))"

definition print_position :: "f32 \<Rightarrow> f32 \<Rightarrow> effect list" where
  "print_position flat flon =
     [Serial_Print ''LAT='', Serial_Angle flat, Serial_Print '' LON='', Serial_Angle flon,
      Serial_Println]"

definition getGPSValue ::
  "('g \<Rightarrow> u8 \<Rightarrow> bool \<times> 'g) \<Rightarrow> ('g \<Rightarrow> f32 \<times> f32) \<Rightarrow> u32 \<Rightarrow> (u32 \<times> u8 option) list \<Rightarrow>
     gps_value \<Rightarrow> 'g firmware \<Rightarrow> (gps_value \<times> 'g firmware) option" where
  "getGPSValue enc pos start polls junk s =
     (case receive enc start polls False (gps s) of
        None \<Rightarrow> None
      | Some (newData, g, _) \<Rightarrow>
          (let s = s\<lparr>gps := g\<rparr>
           in if newData
              then (let (flat, flon) = pos g
                    in Some (junk\<lparr>latitude := flat, longitude := flon\<rparr>,
                             emit (print_position flat flon) s))
              else Some (junk, s)))"

section \<open>Wi-Fi, setup\<close>

text \<open>\<open>WiFi.status()\<close> returns the elements of the list, one per call.\<close>

fun connWifi_loop :: "int list \<Rightarrow> effect list option" where
  "connWifi_loop [] = None"
| "connWifi_loop (st # sts) =
     (if st \<noteq> 3
      then map_option (\<lambda>es. Serial_Print ''.'' # Delay 300 # es) (connWifi_loop sts)
      else Some [])"

definition connWifi :: "int list \<Rightarrow> 'g firmware \<Rightarrow> 'g firmware option" where
  "connWifi sts s =
     map_option (\<lambda>es. emit ([Wifi_Begin, Serial_Print ''Connecting to Wi-Fi''] @ es @
         [Serial_Println, Serial_Print ''Connected with IP: '', Serial_Local_IP, Serial_Println]) s) (connWifi_loop sts)"

definition setup_sketch :: "int list \<Rightarrow> 'g firmware \<Rightarrow> 'g firmware option" where
  "setup_sketch sts s =
     (let s = initValue s; s = setMotor s; s = setGPSPin s; s = setBLEPin s;
          s = emit [Serial_Begin 115200] s
      in map_option setFirebase (connWifi sts s))"

section \<open>The loop\<close>

definition handle_command ::
  "(nat \<Rightarrow> bool \<times> bool) \<Rightarrow> int option \<Rightarrow> 'g firmware \<Rightarrow> 'g firmware" where
  "handle_command fb ble s =
     (let (lockCmd, s) = getCmdFromBLE ble s
      in if lockCmd \<noteq> - 1
         then (if lockCmd = CLOSE
               then (let s = lockBicycle s; s = s\<lparr>state := LOCKED\<rparr>; s = sendCmdToBLE (state s) s
                     in updateFirebase fb STATE (state s) s)
               else if lockCmd = OPEN
               then (let s = unlockBicycle s; s = s\<lparr>state := DRIVE\<rparr>; s = sendCmdToBLE (state s) s
                     in updateFirebase fb STATE (state s) s)
               else emit [Serial_Print ''invalid command''] s)
         else s)"

definition track ::
  "(nat \<Rightarrow> bool \<times> bool) \<Rightarrow> (f32 \<Rightarrow> f32 \<Rightarrow> f32 \<Rightarrow> f32 \<Rightarrow> f32) \<Rightarrow> f32 \<Rightarrow> gps_value \<Rightarrow>
     'g firmware \<Rightarrow> 'g firmware" where
  "track fb dist junk_distance v s =
     (let distance = (if \<not> f32_is_zero (latitude (preGpsValue s))
                      then dist (latitude v) (longitude v)
                             (latitude (preGpsValue s)) (longitude (preGpsValue s))
                      else junk_distance)
      in if f32_ge_4 distance \<or> f32_is_zero (latitude (preGpsValue s))
         then (let s = s\<lparr>preGpsValue := (preGpsValue s)\<lparr>latitude := latitude v,
                                                        longitude := longitude v\<rparr>\<rparr>;
                   s = updateGPSFirebase fb LATITUDE (latitude v) s;
                   s = updateGPSFirebase fb LONGITUDE (longitude v) s
               in if state s = LOCKED
                  then (let s = s\<lparr>state := STEEL\<rparr> in updateFirebase fb STATE (state s) s)
                  else s)
         else s)"

text \<open>One call of \<open>loop()\<close>, on what the outside world answers during it.\<close>

record loop_input =
  in_ble :: "int option"
  in_start :: u32
  in_polls :: "(u32 \<times> u8 option) list"
  junk_gps :: gps_value
  junk_distance :: f32

definition loop ::
  "('g \<Rightarrow> u8 \<Rightarrow> bool \<times> 'g) \<Rightarrow> ('g \<Rightarrow> f32 \<times> f32) \<Rightarrow> (f32 \<Rightarrow> f32 \<Rightarrow> f32 \<Rightarrow> f32 \<Rightarrow> f32) \<Rightarrow>
     (nat \<Rightarrow> bool \<times> bool) \<Rightarrow> loop_input \<Rightarrow> 'g firmware \<Rightarrow> 'g firmware option" where
  "loop enc pos dist fb i s =
     map_option (\<lambda>(v, s). track fb dist (junk_distance i) v s)
       (getGPSValue enc pos (in_start i) (in_polls i) (junk_gps i) (handle_command fb (in_ble i) s))"

section \<open>What every operation leaves alone\<close>

lemma emit_fields [simp]:
  "state (emit es s) = state s" "preGpsValue (emit es s) = preGpsValue s"
  "content (emit es s) = content s" "gps (emit es s) = gps s" "fb_calls (emit es s) = fb_calls s"
  "trace (emit es s) = trace s @ es"
  by (simp_all add: emit_def)

lemma patch_fields [simp]:
  "state (patch fb m s) = state s" "preGpsValue (patch fb m s) = preGpsValue s"
  "content (patch fb m s) = content s" "gps (patch fb m s) = gps s"
  "fb_calls (patch fb m s) = fb_calls s + 1"
  by (simp_all add: patch_def Let_def split: prod.split)

lemma update_fields [simp]:
  "state (updateFirebase fb u d s) = state s"
  "preGpsValue (updateFirebase fb u d s) = preGpsValue s"
  "gps (updateFirebase fb u d s) = gps s"
  "state (updateGPSFirebase fb u x s) = state s"
  "preGpsValue (updateGPSFirebase fb u x s) = preGpsValue s"
  "gps (updateGPSFirebase fb u x s) = gps s"
  by (simp_all add: updateFirebase_def updateGPSFirebase_def Let_def)

lemma motor_fields [simp]:
  "state (lockBicycle s) = state s" "state (unlockBicycle s) = state s"
  "preGpsValue (lockBicycle s) = preGpsValue s" "preGpsValue (unlockBicycle s) = preGpsValue s"
  "state (sendCmdToBLE l s) = state s" "preGpsValue (sendCmdToBLE l s) = preGpsValue s"
  by (simp_all add: lockBicycle_def unlockBicycle_def sendCmdToBLE_def)

section \<open>The bicycle as an automaton\<close>

text \<open>
  The promise of the firmware: a parked bicycle that moves is reported stolen, and only the owner's
  commands park and release it.
\<close>

datatype bike = Riding | Parked | Stolen

fun bike_command :: "int option \<Rightarrow> bike \<Rightarrow> bike" where
  "bike_command None b = b"
| "bike_command (Some c) b = (if c = 1 then Parked else if c = 0 then Riding else b)"

fun bike_move :: "bool \<Rightarrow> bike \<Rightarrow> bike" where
  "bike_move True Parked = Stolen"
| "bike_move _ b = b"

definition bike_of :: "int \<Rightarrow> bike" where
  "bike_of st = (if st = LOCKED then Parked else if st = STEEL then Stolen else Riding)"

definition moved :: "(f32 \<Rightarrow> f32 \<Rightarrow> f32 \<Rightarrow> f32 \<Rightarrow> f32) \<Rightarrow> gps_value \<Rightarrow> gps_value \<Rightarrow> bool" where
  "moved dist v old \<longleftrightarrow>
     (if f32_is_zero (latitude old) then True
      else f32_ge_4 (dist (latitude v) (longitude v) (latitude old) (longitude old)))"

lemma bike_of_simps [simp]:
  "bike_of DRIVE = Riding" "bike_of LOCKED = Parked" "bike_of STEEL = Stolen"
  by (simp_all add: bike_of_def enum_defs)

lemma bike_handle_command:
  "bike_of (state (handle_command fb ble s)) = bike_command ble (bike_of (state s))"
  by (cases ble) (auto simp: handle_command_def getCmdFromBLE_def Let_def bike_of_def enum_defs)

lemma bike_track:
  "bike_of (state (track fb dist j v s)) =
     bike_move (moved dist v (preGpsValue s)) (bike_of (state s))"
  by (auto simp: track_def moved_def Let_def bike_of_def enum_defs)

lemma pre_handle_command [simp]: "preGpsValue (handle_command fb ble s) = preGpsValue s"
  by (cases ble) (auto simp: handle_command_def getCmdFromBLE_def Let_def)

text \<open>The receive loop's effects are prints, which concern neither the gears nor the cloud.\<close>

fun printed :: "effect \<Rightarrow> bool" where
  "printed (Serial_Print t) = True"
| "printed (Serial_Angle x) = True"
| "printed Serial_Println = True"
| "printed e = False"

lemma getGPSValue_Some:
  assumes "getGPSValue enc pos t polls j s = Some (v, s')"
  obtains g es where "s' = emit es (s\<lparr>gps := g\<rparr>)" "list_all printed es"
proof -
  obtain nd g rest where rc: "receive enc t polls False (gps s) = Some (nd, g, rest)"
    using assms by (auto simp: getGPSValue_def split: option.splits)
  show thesis
  proof (cases nd)
    case True
    then have "s' = emit (print_position (fst (pos g)) (snd (pos g))) (s\<lparr>gps := g\<rparr>)"
      using assms rc by (simp add: getGPSValue_def case_prod_beta)
    then show thesis by (rule that) (simp add: print_position_def)
  next
    case False
    then have "s' = emit [] (s\<lparr>gps := g\<rparr>)"
      using assms rc by (simp add: getGPSValue_def emit_def)
    then show thesis by (rule that) simp
  qed
qed

lemma loop_cases:
  assumes "loop enc pos dist fb i s = Some s'"
  obtains v g es where
    "getGPSValue enc pos (in_start i) (in_polls i) (junk_gps i) (handle_command fb (in_ble i) s) =
       Some (v, emit es ((handle_command fb (in_ble i) s)\<lparr>gps := g\<rparr>))"
    "s' = track fb dist (junk_distance i) v (emit es ((handle_command fb (in_ble i) s)\<lparr>gps := g\<rparr>))"
    "list_all printed es"
proof -
  obtain v t where t: "getGPSValue enc pos (in_start i) (in_polls i) (junk_gps i)
      (handle_command fb (in_ble i) s) = Some (v, t)" "s' = track fb dist (junk_distance i) v t"
    using assms by (auto simp: loop_def)
  show thesis using t that by (metis getGPSValue_Some)
qed

text \<open>
  Property C1: one round of the sketch refines one step of the automaton: the owner's command first, then, if
  the bicycle is at least four metres away from the last position (or had none), the alarm of a parked
  bicycle. Nothing else changes the state: it takes a command to leave the alarm.
\<close>

theorem loop_refines_automaton:
  assumes "loop enc pos dist fb i s = Some s'"
  shows "\<exists>v. map_option fst (getGPSValue enc pos (in_start i) (in_polls i) (junk_gps i)
             (handle_command fb (in_ble i) s)) = Some v \<and>
           bike_of (state s') =
             bike_move (moved dist v (preGpsValue s)) (bike_command (in_ble i) (bike_of (state s)))"
  by (rule loop_cases [OF assms]) (simp add: bike_track bike_handle_command)

definition idle_world :: "int option \<Rightarrow> f32 \<Rightarrow> loop_input" where
  "idle_world ble junk =
     \<lparr>in_ble = ble, in_start = 0, in_polls = [(5, Some 36), (1000, None)],
      junk_gps = \<lparr>latitude = junk, longitude = junk\<rparr>, junk_distance = junk\<rparr>"

definition parked :: "nat firmware" where
  "parked = \<lparr>state = LOCKED, preGpsValue = \<lparr>latitude = 0x42140000, longitude = 0x42FE0000\<rparr>,
             content = [], gps = 0, fb_calls = 0, trace = []\<rparr>"

theorem loop_refines_automaton_witness:
  "bike_of (state (the (loop (\<lambda>g _. (True, g + 1)) (\<lambda>_. (0x42150000, 0x42FE0000))
     (\<lambda>a b c d. if a = c then 0 else 0x42C80000) (\<lambda>_. (True, True)) (idle_world None 7) parked))) = Stolen"
proof -
  let ?l = "loop (\<lambda>g _. (True, g + 1)) (\<lambda>_. (0x42150000, 0x42FE0000))
     (\<lambda>a b c d. if a = c then 0 else 0x42C80000) (\<lambda>_. (True, True)) (idle_world None 7) parked"
  have "?l \<noteq> None"
    by (simp add: loop_def getGPSValue_def idle_world_def handle_command_def getCmdFromBLE_def)
  then obtain s' where s': "?l = Some s'" by blast
  have "bike_of (state s') = Stolen"
    using loop_refines_automaton [OF s']
    by (simp add: idle_world_def parked_def getGPSValue_def handle_command_def getCmdFromBLE_def
        moved_def f32_ge_4_def f32_is_zero_def)
  then show ?thesis by (simp only: s' option.sel)
qed

section \<open>The servos\<close>

fun servo_pos :: "gear \<Rightarrow> effect list \<Rightarrow> int option" where
  "servo_pos g [] = None"
| "servo_pos g (e # es) =
     (case servo_pos g es of Some p \<Rightarrow> Some p
      | None \<Rightarrow> (case e of Servo g' p \<Rightarrow> if g' = g then Some p else None | _ \<Rightarrow> None))"

fun angle_ok :: "effect \<Rightarrow> bool" where
  "angle_ok (Servo g p) = (0 \<le> p \<and> p \<le> 180)"
| "angle_ok e = True"

lemma servo_pos_append:
  "servo_pos g (xs @ ys) = (case servo_pos g ys of Some p \<Rightarrow> Some p | None \<Rightarrow> servo_pos g xs)"
  by (induction xs) (auto split: option.splits)

lemma sweep_up_ends:
  assumes "pos \<le> 180" "5 dvd pos"
  shows "servo_pos g (sweep_up h pos) = (if g = h then Some 180 else None)"
  using assms
proof (induction h pos rule: sweep_up.induct)
  case (1 h pos)
  show ?case
  proof (cases "pos = 180")
    case True
    then show ?thesis by (simp add: sweep_up.simps [of h 180] sweep_up.simps [of h 185])
  next
    case False
    with "1.prems" have "pos + 5 \<le> 180" "5 dvd pos + 5" by presburger+
    with "1.IH" "1.prems" show ?thesis by (subst sweep_up.simps) simp
  qed
qed

lemma sweep_down_ends:
  assumes "0 \<le> pos" "5 dvd pos"
  shows "servo_pos g (sweep_down h pos) = (if g = h then Some 0 else None)"
  using assms
proof (induction h pos rule: sweep_down.induct)
  case (1 h pos)
  show ?case
  proof (cases "pos = 0")
    case True
    then show ?thesis by (simp add: sweep_down.simps [of h 0] sweep_down.simps [of h "- 5"])
  next
    case False
    with "1.prems" have "0 \<le> pos - 5" "5 dvd pos - 5" by presburger+
    with "1.IH" "1.prems" show ?thesis by (subst sweep_down.simps) simp
  qed
qed

lemma sweep_up_angles: "0 \<le> pos \<Longrightarrow> list_all angle_ok (sweep_up g pos)"
proof (induction g pos rule: sweep_up.induct)
  case (1 g pos)
  then show ?case by (subst sweep_up.simps) simp
qed

lemma sweep_down_angles: "pos \<le> 180 \<Longrightarrow> list_all angle_ok (sweep_down g pos)"
proof (induction g pos rule: sweep_down.induct)
  case (1 g pos)
  then show ?case by (subst sweep_down.simps) simp
qed

text \<open>The position a motor command leaves the gears in, whatever came before.\<close>

lemma servo_lock:
  "servo_pos g (trace (lockBicycle s)) = Some 180"
  "servo_pos g (trace (unlockBicycle s)) = Some 0"
  by (cases g; simp add: lockBicycle_def unlockBicycle_def servo_pos_append sweep_up_ends
      sweep_down_ends)+

definition quiet :: "effect \<Rightarrow> bool" where
  "quiet e \<longleftrightarrow> (\<forall>g p. e \<noteq> Servo g p)"

lemma servo_pos_quiet: "list_all quiet es \<Longrightarrow> servo_pos g es = None"
  by (induction es) (auto simp: quiet_def split: effect.splits)

lemma servo_emit: "list_all quiet es \<Longrightarrow> servo_pos g (trace (emit es s)) = servo_pos g (trace s)"
  by (simp add: servo_pos_append servo_pos_quiet)

lemma servo_patch [simp]: "servo_pos g (trace (patch fb m s)) = servo_pos g (trace s)"
  by (simp add: patch_def Let_def servo_pos_append split: prod.split)

lemma servo_update [simp]:
  "servo_pos g (trace (updateFirebase fb u d s)) = servo_pos g (trace s)"
  "servo_pos g (trace (updateGPSFirebase fb u x s)) = servo_pos g (trace s)"
  "servo_pos g (trace (sendCmdToBLE l s)) = servo_pos g (trace s)"
  by (simp_all add: updateFirebase_def updateGPSFirebase_def sendCmdToBLE_def Let_def servo_pos_append)

lemma servo_track [simp]: "servo_pos g (trace (track fb dist j v s)) = servo_pos g (trace s)"
  by (simp add: track_def Let_def)

lemma angles_emit: "list_all angle_ok (trace s) \<Longrightarrow> list_all angle_ok es \<Longrightarrow>
    list_all angle_ok (trace (emit es s))"
  by simp

lemma angles_update:
  "list_all angle_ok (trace (updateFirebase fb u d s)) = list_all angle_ok (trace s)"
  "list_all angle_ok (trace (updateGPSFirebase fb u x s)) = list_all angle_ok (trace s)"
  "list_all angle_ok (trace (sendCmdToBLE l s)) = list_all angle_ok (trace s)"
  by (simp_all add: updateFirebase_def updateGPSFirebase_def patch_def sendCmdToBLE_def Let_def
      split: prod.split)

lemma angles_motor:
  "list_all angle_ok (trace (lockBicycle s)) = list_all angle_ok (trace s)"
  "list_all angle_ok (trace (unlockBicycle s)) = list_all angle_ok (trace s)"
  by (simp_all add: lockBicycle_def unlockBicycle_def sweep_up_angles sweep_down_angles)

section \<open>Every round\<close>

inductive fw_reach ::
  "('g \<Rightarrow> u8 \<Rightarrow> bool \<times> 'g) \<Rightarrow> ('g \<Rightarrow> f32 \<times> f32) \<Rightarrow> (f32 \<Rightarrow> f32 \<Rightarrow> f32 \<Rightarrow> f32 \<Rightarrow> f32) \<Rightarrow>
     (nat \<Rightarrow> bool \<times> bool) \<Rightarrow> 'g firmware \<Rightarrow> bool" for enc pos dist fb where
  after_setup: "trace s = [] \<Longrightarrow> setup_sketch sts s = Some s' \<Longrightarrow> fw_reach enc pos dist fb s'"
| after_loop: "fw_reach enc pos dist fb s \<Longrightarrow> loop enc pos dist fb i s = Some s' \<Longrightarrow>
    fw_reach enc pos dist fb s'"

definition gears_match :: "'g firmware \<Rightarrow> bool" where
  "gears_match s \<longleftrightarrow>
     (if state s = DRIVE then servo_pos LockGear (trace s) = Some 0
      else \<forall>g \<in> {MainGear, LockGear}. servo_pos g (trace s) = Some 180)"

lemma connWifi_loop_quiet:
  "connWifi_loop sts = Some es \<Longrightarrow> list_all quiet es \<and> list_all angle_ok es"
  by (induction sts arbitrary: es) (auto simp: quiet_def split: if_splits)

lemma setup_Some:
  assumes "setup_sketch sts s = Some s'" "trace s = []"
  shows "state s' = DRIVE" "gears_match s'" "list_all angle_ok (trace s')"
proof -
  obtain es where es: "connWifi_loop sts = Some es"
    using assms(1) by (auto simp: setup_sketch_def Let_def connWifi_def)
  note q = connWifi_loop_quiet [OF es]
  show d: "state s' = DRIVE"
    using assms(1) by (auto simp: setup_sketch_def Let_def connWifi_def es initValue_def
        setMotor_def setGPSPin_def setBLEPin_def setFirebase_def)
  show "gears_match s'"
    using assms q unfolding gears_match_def d
    by (auto simp: setup_sketch_def Let_def connWifi_def es initValue_def setMotor_def
        setGPSPin_def setBLEPin_def setFirebase_def servo_pos_append servo_pos_quiet)
  show "list_all angle_ok (trace s')"
    using assms q
    by (auto simp: setup_sketch_def Let_def connWifi_def es initValue_def setMotor_def
        setGPSPin_def setBLEPin_def setFirebase_def)
qed

lemma gears_handle_command: "gears_match s \<Longrightarrow> gears_match (handle_command fb ble s)"
  by (cases ble) (auto simp: handle_command_def getCmdFromBLE_def Let_def gears_match_def
      servo_lock servo_pos_append enum_defs)

text \<open>The value of the document's \<open>state\<close> field after the updates of a trace.\<close>

fun state_field :: "(string \<times> json) list \<Rightarrow> int option" where
  "state_field [] = None"
| "state_field ((p, v) # xs) =
     (case state_field xs of Some d \<Rightarrow> Some d
      | None \<Rightarrow> (case v of JInt d \<Rightarrow> if p = ''fields/state/integerValue'' then Some d else None
                | JFloat _ \<Rightarrow> None))"

fun cloud_step :: "effect \<Rightarrow> int option \<Rightarrow> int option" where
  "cloud_step (Patch path c m) st = (if m = ''state'' then state_field c else st)"
| "cloud_step _ st = st"

lemma printed_quiet: "printed e \<Longrightarrow> quiet e \<and> angle_ok e \<and> cloud_step e st = st"
  by (cases e) (simp_all add: quiet_def)

lemma printed_angles: "list_all printed es \<Longrightarrow> list_all angle_ok es"
  by (simp add: list_all_iff printed_quiet)

lemma gears_gps:
  assumes "list_all printed es"
  shows "gears_match (emit es (s\<lparr>gps := g\<rparr>)) = gears_match s"
proof -
  have "list_all quiet es"
    using assms printed_quiet by (auto simp: list_all_iff)
  then show ?thesis by (simp add: gears_match_def servo_pos_append servo_pos_quiet)
qed

lemma gears_track: "gears_match s \<Longrightarrow> gears_match (track fb dist j v s)"
  by (simp add: gears_match_def) (auto simp: track_def Let_def enum_defs)

lemma angles_handle_command:
  "list_all angle_ok (trace (handle_command fb ble s)) = list_all angle_ok (trace s)"
  by (cases ble) (auto simp: handle_command_def getCmdFromBLE_def Let_def angles_update angles_motor)

lemma angles_track: "list_all angle_ok (trace (track fb dist j v s)) = list_all angle_ok (trace s)"
  by (simp add: track_def Let_def angles_update)

lemma reach_gears:
  "fw_reach enc pos dist fb s \<Longrightarrow> gears_match s \<and> list_all angle_ok (trace s)"
proof (induction rule: fw_reach.induct)
  case (after_setup s sts s')
  then show ?case using setup_Some [OF after_setup(2,1)] by simp
next
  case (after_loop s i s')
  then show ?case
    by (auto elim!: loop_cases simp: gears_track gears_gps gears_handle_command angles_track
        angles_handle_command printed_angles)
qed

text \<open>
  Property C2: the state the firmware reports is the state of the lock. In every state the sketch can reach,
  the servos were only ever given angles from 0 to 180; when the bicycle is locked or stolen both gears
  were last driven to 180 degrees, and when it is released the lock gear was last driven to 0.
\<close>

theorem gears_match_state:
  assumes "fw_reach enc pos dist fb s"
  shows "list_all angle_ok (trace s) \<and>
     (state s \<noteq> DRIVE \<longrightarrow> servo_pos MainGear (trace s) = Some 180 \<and>
                          servo_pos LockGear (trace s) = Some 180) \<and>
     (state s = DRIVE \<longrightarrow> servo_pos LockGear (trace s) = Some 0)"
  using reach_gears [OF assms] by (simp add: gears_match_def split: if_splits)

definition fresh :: "nat firmware" where
  "fresh = parked\<lparr>state := 99\<rparr>"

lemma reach_fresh: "fw_reach enc pos dist fb (the (setup_sketch [6, 3] fresh))"
  by (rule after_setup [of fresh "[6, 3]"])
    (simp_all add: fresh_def parked_def setup_sketch_def connWifi_def Let_def)

lemma loop_idle_Some: "loop enc pos dist fb (idle_world ble j) s \<noteq> None"
  by (simp add: loop_def getGPSValue_def idle_world_def Let_def split: prod.splits)

lemma reach_idle:
  assumes "fw_reach enc pos dist fb s"
  shows "fw_reach enc pos dist fb (the (loop enc pos dist fb (idle_world ble j) s))"
proof -
  obtain s' where s': "loop enc pos dist fb (idle_world ble j) s = Some s'"
    using loop_idle_Some [of enc pos dist fb ble j s] unfolding not_None_eq ..
  show ?thesis using after_loop [OF assms s'] by (simp only: s' option.sel)
qed

definition locked_run :: "nat firmware" where
  "locked_run = the (loop (\<lambda>g _. (True, g + 1)) (\<lambda>_. (7, 8)) (\<lambda>_ _ _ _. 0) (\<lambda>_. (True, True))
     (idle_world (Some 1) 7) (the (setup_sketch [6, 3] fresh)))"

lemma reach_locked_run:
  "fw_reach (\<lambda>g _. (True, g + 1)) (\<lambda>_. (7, 8)) (\<lambda>_ _ _ _. 0) (\<lambda>_. (True, True)) locked_run"
  unfolding locked_run_def by (rule reach_idle) (rule reach_fresh)

theorem gears_match_state_witness: "list_all angle_ok (trace locked_run)"
  using gears_match_state [OF reach_locked_run] by simp

section \<open>What the cloud was told\<close>

definition cloud_state :: "effect list \<Rightarrow> int option" where
  "cloud_state es = fold cloud_step es None"

definition cloud_agrees :: "'g firmware \<Rightarrow> bool" where
  "cloud_agrees s \<longleftrightarrow>
     cloud_state (trace s) = Some (state s) \<or> (cloud_state (trace s) = None \<and> state s = DRIVE)"

lemma cloud_append: "cloud_state (xs @ ys) = fold cloud_step ys (cloud_state xs)"
  by (simp add: cloud_state_def)

lemma cloud_sweep [simp]:
  "fold cloud_step (sweep_up g p) st = st" "fold cloud_step (sweep_down g p) st = st"
proof (induction g p rule: sweep_up.induct)
  case (1 g p)
  { case 1 then show ?case using "1.IH" by (subst sweep_up.simps) simp }
  { case 2 show ?case
    proof (induction g p rule: sweep_down.induct)
      case (1 g p) then show ?case by (subst sweep_down.simps) simp
    qed }
qed

lemma cloud_wifi: "connWifi_loop sts = Some es \<Longrightarrow> fold cloud_step es st = st"
  by (induction sts arbitrary: es) (auto split: if_splits)

lemma cloud_printed: "list_all printed es \<Longrightarrow> fold cloud_step es st = st"
  by (induction es) (simp_all add: printed_quiet)

lemma cloud_update_state:
  assumes "\<And>k. fst (fb k)"
  shows "cloud_state (trace (updateFirebase fb STATE d s)) = Some d"
  using assms
  by (simp add: updateFirebase_def patch_def Let_def cloud_append field_defs split: prod.split)
    (metis fst_conv)

lemma cloud_update_gps [simp]:
  "cloud_state (trace (updateGPSFirebase fb u x s)) = cloud_state (trace s)"
  by (simp add: updateGPSFirebase_def patch_def Let_def cloud_append field_defs split: prod.split)

lemma cloud_handle_command:
  "(\<And>k. fst (fb k)) \<Longrightarrow> cloud_agrees s \<Longrightarrow> cloud_agrees (handle_command fb ble s)"
  by (cases ble) (auto simp: handle_command_def getCmdFromBLE_def Let_def cloud_agrees_def
      cloud_update_state cloud_append)

lemma cloud_track:
  assumes "\<And>k. fst (fb k)" "cloud_agrees s"
  shows "cloud_agrees (track fb dist j v s)"
  using assms(2) by (simp add: track_def Let_def cloud_agrees_def cloud_update_state assms(1))

lemma cloud_setup:
  assumes "setup_sketch sts s = Some s'" "trace s = []"
  shows "cloud_agrees s'"
  using assms setup_Some(1) [OF assms] cloud_wifi
  by (auto simp: setup_sketch_def Let_def connWifi_def cloud_agrees_def cloud_append cloud_state_def
      initValue_def setMotor_def setGPSPin_def setBLEPin_def setFirebase_def)

lemma reach_cloud:
  assumes "fw_reach enc pos dist fb s" "\<And>k. fst (fb k)"
  shows "cloud_agrees s"
  using assms(1)
proof (induction rule: fw_reach.induct)
  case (after_setup s sts s')
  then show ?case by (simp add: cloud_setup)
next
  case (after_loop s i s')
  have gps: "cloud_agrees (emit es (t\<lparr>gps := g\<rparr>)) = cloud_agrees t" if "list_all printed es"
    for es t and g :: 'a
    using cloud_printed [OF that] by (simp add: cloud_agrees_def cloud_append)
  show ?case
    using after_loop by (auto elim!: loop_cases intro!: cloud_track
        simp: gps cloud_handle_command assms(2))
qed



section \<open>The receive loop and the locals nobody sets\<close>

lemma receive_returns:
  "p \<in> set polls \<Longrightarrow> 1000 \<le> fst p - start \<Longrightarrow> receive enc start polls nd g \<noteq> None"
proof (induction polls arbitrary: nd g)
  case (Cons q polls)
  then have "now - start < 1000 \<Longrightarrow> p \<in> set polls" if "q = (now, c)" for now c
    using that by auto
  with Cons show ?case by (cases q) (simp add: Let_def split: prod.split option.split)
qed simp

text \<open>
  Property C25: a round always ends. Whatever characters arrive, the receive loop stops at the first poll whose clock
  reading is a second past the start, the wrap of the 32-bit millisecond clock included, and the
  round returns.
\<close>

theorem loop_returns:
  assumes "p \<in> set (in_polls i)" and "1000 \<le> fst p - in_start i"
  shows "\<exists>s'. loop enc pos dist fb i s = Some s'"
proof -
  have "receive enc (in_start i) (in_polls i) False g \<noteq> None" for g
    by (rule receive_returns [OF assms])
  then show ?thesis
    by (auto simp: loop_def getGPSValue_def Let_def split: option.split prod.split)
qed

theorem loop_returns_witness:
  "\<exists>s'. loop (\<lambda>g _. (True, g + 1)) (\<lambda>_. (7, 8)) (\<lambda>_ _ _ _. 0) (\<lambda>_. (True, True))
     ((idle_world None 7)\<lparr>in_start := 0xFFFFFF00, in_polls := [(800, None)]\<rparr>) parked = Some s'"
  by (rule loop_returns [of "(800, None)"]) (simp_all add: idle_world_def)

text \<open>
  The uninitialised \<open>distance\<close> is harmless: a round's outcome does not depend on what the
  variable held, because the only path that leaves it unset takes the branch anyway.
\<close>

theorem junk_distance_unused:
  "loop enc pos dist fb (i\<lparr>junk_distance := x\<rparr>) s = loop enc pos dist fb i s"
proof -
  have "track fb dist x = (track fb dist (junk_distance i) :: gps_value \<Rightarrow> 'a firmware \<Rightarrow> 'a firmware)"
    by (intro ext) (simp add: track_def)
  then show ?thesis by (simp add: loop_def)
qed

text \<open>
  Property C26: the uninitialised \<open>gpsValue\<close> is not harmless. When no sentence completes within the second, the
  round takes whatever the local held for the position; if that is four metres away or more from the last position, a locked
  bicycle that never moved is reported stolen and the garbage becomes its last position.
\<close>

theorem stale_gps_false_alarm:
  assumes "state s = LOCKED" and "in_ble i = None"
    and "receive enc (in_start i) (in_polls i) False (gps s) = Some (False, g, rest)"
    and "moved dist (junk_gps i) (preGpsValue s)"
  shows "\<exists>s'. loop enc pos dist fb i s = Some s' \<and> state s' = STEEL \<and>
     preGpsValue s' = (preGpsValue s)\<lparr>latitude := latitude (junk_gps i),
                                      longitude := longitude (junk_gps i)\<rparr>"
  using assms
  by (simp add: loop_def getGPSValue_def handle_command_def getCmdFromBLE_def track_def moved_def
      Let_def split: if_splits)

theorem stale_gps_false_alarm_witness:
  "\<exists>s'. loop (\<lambda>g _. (False, g + 1)) (\<lambda>_. (7, 8)) (\<lambda>a b c d. if a = c then 0 else 0x42C80000)
     (\<lambda>_. (True, True)) (idle_world None 7) parked = Some s' \<and> state s' = STEEL \<and>
     preGpsValue s' = (preGpsValue parked)\<lparr>latitude := 7, longitude := 7\<rparr>"
  using stale_gps_false_alarm [of parked "idle_world None 7" "\<lambda>g _. (False, g + 1)" 1 "[]"
      "\<lambda>a b c d. if a = c then 0 else 0x42C80000" "\<lambda>_. (7, 8)" "\<lambda>_. (True, True)"]
  by (simp add: parked_def idle_world_def moved_def f32_is_zero_def f32_ge_4_def)

end
