(* ===== verification/Firmware_One.thy ===== *)
theory Firmware_One
  imports Firmware
begin

text \<open>
  The older firmware in one file (\<^verbatim>\<open>src/embedded/Rock-YOU_nodeMCUone\<close>): the same hardware and the
  same cloud document, with other states and other conventions. Its \<open>loop()\<close> is empty: the functions
  below are what a later \<open>loop()\<close> was to call. The effects and the arguments that stand for the hardware
  are those of the library version; names that both versions have carry a 1 here.
\<close>

section \<open>State\<close>

definition SAFE1 :: int where "SAFE1 = 0"
definition STEEL1 :: int where "STEEL1 = 1"
definition DRIVE1 :: int where "DRIVE1 = 2"

record 'g sketch =
  sendDataPrevMillis :: u32
  signupOK :: bool
  lock :: bool
  conn_bluetooth :: bool
  state1 :: int
  content1 :: "(string \<times> json) list"
  gps1 :: 'g
  fb_calls1 :: nat
  trace1 :: "effect list"

definition emit1 :: "effect list \<Rightarrow> 'g sketch \<Rightarrow> 'g sketch" where
  "emit1 es s = s\<lparr>trace1 := trace1 s @ es\<rparr>"

definition initValue1 :: "'g sketch \<Rightarrow> 'g sketch" where
  "initValue1 s =
     s\<lparr>sendDataPrevMillis := 0, signupOK := False, lock := False, conn_bluetooth := False,
       state1 := SAFE1\<rparr>"

section \<open>Bluetooth\<close>

text \<open>\<open>ble\<close> is the byte \<open>read\<close> returns when one is available; a \<open>bool\<close> keeps only whether it is zero.\<close>

definition bool_byte :: "bool \<Rightarrow> u8" where
  "bool_byte b = (if b then 1 else 0)"

definition getCmdFromBLE1 :: "u8 option \<Rightarrow> 'g sketch \<Rightarrow> 'g sketch" where
  "getCmdFromBLE1 ble s =
     (case ble of
        None \<Rightarrow> s
      | Some c \<Rightarrow> (let s = s\<lparr>lock := (c \<noteq> 0)\<rparr> in emit1 [Serial_Write (bool_byte (lock s))] s))"

definition sendCmdToBLE1 :: "bool \<Rightarrow> 'g sketch \<Rightarrow> 'g sketch" where
  "sendCmdToBLE1 l = emit1 [Ble_Write (bool_byte l)]"

section \<open>Firebase\<close>

definition patch1 :: "(nat \<Rightarrow> bool \<times> bool) \<Rightarrow> string \<Rightarrow> 'g sketch \<Rightarrow> 'g sketch" where
  "patch1 fb updateMask s =
     (let (ready, accepted) = fb (fb_calls1 s); s = s\<lparr>fb_calls1 := fb_calls1 s + 1\<rparr>
      in if ready
         then emit1 [Patch document_path (content1 s) updateMask,
                     if accepted then Patch_Ok else Patch_Error] s
         else s)"

definition updateFirebase1 :: "(nat \<Rightarrow> bool \<times> bool) \<Rightarrow> int \<Rightarrow> int \<Rightarrow> 'g sketch \<Rightarrow> 'g sketch" where
  "updateFirebase1 fb val data s =
     (let (jsonPath, updateMask) =
            (if val = LOCK then (''fields/lock/integerValue'', ''lock'')
             else if val = STATE then (''fields/state/integerValue'', ''state'')
             else ('''', ''''));
          s = s\<lparr>content1 := []\<rparr>;
          s = s\<lparr>content1 := content1 s @ [(jsonPath, JInt data)]\<rparr>
      in patch1 fb updateMask s)"

definition updateGPSFirebase1 :: "(nat \<Rightarrow> bool \<times> bool) \<Rightarrow> int \<Rightarrow> f32 \<Rightarrow> 'g sketch \<Rightarrow> 'g sketch" where
  "updateGPSFirebase1 fb val data s =
     (let (jsonPath, updateMask) =
            (if val = LONGITUDE then (''fields/GPS/geoPointValue/longitude'', ''GPS'')
             else if val = LATITUDE then (''fields/GPS/geoPointValue/latitude'', ''GPS'')
             else ('''', ''''));
          s = s\<lparr>content1 := content1 s @ [(jsonPath, JFloat data)]\<rparr>
      in patch1 fb updateMask s)"

definition setFirebase1 :: "'g sketch \<Rightarrow> 'g sketch" where
  "setFirebase1 = emit1 [Response_Size 2048, Firebase_Begin, Reconnect_WiFi True]"

section \<open>GPS\<close>

text \<open>The polling loop is the library version's: its flag is only ever set.\<close>

fun receive1 ::
  "('g \<Rightarrow> u8 \<Rightarrow> bool \<times> 'g) \<Rightarrow> u32 \<Rightarrow> (u32 \<times> u8 option) list \<Rightarrow> bool \<Rightarrow> 'g \<Rightarrow> (bool \<times> 'g) option" where
  "receive1 enc start [] newData g = None"
| "receive1 enc start ((now, c) # polls) newData g =
     (if now - start < 1000
      then (case c of
              None \<Rightarrow> receive1 enc start polls newData g
            | Some b \<Rightarrow> (let (done, g') = enc g b
                         in receive1 enc start polls (if done then True else newData) g'))
      else Some (newData, g))"

definition getGPSValue1 ::
  "('g \<Rightarrow> u8 \<Rightarrow> bool \<times> 'g) \<Rightarrow> ('g \<Rightarrow> f32 \<times> f32) \<Rightarrow> (nat \<Rightarrow> bool \<times> bool) \<Rightarrow> u32 \<Rightarrow>
     (u32 \<times> u8 option) list \<Rightarrow> 'g sketch \<Rightarrow> 'g sketch option" where
  "getGPSValue1 enc pos fb start polls s =
     (case receive1 enc start polls False (gps1 s) of
        None \<Rightarrow> None
      | Some (newData, g) \<Rightarrow>
          (let s = s\<lparr>gps1 := g\<rparr>
           in Some (if newData
                    then (let (flat, flon) = pos g; s = emit1 (print_position flat flon) s;
                              s = updateGPSFirebase1 fb LONGITUDE flon s
                          in updateGPSFirebase1 fb LATITUDE flat s)
                    else s)))"

section \<open>Motors\<close>

function down1 :: "gear \<Rightarrow> int \<Rightarrow> effect list" where
  "down1 g pos = (if 0 \<le> pos then Servo g pos # Delay 20 # down1 g (pos - 1) else [])"
  by auto
termination by (relation "measure (\<lambda>(g, pos). nat (pos + 1))") auto

function up1 :: "gear \<Rightarrow> int \<Rightarrow> effect list" where
  "up1 g pos = (if pos \<le> 270 then Servo g pos # Delay 20 # up1 g (pos + 1) else [])"
  by auto
termination by (relation "measure (\<lambda>(g, pos). nat (271 - pos))") auto

declare down1.simps [simp del] up1.simps [simp del]

definition open1 :: "(nat \<Rightarrow> bool \<times> bool) \<Rightarrow> 'g sketch \<Rightarrow> 'g sketch" where
  "open1 fb s =
     (let s = emit1 (down1 LockGear 180) s; s = emit1 (down1 MainGear 180) s; s = s\<lparr>lock := True\<rparr>;
          s = sendCmdToBLE1 (lock s) s
      in updateFirebase1 fb LOCK 0 s)"

definition close1 :: "(nat \<Rightarrow> bool \<times> bool) \<Rightarrow> 'g sketch \<Rightarrow> 'g sketch" where
  "close1 fb s =
     (let s = emit1 (up1 MainGear 0) s; s = emit1 (up1 LockGear 0) s; s = s\<lparr>lock := False\<rparr>;
          s = sendCmdToBLE1 (lock s) s
      in updateFirebase1 fb LOCK 1 s)"

section \<open>Setup and loop\<close>

definition connWifi1 :: "int list \<Rightarrow> 'g sketch \<Rightarrow> 'g sketch option" where
  "connWifi1 sts s =
     map_option (\<lambda>es. emit1 ([Wifi_Begin, Serial_Print ''Connecting to Wi-Fi''] @ es @
         [Serial_Println, Serial_Print ''Connected with IP: '', Serial_Local_IP, Serial_Println]) s)
       (connWifi_loop sts)"

definition setup1 :: "int list \<Rightarrow> 'g sketch \<Rightarrow> 'g sketch option" where
  "setup1 sts s =
     (let s = initValue1 s;
          s = emit1 [Attach MainGear, Attach LockGear, Pin_Mode 35 False, Pin_Mode 32 False,
                     Pin_Mode 33 True, Serial_Begin 115200, Gps_Begin 9600, Ble_Begin 9600] s
      in map_option setFirebase1 (connWifi1 sts s))"

definition loop1 :: "'g sketch \<Rightarrow> 'g sketch" where
  "loop1 s = s"
section \<open>What a trace says to whom\<close>

text \<open>The angles a gear is driven to, the bytes the owner's phone gets, and the numbers the document gets.\<close>

fun driven :: "gear \<Rightarrow> effect list \<Rightarrow> int list" where
  "driven g [] = []"
| "driven g (Servo h p # es) = (if h = g then p # driven g es else driven g es)"
| "driven g (e # es) = driven g es"

fun told_ble :: "effect list \<Rightarrow> u8 list" where
  "told_ble [] = []"
| "told_ble (Ble_Write b # es) = b # told_ble es"
| "told_ble (e # es) = told_ble es"

fun told_cloud :: "effect list \<Rightarrow> json list" where
  "told_cloud [] = []"
| "told_cloud (Patch p js m # es) = snd (last js) # told_cloud es"
| "told_cloud (e # es) = told_cloud es"

lemma told_append [simp]:
  "driven g (es @ fs) = driven g es @ driven g fs"
  "told_ble (es @ fs) = told_ble es @ told_ble fs"
  "told_cloud (es @ fs) = told_cloud es @ told_cloud fs"
proof -
  show "driven g (es @ fs) = driven g es @ driven g fs" by (induction es rule: driven.induct) simp_all
  show "told_ble (es @ fs) = told_ble es @ told_ble fs" by (induction es rule: told_ble.induct) simp_all
  show "told_cloud (es @ fs) = told_cloud es @ told_cloud fs"
    by (induction es rule: told_cloud.induct) simp_all
qed

lemma told_up1 [simp]: "told_ble (up1 g p) = []" "told_cloud (up1 g p) = []"
  by (induction g p rule: up1.induct; subst up1.simps; simp)+

lemma told_down1 [simp]: "told_ble (down1 g p) = []" "told_cloud (down1 g p) = []"
  by (induction g p rule: down1.induct; subst down1.simps; simp)+

lemma told_sweep [simp]: "told_ble (sweep_up g p) = []" "told_cloud (sweep_up g p) = []"
    "told_ble (sweep_down g p) = []" "told_cloud (sweep_down g p) = []"
  by (induction g p rule: sweep_up.induct; subst sweep_up.simps; simp)+
    (induction g p rule: sweep_down.induct; subst sweep_down.simps; simp)+

lemma driven_up1: "driven h (up1 g p) = (if h = g then [p..270] else [])"
proof (induction g p rule: up1.induct)
  case (1 g p)
  then show ?case
    by (cases "p \<le> 270") (auto simp: up1.simps [of g p] upto_rec1 simp del: upto_rec_numeral)
qed

lemma driven_down1: "driven h (down1 g p) = (if h = g then rev [0..p] else [])"
proof (induction g p rule: down1.induct)
  case (1 g p)
  then show ?case
    by (cases "0 \<le> p") (auto simp: down1.simps [of g p] upto_rec2 simp del: upto_rec_numeral)
qed

lemma emit1_fields [simp]:
  "trace1 (emit1 es s) = trace1 s @ es" "content1 (emit1 es s) = content1 s"
  "gps1 (emit1 es s) = gps1 s" "fb_calls1 (emit1 es s) = fb_calls1 s" "lock (emit1 es s) = lock s"
  by (simp_all add: emit1_def)

lemma patch1_told:
  "driven g (trace1 (patch1 fb m s)) = driven g (trace1 s)"
  "told_ble (trace1 (patch1 fb m s)) = told_ble (trace1 s)"
  "fst (fb (fb_calls1 s)) \<Longrightarrow>
     told_cloud (trace1 (patch1 fb m s)) = told_cloud (trace1 s) @ [snd (last (content1 s))]"
  by (auto simp: patch1_def Let_def split: prod.splits)

lemma patch_told:
  "told_ble (trace (patch fb m s)) = told_ble (trace s)"
  "fst (fb (fb_calls s)) \<Longrightarrow>
     told_cloud (trace (patch fb m s)) = told_cloud (trace s) @ [snd (last (content s))]"
  by (auto simp: patch_def Let_def split: prod.splits)

text \<open>
  Property C40: the older firmware overdrives its gears. Opening drives each gear down through 180 to 0 degrees, one degree at
  a time, but closing drives each of them up to 270 degrees, half as far again as the servos turn.
\<close>

theorem close_overdrives:
  "driven g (trace1 (open1 fb s)) = driven g (trace1 s) @ rev [0..180] \<and>
   driven g (trace1 (close1 fb s)) = driven g (trace1 s) @ [0..270]"
  by (cases g) (simp_all add: open1_def close1_def Let_def sendCmdToBLE1_def updateFirebase1_def
      patch1_told driven_up1 driven_down1 del: upto_rec_numeral)

text \<open>
  Property C38: the two firmwares speak opposite protocols on the bluetooth line. With Firebase ready, both tell the
  document 1 for a closed lock and 0 for an open one; the library version tells the phone the same number, the older
  one its complement.
\<close>

theorem protocols_opposite:
  assumes "fst (fb (fb_calls s))" and "fst (fb (fb_calls1 t))" and "c = OPEN \<or> c = CLOSE"
  shows "told_cloud (trace (handle_command fb (Some c) s)) = told_cloud (trace s) @ [JInt c] \<and>
     told_cloud (trace1 (if c = CLOSE then close1 fb t else open1 fb t)) =
       told_cloud (trace1 t) @ [JInt c] \<and>
     told_ble (trace (handle_command fb (Some c) s)) = told_ble (trace s) @ [word_of_int c] \<and>
     told_ble (trace1 (if c = CLOSE then close1 fb t else open1 fb t)) =
       told_ble (trace1 t) @ [1 - word_of_int c]"
  using assms
  by (auto simp: handle_command_def getCmdFromBLE_def Let_def enum_defs lockBicycle_def
      unlockBicycle_def sendCmdToBLE_def updateFirebase_def patch_told open1_def close1_def
      sendCmdToBLE1_def updateFirebase1_def patch1_told bool_byte_def)

definition sketch0 :: "nat sketch" where
  "sketch0 = \<lparr>sendDataPrevMillis = 7, signupOK = True, lock = True, conn_bluetooth = True, state1 = 5,
     content1 = [], gps1 = 0, fb_calls1 = 0, trace1 = []\<rparr>"

theorem protocols_opposite_witness:
  "told_ble (trace (handle_command (\<lambda>_. (True, True)) (Some 1) parked)) = [1] \<and>
   told_ble (trace1 (close1 (\<lambda>_. (True, True)) sketch0)) = [0]"
  using protocols_opposite [of "\<lambda>_. (True, True)" parked sketch0 1]
  by (simp add: parked_def sketch0_def enum_defs)

text \<open>The older receive loop is the library version's.\<close>

lemma receive1_receive:
  "receive1 enc start polls nd g = map_option (\<lambda>(nd, g, _). (nd, g)) (receive enc start polls nd g)"
proof (induction polls arbitrary: nd g)
  case (Cons q polls)
  then show ?case by (cases q) (simp split: option.split prod.split)
qed simp

text \<open>
  Property C39: the older firmware never uploads a position it does not have. From the same receiver and the same second of the
  GPS line, its \<open>getGPSValue\<close> returns when the library version's does and leaves the receiver in the same
  state; it uploads the longitude and the latitude the library version returns when a sentence was
  completed, and nothing when the library version returns its uninitialised local.
\<close>

theorem gps_upload_guarded:
  assumes "gps s = gps1 t" and "\<And>k. fst (fb k)"
  shows "case getGPSValue enc pos start polls junk s of
       None \<Rightarrow> getGPSValue1 enc pos fb start polls t = None
     | Some (v, s') \<Rightarrow> (\<exists>t'. getGPSValue1 enc pos fb start polls t = Some t' \<and> gps1 t' = gps s' \<and>
         (told_cloud (trace1 t') =
            told_cloud (trace1 t) @ [JFloat (longitude v), JFloat (latitude v)] \<or>
          told_cloud (trace1 t') = told_cloud (trace1 t) \<and> v = junk))"
proof -
  have "told_cloud (print_position x y) = []" for x y by (simp add: print_position_def)
  moreover have "gps1 (patch1 fb m u) = gps1 u" for m and u :: "'a sketch"
    by (simp add: patch1_def Let_def split: prod.split)
  ultimately show ?thesis
    using assms by (auto simp: getGPSValue_def getGPSValue1_def receive1_receive Let_def
        updateGPSFirebase1_def patch1_told split: option.split prod.split)
qed

theorem gps_upload_guarded_witness:
  "\<exists>t'. getGPSValue1 (\<lambda>g _. (True, g + 1)) (\<lambda>_. (7, 8)) (\<lambda>_. (True, True)) 0 [(5, Some 36), (1000, None)]
        sketch0 = Some t' \<and> told_cloud (trace1 t') = [JFloat 8, JFloat 7]"
  using gps_upload_guarded [of parked sketch0 "\<lambda>_. (True, True)" "\<lambda>g _. (True, g + 1)" "\<lambda>_. (7, 8)" 0
      "[(5, Some 36), (1000, None)]" "\<lparr>latitude = 1, longitude = 2\<rparr>"]
  by (auto simp: parked_def sketch0_def getGPSValue_def emit_def print_position_def)

end
