(* ===== verification/Pb_Stream.thy ===== *)
theory Pb_Stream
  imports Rock_Prelude
begin

text \<open>
  nanopb's streams (\<^verbatim>\<open>src/app/Pods/nanopb\<close>: the stream parts of \<^verbatim>\<open>pb_encode.c\<close> and
  \<^verbatim>\<open>pb_decode.c\<close>), in the configuration the pod is built with: 64-bit \<^verbatim>\<open>size_t\<close>, 32-bit field
  descriptors, error messages and callbacks on. A function that returns \<open>false\<close> returns \<open>None\<close> or
  \<open>False\<close> here, together with the stream it leaves behind. \<open>uint_fast8_t\<close> has eight bits.
\<close>

section \<open>Output streams\<close>

text \<open>
  A stream writes through its callback, whose state is \<open>ostate\<close>; a stream without a callback only
  counts.
\<close>

record 's ostream =
  ocallback :: "('s \<Rightarrow> u8 list \<Rightarrow> bool \<times> 's) option"
  ostate :: 's
  max_size :: u64
  bytes_written :: u64
  o_errmsg :: "string option"

type_synonym 's writer = "'s ostream \<Rightarrow> bool \<times> 's ostream"

definition ofail :: "string \<Rightarrow> 's writer" where
  "ofail msg s =
     (False, s\<lparr>o_errmsg := (case o_errmsg s of None \<Rightarrow> Some msg | Some m \<Rightarrow> Some m)\<rparr>)"

text \<open>\<open>if (!f(stream)) return false;\<close> followed by \<open>g\<close>.\<close>

definition oseq :: "'s writer \<Rightarrow> 's writer \<Rightarrow> 's writer" where
  "oseq f g s = (let (ok, s') = f s in if ok then g s' else (False, s'))"

definition pb_write :: "u8 list \<Rightarrow> u64 \<Rightarrow> 's writer" where
  "pb_write buf count s =
     (let done = (\<lambda>s. (True, s\<lparr>bytes_written := bytes_written s + count\<rparr>))
      in case (if 0 < count then ocallback s else None) of
           None \<Rightarrow> done s
         | Some cb \<Rightarrow>
             if bytes_written s + count < bytes_written s \<or> max_size s < bytes_written s + count
             then ofail ''stream full'' s
             else (let (ok, st) = cb (ostate s) (take (unat count) buf); s = s\<lparr>ostate := st\<rparr>
                   in if ok then done s else ofail ''io error'' s))"

text \<open>A buffer in memory: its bytes and the position the next byte goes to.\<close>

definition buf_write :: "u8 list \<times> nat \<Rightarrow> u8 list \<Rightarrow> bool \<times> (u8 list \<times> nat)" where
  "buf_write mem bs =
     (True, (take (snd mem) (fst mem) @ bs @ drop (snd mem + length bs) (fst mem),
             snd mem + length bs))"

definition pb_ostream_from_buffer :: "u8 list \<Rightarrow> u64 \<Rightarrow> (u8 list \<times> nat) ostream" where
  "pb_ostream_from_buffer buf bufsize =
     \<lparr>ocallback = Some buf_write, ostate = (buf, 0), max_size = bufsize, bytes_written = 0,
      o_errmsg = None\<rparr>"

text \<open>\<^verbatim>\<open>PB_OSTREAM_SIZING\<close>; its state is never looked at.\<close>

definition sizing_stream :: "'s \<Rightarrow> 's ostream" where
  "sizing_stream st =
     \<lparr>ocallback = None, ostate = st, max_size = 0, bytes_written = 0, o_errmsg = None\<rparr>"

section \<open>Input streams\<close>

text \<open>
  Either a buffer, given by its bytes from the read position on, or a user's callback with its
  state. The callback is asked for a number of bytes and may fail.
\<close>

datatype 's source =
    Buffer "u8 list"
  | Custom "'s \<Rightarrow> nat \<Rightarrow> u8 list option \<times> 's" 's

record 's istream =
  source :: "'s source"
  bytes_left :: u64
  i_errmsg :: "string option"

type_synonym ('s, 'a) reader = "'s istream \<Rightarrow> 'a option \<times> 's istream"

definition ifail :: "string \<Rightarrow> ('s, 'a) reader" where
  "ifail msg s =
     (None, s\<lparr>i_errmsg := (case i_errmsg s of None \<Rightarrow> Some msg | Some m \<Rightarrow> Some m)\<rparr>)"

definition rbind :: "('s, 'a) reader \<Rightarrow> ('a \<Rightarrow> ('s, 'b) reader) \<Rightarrow> ('s, 'b) reader" where
  "rbind f g s = (case f s of (None, s') \<Rightarrow> (None, s') | (Some a, s') \<Rightarrow> g a s')"

definition ret :: "'a \<Rightarrow> ('s, 'a) reader" where
  "ret a s = (Some a, s)"

fun is_buffer :: "'s source \<Rightarrow> bool" where
  "is_buffer (Buffer bs) = True"
| "is_buffer (Custom f st) = False"

fun buf_read :: "nat \<Rightarrow> 's source \<Rightarrow> u8 list option \<times> 's source" where
  "buf_read n (Buffer bs) = (Some (take n bs), Buffer (drop n bs))"
| "buf_read n (Custom f st) = (let (r, st') = f st n in (r, Custom f st'))"

text \<open>\<open>pb_read\<close> past the \<open>NULL\<close> case; the result are the bytes read.\<close>

definition pb_read_into :: "u64 \<Rightarrow> ('s, u8 list) reader" where
  "pb_read_into count s =
     (if count = 0 then (Some [], s)
      else if bytes_left s < count then ifail ''end-of-stream'' s
      else (case buf_read (unat count) (source s) of
              (None, src) \<Rightarrow> ifail ''io error'' (s\<lparr>source := src\<rparr>)
            | (Some bs, src) \<Rightarrow>
                (Some bs, s\<lparr>source := src, bytes_left := bytes_left s - count\<rparr>)))"

text \<open>Skipping \<open>count\<close> bytes of a callback stream, sixteen at a time.\<close>

function skip_input :: "u64 \<Rightarrow> ('s, unit) reader" where
  "skip_input count s =
     (if 16 < count
      then (case pb_read_into 16 s of (None, s') \<Rightarrow> (None, s') | (Some _, s') \<Rightarrow> skip_input (count - 16) s')
      else (case pb_read_into count s of (None, s') \<Rightarrow> (None, s') | (Some _, s') \<Rightarrow> (Some (), s')))"
  by auto
termination
  by (relation "measure (\<lambda>(count, s). unat count)")
    (simp_all add: unat_sub word_less_nat_alt word_le_nat_alt)

declare skip_input.simps [simp del]

definition pb_read_null :: "u64 \<Rightarrow> ('s, unit) reader" where
  "pb_read_null count s =
     (if count = 0 then (Some (), s)
      else if \<not> is_buffer (source s) then skip_input count s
      else rbind (pb_read_into count) (\<lambda>_. ret ()) s)"

definition byte_at :: "u8 list \<Rightarrow> nat \<Rightarrow> u8" where
  "byte_at bs i = (if i < length bs then bs ! i else 0)"

definition pb_readbyte :: "('s, u8) reader" where
  "pb_readbyte s =
     (if bytes_left s = 0 then ifail ''end-of-stream'' s
      else (case buf_read 1 (source s) of
              (None, src) \<Rightarrow> ifail ''io error'' (s\<lparr>source := src\<rparr>)
            | (Some bs, src) \<Rightarrow>
                (Some (byte_at bs 0), s\<lparr>source := src, bytes_left := bytes_left s - 1\<rparr>)))"

definition pb_istream_from_buffer :: "u8 list \<Rightarrow> u64 \<Rightarrow> 's istream" where
  "pb_istream_from_buffer buf bufsize =
     \<lparr>source = Buffer buf, bytes_left = bufsize, i_errmsg = None\<rparr>"

lemma byte_at_simps [simp]: "byte_at (b # bs) 0 = b" "byte_at (b # bs) (Suc i) = byte_at bs i"
  by (simp_all add: byte_at_def)

lemma pred_word_less: "(x :: 'a :: len word) \<noteq> 0 \<Longrightarrow> unat (x - 1) < unat x"
  by (metis unat_minus_one unat_gt_0 diff_less zero_less_one unat_eq_zero gr_zeroI)

lemma ifail_fields [simp]:
  "fst (ifail m s) = None" "bytes_left (snd (ifail m s)) = bytes_left s"
  "source (snd (ifail m s)) = source s"
  by (simp_all add: ifail_def)

lemma readbyte_decreases:
  "pb_readbyte s = (Some b, s') \<Longrightarrow> unat (bytes_left s') < unat (bytes_left s)"
  by (auto simp: pb_readbyte_def pred_word_less ifail_def split: if_splits prod.splits option.splits)

section \<open>Reading from a buffer\<close>

text \<open>Where the stream is after \<open>n\<close> bytes of its buffer.\<close>

definition advance :: "nat \<Rightarrow> u8 list \<Rightarrow> 's istream \<Rightarrow> 's istream" where
  "advance n rest s = s\<lparr>source := Buffer rest, bytes_left := bytes_left s - of_nat n\<rparr>"

lemma advance_fields [simp]:
  "source (advance n rest s) = Buffer rest"
  "bytes_left (advance n rest s) = bytes_left s - of_nat n"
  "i_errmsg (advance n rest s) = i_errmsg s"
  by (simp_all add: advance_def)

lemma advance_advance [simp]: "advance m r' (advance n r s) = advance (n + m) r' s"
  by (simp add: advance_def)

lemma advance_0: "source s = Buffer bs \<Longrightarrow> advance 0 bs s = s"
  by (simp add: advance_def)

lemma unat_advance [simp]:
  "n \<le> unat (bytes_left s) \<Longrightarrow> unat (bytes_left s - of_nat n) = unat (bytes_left s) - n"
proof -
  assume n: "n \<le> unat (bytes_left s)"
  then have u: "unat (of_nat n :: u64) = n"
    using unat_u64_lt [of "bytes_left s"] by (intro unat_u64_of_nat) simp
  with n have "of_nat n \<le> bytes_left s" by (simp only: word_le_nat_alt)
  then show ?thesis by (simp only: unat_sub u)
qed

lemma readbyte_Cons:
  assumes "source s = Buffer (b # bs)" "0 < unat (bytes_left s)"
  shows "pb_readbyte s = (Some b, advance 1 bs s)"
  using assms by (auto simp: pb_readbyte_def advance_def)

lemma read_into_append:
  assumes "source s = Buffer (xs @ rest)" "length xs \<le> unat (bytes_left s)" "length xs = unat count"
  shows "pb_read_into count s = (Some xs, advance (length xs) rest s)"
proof -
  have c: "count = of_nat (length xs)" using assms(3) by simp
  have "count \<le> bytes_left s" using assms(2,3) by (simp add: word_le_nat_alt)
  then show ?thesis
    using assms unfolding c by (auto simp: pb_read_into_def advance_def)
qed

lemma read_null_append:
  assumes "source s = Buffer (xs @ rest)" "length xs \<le> unat (bytes_left s)" "length xs = unat count"
  shows "pb_read_null count s = (Some (), advance (length xs) rest s)"
  using read_into_append [OF assms] assms
  by (auto simp: pb_read_null_def rbind_def ret_def advance_0 unat_eq_0)

section \<open>A contract for sinks\<close>

text \<open>
  What the encoders rely on: a callback that accepts every block of bytes and appends it to what it
  has written. \<open>out\<close> reads the bytes written so far off the callback's state.
\<close>

locale byte_sink =
  fixes cb :: "'s \<Rightarrow> u8 list \<Rightarrow> bool \<times> 's" and out :: "'s \<Rightarrow> u8 list" and inv :: "'s \<Rightarrow> nat \<Rightarrow> bool"
  assumes accepts: "inv st (length bs + n) \<Longrightarrow> fst (cb st bs)"
    and appends: "inv st (length bs + n) \<Longrightarrow> out (snd (cb st bs)) = out st @ bs"
    and keeps: "inv st (length bs + n) \<Longrightarrow> inv (snd (cb st bs)) n"
    and weaker: "inv st m \<Longrightarrow> n \<le> m \<Longrightarrow> inv st n"

definition buf_out :: "u8 list \<times> nat \<Rightarrow> u8 list" where
  "buf_out mem = take (snd mem) (fst mem)"

definition buf_room :: "u8 list \<times> nat \<Rightarrow> nat \<Rightarrow> bool" where
  "buf_room mem n \<longleftrightarrow> snd mem + n \<le> length (fst mem)"

interpretation buffer: byte_sink buf_write buf_out buf_room
  by unfold_locales (auto simp: buf_write_def buf_out_def buf_room_def)

text \<open>
  The relation between a stream before and after \<open>bs\<close> has been written to it, and what a writing
  stream needs for that.
\<close>

definition room :: "'s ostream \<Rightarrow> nat \<Rightarrow> bool" where
  "room s n \<longleftrightarrow> unat (bytes_written s) + n \<le> unat (max_size s)"

definition counted :: "nat \<Rightarrow> 's ostream \<Rightarrow> 's ostream" where
  "counted n z = z\<lparr>bytes_written := bytes_written z + of_nat n\<rparr>"

lemma counted_fields [simp]:
  "ocallback (counted n z) = ocallback z" "max_size (counted n z) = max_size z"
  "bytes_written (counted n z) = bytes_written z + of_nat n" "ostate (counted n z) = ostate z"
  by (simp_all add: counted_def)

lemma counted_counted: "counted m (counted n z) = counted (n + m) z"
  by (simp add: counted_def add.assoc)

context byte_sink
begin

definition appended :: "u8 list \<Rightarrow> 's ostream \<Rightarrow> 's ostream \<Rightarrow> bool" where
  "appended bs s s' \<longleftrightarrow>
     ocallback s' = ocallback s \<and> max_size s' = max_size s \<and>
     unat (bytes_written s') = unat (bytes_written s) + length bs \<and>
     out (ostate s') = out (ostate s) @ bs \<and>
     (\<forall>n. inv (ostate s) (length bs + n) \<longrightarrow> inv (ostate s') n)"

lemma appended_Nil: "appended [] s s"
  by (simp add: appended_def)

lemma appended_trans: "appended xs s t \<Longrightarrow> appended ys t u \<Longrightarrow> appended (xs @ ys) s u"
  by (simp add: appended_def add.assoc)

text \<open>A writer emits \<open>w\<close> when a sizing stream counts its length and a writing stream appends it.\<close>

definition emits :: "'s writer \<Rightarrow> u8 list \<Rightarrow> bool" where
  "emits f w \<longleftrightarrow>
     (\<forall>z. ocallback z = None \<longrightarrow> f z = (True, counted (length w) z)) \<and>
     (\<forall>s. ocallback s = Some cb \<and> room s (length w) \<and> inv (ostate s) (length w) \<longrightarrow>
        fst (f s) \<and> appended w s (snd (f s)))"

lemma emits_seq:
  assumes "emits f v" "emits g w"
  shows "emits (oseq f g) (v @ w)"
  unfolding emits_def
proof (intro conjI allI impI)
  fix z :: "'s ostream" assume "ocallback z = None"
  then show "oseq f g z = (True, counted (length (v @ w)) z)"
    using assms unfolding emits_def by (simp add: oseq_def counted_counted)
next
  fix s :: "'s ostream"
  assume s: "ocallback s = Some cb \<and> room s (length (v @ w)) \<and> inv (ostate s) (length (v @ w))"
  then have "room s (length v)" "inv (ostate s) (length v)"
    by (auto simp: room_def intro: weaker)
  with s assms(1) have f: "fst (f s)" "appended v s (snd (f s))"
    unfolding emits_def by simp_all
  from f(2) s have "ocallback (snd (f s)) = Some cb \<and> room (snd (f s)) (length w) \<and>
      inv (ostate (snd (f s))) (length w)"
    unfolding appended_def room_def by auto
  with assms(2) have g: "fst (g (snd (f s)))" "appended w (snd (f s)) (snd (g (snd (f s))))"
    unfolding emits_def by simp_all
  then show "fst (oseq f g s)" "appended (v @ w) s (snd (oseq f g s))"
    using f appended_trans by (auto simp: oseq_def Let_def case_prod_beta)
qed

lemma emits_Nil: "emits (\<lambda>s. (True, s)) []"
  by (simp add: emits_def appended_Nil counted_def)

lemma emits_write:
  assumes "length bs = unat count"
  shows "emits (pb_write bs count) bs"
  unfolding emits_def
proof (intro conjI allI impI)
  fix z :: "'s ostream" assume "ocallback z = None"
  then show "pb_write bs count z = (True, counted (length bs) z)"
    using assms by (simp add: pb_write_def counted_def)
next
  fix s :: "'s ostream"
  assume s: "ocallback s = Some cb \<and> room s (length bs) \<and> inv (ostate s) (length bs)"
  have "unat (bytes_written s) + unat count < 2 ^ 64"
    using s assms unat_u64_lt [of "max_size s"] by (simp add: room_def)
  then have w: "unat (bytes_written s + count) = unat (bytes_written s) + unat count"
    by (subst unat_add_lem [THEN iffD1]) simp_all
  have ok: "fst (cb (ostate s) bs)" "out (snd (cb (ostate s) bs)) = out (ostate s) @ bs"
    using s accepts [of "ostate s" bs 0] appends [of "ostate s" bs 0] by simp_all
  show "fst (pb_write bs count s)" "appended bs s (snd (pb_write bs count s))"
    using s w ok assms keeps
    by (auto simp: pb_write_def Let_def case_prod_beta room_def word_less_nat_alt appended_def
        split: if_splits)
qed

end

end
