(* ===== verification/Word_Bytes.thy ===== *)
theory Word_Bytes
  imports Rock_Prelude
begin

text \<open>
  How a machine word is made of bytes: its eight-bit slices and its varint, the format that nanopb and
  LevelDB share. \<open>varint_bytes\<close> is the reference both encoders are compared with.
\<close>

section \<open>Bits of a varint\<close>

lemma and_7F: "x AND 0x7F = take_bit 7 (x :: 'a::len word)"
proof -
  have "(0x7F :: 'a word) = mask 7" by (simp add: mask_eq_exp_minus_1)
  then show ?thesis by (simp add: take_bit_eq_mask)
qed

lemma and_80: "b AND 0x80 = 0 \<longleftrightarrow> \<not> bit (b :: u8) 7"
proof -
  have "(0x80 :: u8) = 2 ^ 7" by simp
  then show ?thesis by (simp only: and_exp_eq_0_iff_not_bit)
qed

lemma bit_0x80: "bit (0x80 :: 'a::len word) n \<longleftrightarrow> n = 7 \<and> 7 < LENGTH('a)"
proof -
  have "(0x80 :: 'a word) = 2 ^ 7" by simp
  then show ?thesis by (simp only: bit_exp_iff possible_bit_word) auto
qed

lemma bit_0x80_int: "bit (0x80 :: int) n \<longleftrightarrow> n = 7"
proof -
  have "(0x80 :: int) = 2 ^ 7" by simp
  then show ?thesis by (simp only: bit_exp_iff) auto
qed

lemma cont_byte:
  fixes v :: u64
  defines "b \<equiv> ucast ((v AND 0x7F) OR 0x80) :: u8"
  shows "b AND 0x80 \<noteq> 0" "ucast (b AND 0x7F) = take_bit 7 v"
    "(ucast (b AND 0x7F) :: u32) = take_bit 7 (ucast v)"
proof -
  show "b AND 0x80 \<noteq> 0" unfolding and_80 b_def by (simp add: bit_simps bit_0x80)
  show "ucast (b AND 0x7F) = take_bit 7 v" unfolding and_7F b_def
    by (rule bit_word_eqI) (auto simp: bit_simps bit_0x80_int)
  show "(ucast (b AND 0x7F) :: u32) = take_bit 7 (ucast v)" unfolding and_7F b_def
    by (rule bit_word_eqI) (auto simp: bit_simps bit_0x80_int)
qed

lemma take_bit_small: "unat v < 2 ^ n \<Longrightarrow> take_bit n (v :: 'a::len word) = v"
  by (metis unsigned_take_bit_eq take_bit_nat_eq_self word_unat_eq_iff)

lemma last_byte_bits:
  fixes v :: u64
  defines "w \<equiv> take_bit 7 v"
  shows "\<not> bit (ucast w :: u8) 7" "ucast (take_bit 7 (ucast w :: u8)) = w"
    "(ucast (take_bit 7 (ucast w :: u8)) :: u32) = ucast w"
    "take_bit 7 (ucast (w OR 0x80)) = (ucast w :: u8)" "take_bit 7 w = w"
  unfolding w_def by (simp add: bit_simps, (rule bit_word_eqI, force simp: bit_simps bit_0x80 bit_0x80_int)+)

lemma last_byte:
  fixes v :: u64
  assumes "v \<le> 0x7F"
  shows "(ucast v :: u8) AND 0x80 = 0" "ucast ((ucast v :: u8) AND 0x7F) = v"
    "(ucast ((ucast v :: u8) AND 0x7F) :: u32) = ucast v" "ucast (v OR 0x80) AND 0x7F = (ucast v :: u8)"
    "v AND 0x7F = v"
proof -
  have "take_bit 7 v = v" using assms by (intro take_bit_small) (simp add: word_le_nat_alt)
  then show "(ucast v :: u8) AND 0x80 = 0" "ucast ((ucast v :: u8) AND 0x7F) = v"
    "(ucast ((ucast v :: u8) AND 0x7F) :: u32) = ucast v" "ucast (v OR 0x80) AND 0x7F = (ucast v :: u8)"
    "v AND 0x7F = v"
    unfolding and_7F and_80 using last_byte_bits [of v] by simp_all
qed

lemma push_join_7:
  "push_bit k (take_bit 7 v) OR push_bit (k + 7) (drop_bit 7 v) = push_bit k (v :: 'a::len word)"
proof (rule bit_word_eqI)
  fix n assume n: "n < LENGTH('a)"
  show "bit (push_bit k (take_bit 7 v) OR push_bit (k + 7) (drop_bit 7 v)) n = bit (push_bit k v) n"
    by (cases "n < k + 7") (auto simp: bit_simps n)
qed

text \<open>The varint of a number, as the standard has it: seven bits a byte, least significant first.\<close>

function varint_bytes :: "u64 \<Rightarrow> u8 list" where
  "varint_bytes v =
     (if v \<le> 0x7F then [ucast v]
      else ucast ((v AND 0x7F) OR 0x80) # varint_bytes (drop_bit 7 v))"
  by auto
termination
  by (relation "measure unat") (auto simp: drop_bit_eq_div unat_div word_le_nat_alt)

declare varint_bytes.simps [simp del]

lemma varint_bytes_length_le:
  "unat v < 2 ^ (7 * n) \<Longrightarrow> 0 < n \<Longrightarrow> length (varint_bytes v) \<le> n"
proof (induction v arbitrary: n rule: varint_bytes.induct)
  case (1 v)
  show ?case
  proof (cases "v \<le> 0x7F")
    case False
    then have big: "128 \<le> unat v" by (simp add: word_le_nat_alt)
    obtain m where n: "n = Suc m" using 1(3) by (cases n) auto
    have "0 < m" using big 1(2) n by (cases m) auto
    moreover have "unat (drop_bit 7 v) < 2 ^ (7 * m)"
      using 1(2) unfolding n by (simp add: drop_bit_eq_div unat_div less_mult_imp_div_less power_add)
    ultimately have "length (varint_bytes (drop_bit 7 v)) \<le> m" using 1(1) [OF False] by blast
    then show ?thesis using False n by (simp add: varint_bytes.simps [of v])
  qed (use 1(3) in \<open>simp add: varint_bytes.simps [of v]\<close>)
qed

lemma varint_bytes_length: "length (varint_bytes v) \<le> 10"
  using varint_bytes_length_le [of v 10] unat_u64_lt [of v] by simp

section \<open>Fixed-width bytes\<close>

lemma and_FF: "x AND 0xFF = take_bit 8 (x :: 'a::len word)"
proof -
  have "(0xFF :: 'a word) = mask 8" by (simp add: mask_eq_exp_minus_1)
  then show ?thesis by (simp add: take_bit_eq_mask)
qed

text \<open>A word is the or of its bytes.\<close>

lemma byte_slice:
  "push_bit k (ucast (ucast (drop_bit k v AND 0xFF) :: u8)) =
     (push_bit k (take_bit 8 (drop_bit k v)) :: 'a::len word)"
  unfolding and_FF by (rule bit_word_eqI) (auto simp: bit_simps)

lemma push_join_8:
  "push_bit k (take_bit 8 (drop_bit k v)) OR push_bit (k + 8) (drop_bit (k + 8) v) =
     (push_bit k (drop_bit k v) :: 'a::len word)"
proof (rule bit_word_eqI)
  fix n
  show "bit (push_bit k (take_bit 8 (drop_bit k v)) OR push_bit (k + 8) (drop_bit (k + 8) v)) n =
      bit (push_bit k (drop_bit k v)) n"
    by (cases "n < k + 8") (auto simp: bit_simps)
qed

lemma last_byte_slice:
  "LENGTH('a) = k + 8 \<Longrightarrow>
     push_bit k (take_bit 8 (drop_bit k v)) = (push_bit k (drop_bit k v) :: 'a::len word)"
  by (rule bit_word_eqI) (auto simp: bit_simps)

end
