(* ===== verification/Pb_Wire.thy ===== *)
theory Pb_Wire
  imports Pb_Stream Word_Bytes
begin

text \<open>
  The protobuf wire format: varints, zigzag integers, fixed-width integers, tags, strings and the
  skipping of fields, as \<^verbatim>\<open>pb_encode.c\<close> writes and \<^verbatim>\<open>pb_decode.c\<close> reads them, with what one
  direction says about the other.
\<close>

section \<open>Wire types\<close>

definition PB_WT_VARINT :: u32 where "PB_WT_VARINT = 0"
definition PB_WT_64BIT :: u32 where "PB_WT_64BIT = 1"
definition PB_WT_STRING :: u32 where "PB_WT_STRING = 2"
definition PB_WT_32BIT :: u32 where "PB_WT_32BIT = 5"

lemmas wire_type_defs = PB_WT_VARINT_def PB_WT_64BIT_def PB_WT_STRING_def PB_WT_32BIT_def

section \<open>Encoding\<close>

text \<open>The bytes the loop of \<open>pb_encode_varint\<close> puts into its buffer before the last is fixed up.\<close>

function varint_loop :: "u64 \<Rightarrow> u8 list" where
  "varint_loop v =
     (if v \<noteq> 0 then ucast ((v AND 0x7F) OR 0x80) # varint_loop (drop_bit 7 v) else [])"
  by auto
termination
  by (relation "measure unat")
    (simp_all add: drop_bit_eq_div unat_div unat_gt_0)

declare varint_loop.simps [simp del]

definition varint_buffer :: "u64 \<Rightarrow> u8 list" where
  "varint_buffer v =
     (let b = varint_loop v; i = length b in b[i - 1 := (b ! (i - 1)) AND 0x7F])"

definition pb_encode_varint :: "u64 \<Rightarrow> 's writer" where
  "pb_encode_varint v =
     (if v \<le> 0x7F then pb_write [ucast v] 1
      else pb_write (varint_buffer v) (of_nat (length (varint_buffer v))))"

definition pb_encode_svarint :: "64 word \<Rightarrow> 's writer" where
  "pb_encode_svarint v =
     pb_encode_varint (if v <s 0 then NOT (push_bit 1 v) else push_bit 1 v)"

definition fixed32_bytes :: "u32 \<Rightarrow> u8 list" where
  "fixed32_bytes v =
     [ucast (v AND 0xFF), ucast (drop_bit 8 v AND 0xFF), ucast (drop_bit 16 v AND 0xFF),
      ucast (drop_bit 24 v AND 0xFF)]"

definition pb_encode_fixed32 :: "u32 \<Rightarrow> 's writer" where
  "pb_encode_fixed32 v = pb_write (fixed32_bytes v) 4"

definition fixed64_bytes :: "u64 \<Rightarrow> u8 list" where
  "fixed64_bytes v =
     [ucast (v AND 0xFF), ucast (drop_bit 8 v AND 0xFF), ucast (drop_bit 16 v AND 0xFF),
      ucast (drop_bit 24 v AND 0xFF), ucast (drop_bit 32 v AND 0xFF), ucast (drop_bit 40 v AND 0xFF),
      ucast (drop_bit 48 v AND 0xFF), ucast (drop_bit 56 v AND 0xFF)]"

definition pb_encode_fixed64 :: "u64 \<Rightarrow> 's writer" where
  "pb_encode_fixed64 v = pb_write (fixed64_bytes v) 8"

definition pb_encode_tag :: "u32 \<Rightarrow> u32 \<Rightarrow> 's writer" where
  "pb_encode_tag wiretype field_number =
     pb_encode_varint (push_bit 3 (ucast field_number) OR ucast wiretype)"

definition pb_encode_string :: "u8 list \<Rightarrow> u64 \<Rightarrow> 's writer" where
  "pb_encode_string buf count = oseq (pb_encode_varint count) (pb_write buf count)"

section \<open>Decoding\<close>

text \<open>
  The loop of \<open>pb_decode_varint32_eof\<close> after its first byte. \<open>bitpos\<close> has eight bits and wraps.
\<close>

function varint32_loop :: "u8 \<Rightarrow> u32 \<Rightarrow> ('s, u32) reader" where
  "varint32_loop bitpos result s =
     (case pb_readbyte s of
        (None, s') \<Rightarrow> (None, s')
      | (Some byte, s') \<Rightarrow>
          (let sign_extension = (if bitpos < 63 then 0xFF else 1) :: u8;
               bitpos' = bitpos + 7;
               result' = (if 32 \<le> bitpos then result
                          else result OR push_bit (unat bitpos) (ucast (byte AND 0x7F)))
           in if 32 \<le> bitpos \<and> byte AND 0x7F \<noteq> 0 \<and>
                 (drop_bit 31 result = 0 \<or> byte \<noteq> sign_extension)
              then ifail ''varint overflow'' s'
              else if byte AND 0x80 \<noteq> 0 then varint32_loop bitpos' result' s'
              else if bitpos' = 35 \<and> byte AND 0x70 \<noteq> 0 then ifail ''varint overflow'' s'
              else (Some result', s')))"
  by auto
termination
  by (relation "measure (\<lambda>(bitpos, result, s). unat (bytes_left s))")
    (auto dest!: sym [of "(Some _, _)"] readbyte_decreases)

declare varint32_loop.simps [simp del]

text \<open>The result, the \<open>eof\<close> flag if the function sets it, and the stream.\<close>

definition pb_decode_varint32_eof :: "'s istream \<Rightarrow> u32 option \<times> bool \<times> 's istream" where
  "pb_decode_varint32_eof s =
     (case pb_readbyte s of
        (None, s') \<Rightarrow> (None, bytes_left s' = 0, s')
      | (Some byte, s') \<Rightarrow>
          if byte AND 0x80 = 0 then (Some (ucast byte), False, s')
          else (let (r, s'') = varint32_loop 7 (ucast (byte AND 0x7F)) s' in (r, False, s'')))"

definition pb_decode_varint32 :: "('s, u32) reader" where
  "pb_decode_varint32 s = (let (r, eof, s') = pb_decode_varint32_eof s in (r, s'))"

function varint_dec_loop :: "u8 \<Rightarrow> u64 \<Rightarrow> ('s, u64) reader" where
  "varint_dec_loop bitpos result s =
     (if 64 \<le> bitpos then ifail ''varint overflow'' s
      else (case pb_readbyte s of
              (None, s') \<Rightarrow> (None, s')
            | (Some byte, s') \<Rightarrow>
                (let result' = result OR push_bit (unat bitpos) (ucast (byte AND 0x7F))
                 in if byte AND 0x80 \<noteq> 0 then varint_dec_loop (bitpos + 7) result' s'
                    else (Some result', s'))))"
  by auto
termination
  by (relation "measure (\<lambda>(bitpos, result, s). unat (bytes_left s))")
    (auto dest!: sym [of "(Some _, _)"] readbyte_decreases)

declare varint_dec_loop.simps [simp del]

definition pb_decode_varint :: "('s, u64) reader" where
  "pb_decode_varint = varint_dec_loop 0 0"

lemma read_into_1_decreases:
  "pb_read_into 1 s = (Some bs, s') \<Longrightarrow> unat (bytes_left s') < unat (bytes_left s)"
  by (auto simp: pb_read_into_def ifail_def pred_word_less split: if_splits option.splits prod.splits)

function pb_skip_varint :: "('s, unit) reader" where
  "pb_skip_varint s =
     (case pb_read_into 1 s of
        (None, s') \<Rightarrow> (None, s')
      | (Some bs, s') \<Rightarrow> if byte_at bs 0 AND 0x80 \<noteq> 0 then pb_skip_varint s' else (Some (), s'))"
  by auto
termination
  by (relation "measure (\<lambda>s. unat (bytes_left s))")
    (auto dest!: sym [of "(Some _, _)"] read_into_1_decreases)

declare pb_skip_varint.simps [simp del]

definition pb_skip_string :: "('s, unit) reader" where
  "pb_skip_string = rbind pb_decode_varint32 (\<lambda>length. pb_read_null (ucast length))"

text \<open>Success, the wire type, the tag and \<open>eof\<close>.\<close>

definition pb_decode_tag :: "'s istream \<Rightarrow> bool \<times> u32 \<times> u32 \<times> bool \<times> 's istream" where
  "pb_decode_tag s =
     (case pb_decode_varint32_eof s of
        (None, eof, s') \<Rightarrow> (False, 0, 0, eof, s')
      | (Some temp, eof, s') \<Rightarrow>
          if temp = 0 then (False, 0, 0, True, s')
          else (True, temp AND 7, drop_bit 3 temp, eof, s'))"

definition pb_skip_field :: "u32 \<Rightarrow> ('s, unit) reader" where
  "pb_skip_field wire_type =
     (if wire_type = PB_WT_VARINT then pb_skip_varint
      else if wire_type = PB_WT_64BIT then pb_read_null 8
      else if wire_type = PB_WT_STRING then pb_skip_string
      else if wire_type = PB_WT_32BIT then pb_read_null 4
      else ifail ''invalid wire_type'')"

text \<open>
  \<open>read_raw_value\<close>: the bytes it puts into the buffer of at most \<open>n\<close> bytes; its callers pass 10.
\<close>

fun raw_varint :: "nat \<Rightarrow> ('s, u8 list) reader" where
  "raw_varint 0 s = (None, s)"
| "raw_varint (Suc n) s =
     (case pb_read_into 1 s of
        (None, s') \<Rightarrow> (None, s')
      | (Some bs, s') \<Rightarrow>
          if byte_at bs 0 AND 0x80 \<noteq> 0
          then (case raw_varint n s' of
                  (None, s'') \<Rightarrow> (None, s'') | (Some cs, s'') \<Rightarrow> (Some (byte_at bs 0 # cs), s''))
          else (Some [byte_at bs 0], s'))"

definition read_raw_value :: "u32 \<Rightarrow> nat \<Rightarrow> ('s, u8 list) reader" where
  "read_raw_value wire_type n =
     (if wire_type = PB_WT_VARINT then raw_varint n
      else if wire_type = PB_WT_64BIT then pb_read_into 8
      else if wire_type = PB_WT_32BIT then pb_read_into 4
      else ifail ''invalid wire_type'')"

text \<open>The substream; the stream it leaves is already shortened by the substream's length.\<close>

definition pb_make_string_substream :: "('s, 's istream) reader" where
  "pb_make_string_substream =
     rbind pb_decode_varint32 (\<lambda>size s.
       if bytes_left s < ucast size then ifail ''parent stream too short'' s
       else (Some (s\<lparr>bytes_left := ucast size\<rparr>), s\<lparr>bytes_left := bytes_left s - ucast size\<rparr>))"

definition pb_close_string_substream :: "'s istream \<Rightarrow> ('s, unit) reader" where
  "pb_close_string_substream sub s =
     (if bytes_left sub \<noteq> 0
      then (case pb_read_null (bytes_left sub) sub of
              (None, sub') \<Rightarrow> (None, s)
            | (Some _, sub') \<Rightarrow> (Some (), s\<lparr>source := source sub', i_errmsg := i_errmsg sub'\<rparr>))
      else (Some (), s\<lparr>source := source sub, i_errmsg := i_errmsg sub\<rparr>))"

definition pb_decode_svarint :: "('s, 64 word) reader" where
  "pb_decode_svarint =
     rbind pb_decode_varint (\<lambda>value.
       ret (if value AND 1 \<noteq> 0 then NOT (drop_bit 1 value) else drop_bit 1 value))"

definition pb_decode_fixed32 :: "('s, u32) reader" where
  "pb_decode_fixed32 =
     rbind (pb_read_into 4) (\<lambda>b.
       ret (ucast (byte_at b 0) OR push_bit 8 (ucast (byte_at b 1)) OR
            push_bit 16 (ucast (byte_at b 2)) OR push_bit 24 (ucast (byte_at b 3))))"

definition pb_decode_fixed64 :: "('s, u64) reader" where
  "pb_decode_fixed64 =
     rbind (pb_read_into 8) (\<lambda>b.
       ret (ucast (byte_at b 0) OR push_bit 8 (ucast (byte_at b 1)) OR
            push_bit 16 (ucast (byte_at b 2)) OR push_bit 24 (ucast (byte_at b 3)) OR
            push_bit 32 (ucast (byte_at b 4)) OR push_bit 40 (ucast (byte_at b 5)) OR
            push_bit 48 (ucast (byte_at b 6)) OR push_bit 56 (ucast (byte_at b 7))))"

definition pb_dec_bool :: "('s, bool) reader" where
  "pb_dec_bool = rbind pb_decode_varint32 (\<lambda>value. ret (value \<noteq> 0))"

lemma varint_loop_eq: "v \<noteq> 0 \<Longrightarrow> varint_loop v \<noteq> [] \<and> varint_buffer v = varint_bytes v"
proof (induction v rule: varint_bytes.induct)
  case (1 v)
  show ?case
  proof (cases "v \<le> 0x7F")
    case True
    then have "drop_bit 7 v = 0" by (simp add: drop_bit_eq_div word_le_nat_alt word_arith_nat_div)
    with True 1(2) show ?thesis
      by (simp add: varint_buffer_def varint_loop.simps [of v] varint_loop.simps [of 0]
          varint_bytes.simps [of v] last_byte Let_def)
  next
    case False
    then have nz: "drop_bit 7 v \<noteq> 0"
      by (simp add: drop_bit_eq_div word_le_nat_alt unat_eq_0 [symmetric] unat_div)
    have ne: "varint_loop (drop_bit 7 v) \<noteq> []"
      and eq: "varint_buffer (drop_bit 7 v) = varint_bytes (drop_bit 7 v)"
      using 1(1) [OF False nz] by auto
    have "varint_buffer v = ucast ((v AND 0x7F) OR 0x80) # varint_buffer (drop_bit 7 v)"
      using ne 1(2) by (simp add: varint_buffer_def varint_loop.simps [of v] Let_def neq_Nil_conv)
        (auto simp: nth_Cons' list_update_append)
    then show ?thesis using eq False ne 1(2)
      by (simp add: varint_bytes.simps [of v] varint_loop.simps [of v])
  qed
qed

section \<open>What the encoders write\<close>

context byte_sink
begin

lemma emits_varint: "emits (pb_encode_varint v) (varint_bytes v)"
proof (cases "v \<le> 0x7F")
  case True
  have "pb_encode_varint v = (pb_write [ucast v] 1 :: 's writer)"
    using True by (simp add: fun_eq_iff pb_encode_varint_def)
  then show ?thesis
    using emits_write [of "[ucast v]" 1] True by (simp add: varint_bytes.simps [of v])
next
  case False
  then have "v \<noteq> 0" by auto
  then have b: "varint_buffer v = varint_bytes v" using varint_loop_eq by blast
  have "pb_encode_varint v =
      (pb_write (varint_bytes v) (of_nat (length (varint_bytes v))) :: 's writer)"
    using False b by (simp add: fun_eq_iff pb_encode_varint_def)
  moreover have "unat (of_nat (length (varint_bytes v)) :: u64) = length (varint_bytes v)"
    using varint_bytes_length [of v] by (intro unat_u64_of_nat) simp
  ultimately show ?thesis using emits_write by metis
qed

lemma emits_svarint:
  "emits (pb_encode_svarint v) (varint_bytes (if v <s 0 then NOT (push_bit 1 v) else push_bit 1 v))"
proof -
  have "pb_encode_svarint v =
      (pb_encode_varint (if v <s 0 then NOT (push_bit 1 v) else push_bit 1 v) :: 's writer)"
    by (simp add: fun_eq_iff pb_encode_svarint_def)
  then show ?thesis using emits_varint by metis
qed

lemma emits_fixed32: "emits (pb_encode_fixed32 v) (fixed32_bytes v)"
  using emits_write [of "fixed32_bytes v" 4]
  by (simp add: pb_encode_fixed32_def [abs_def] fixed32_bytes_def)

lemma emits_fixed64: "emits (pb_encode_fixed64 v) (fixed64_bytes v)"
  using emits_write [of "fixed64_bytes v" 8]
  by (simp add: pb_encode_fixed64_def [abs_def] fixed64_bytes_def)

lemma emits_tag: "emits (pb_encode_tag w n) (varint_bytes (push_bit 3 (ucast n) OR ucast w))"
  using emits_varint by (simp add: pb_encode_tag_def [abs_def])

lemma emits_string:
  assumes "length bs = unat count"
  shows "emits (pb_encode_string bs count) (varint_bytes count @ bs)"
  using emits_seq [OF emits_varint emits_write [OF assms]]
  by (simp add: pb_encode_string_def [abs_def])

end

section \<open>What the decoders make of it\<close>

text \<open>A stream over a buffer that starts with \<open>bs\<close> and may be read that far.\<close>

definition starts :: "u8 list \<Rightarrow> u8 list \<Rightarrow> 's istream \<Rightarrow> bool" where
  "starts bs rest s \<longleftrightarrow> source s = Buffer (bs @ rest) \<and> length bs \<le> unat (bytes_left s)"

lemma starts_Cons:
  assumes "starts (b # bs) rest s"
  shows "pb_readbyte s = (Some b, advance 1 (bs @ rest) s)" "starts bs rest (advance 1 (bs @ rest) s)"
proof -
  show "pb_readbyte s = (Some b, advance 1 (bs @ rest) s)"
    using assms by (intro readbyte_Cons) (auto simp: starts_def)
  have "1 \<le> unat (bytes_left s)" using assms by (simp add: starts_def)
  from unat_advance [OF this] show "starts bs rest (advance 1 (bs @ rest) s)"
    using assms by (auto simp: starts_def)
qed

lemma starts_append:
  assumes "starts (xs @ ys) rest s"
  shows "starts xs (ys @ rest) s" "starts ys rest (advance (length xs) (ys @ rest) s)"
  using assms unat_advance [of "length xs" s] by (auto simp: starts_def)

lemma small_pos:
  assumes "k < 64"
  shows "unat (of_nat k :: u8) = k" "(of_nat k :: u8) + 7 = of_nat (k + 7)" "\<not> 64 \<le> (of_nat k :: u8)"
proof -
  show u: "unat (of_nat k :: u8) = k" using assms by (intro unat_of_nat_lt) simp
  show "(of_nat k :: u8) + 7 = of_nat (k + 7)" by simp
  show "\<not> 64 \<le> (of_nat k :: u8)" using assms by (simp add: word_le_nat_alt u)
qed

lemma varint_dec_loop_bytes:
  "unat v * 2 ^ k < 2 ^ 64 \<Longrightarrow> k < 64 \<Longrightarrow> starts (varint_bytes v) rest s \<Longrightarrow>
     varint_dec_loop (of_nat k) r s =
       (Some (r OR push_bit k v), advance (length (varint_bytes v)) rest s)"
proof (induction v arbitrary: k r s rule: varint_bytes.induct)
  case (1 v)
  note sp = small_pos [OF "1.prems"(2)]
  show ?case
  proof (cases "v \<le> 0x7F")
    case True
    with "1.prems"(3) have st: "starts [ucast v] rest s" by (simp add: varint_bytes.simps [of v])
    show ?thesis
      using True sp starts_Cons(1) [OF st]
      by (subst varint_dec_loop.simps) (simp add: last_byte varint_bytes.simps [of v] Let_def)
  next
    case False
    let ?b = "ucast ((v AND 0x7F) OR 0x80) :: u8"
    let ?s = "advance 1 (varint_bytes (drop_bit 7 v) @ rest) s"
    have vb: "varint_bytes v = ?b # varint_bytes (drop_bit 7 v)"
      using False by (simp add: varint_bytes.simps [of v])
    note st = starts_Cons [OF "1.prems"(3) [unfolded vb]]
    have "128 \<le> unat v" using False by (simp add: word_le_nat_alt)
    then have "128 * 2 ^ k < (2 :: nat) ^ 64" using "1.prems"(1) by (meson mult_le_mono1 le_less_trans)
    then have "(2 :: nat) ^ (k + 7) < 2 ^ 64" by (simp add: power_add)
    then have k: "k + 7 < 64" using power_less_imp_less_exp one_less_numeral_iff semiring_norm(76) by blast
    have "unat (drop_bit 7 v) * 2 ^ (k + 7) = (unat v div 2 ^ 7 * 2 ^ 7) * 2 ^ k"
      by (simp add: drop_bit_eq_div unat_div power_add)
    also have "\<dots> \<le> unat v * 2 ^ k" by (intro mult_le_mono1) (rule div_times_less_eq_dividend)
    finally have small: "unat (drop_bit 7 v) * 2 ^ (k + 7) < 2 ^ 64" using "1.prems"(1) by simp
    have "varint_dec_loop (of_nat k) r s =
        varint_dec_loop (of_nat (k + 7)) (r OR push_bit k (take_bit 7 v)) ?s"
      using sp st(1) cont_byte(1,2) [of v]
      by (subst varint_dec_loop.simps) (simp add: Let_def)
    also have "\<dots> = (Some ((r OR push_bit k (take_bit 7 v)) OR push_bit (k + 7) (drop_bit 7 v)),
        advance (length (varint_bytes (drop_bit 7 v))) rest ?s)"
      by (rule "1.IH" [OF False small k st(2)])
    also have "\<dots> = (Some (r OR push_bit k v), advance (length (varint_bytes v)) rest s)"
      by (simp add: vb or.assoc push_join_7)
    finally show ?thesis .
  qed
qed

lemma decode_varint_bytes:
  "starts (varint_bytes v) rest s \<Longrightarrow>
     pb_decode_varint s = (Some v, advance (length (varint_bytes v)) rest s)"
  using varint_dec_loop_bytes [of v 0 rest s 0] unat_u64_lt [of v]
  by (simp add: pb_decode_varint_def)

lemma last_byte_7F: "v \<le> 0x7F \<Longrightarrow> (ucast (ucast (v :: u64) :: u8) :: u32) = ucast v"
proof -
  assume "v \<le> 0x7F"
  then have "take_bit 7 v = v" by (intro take_bit_small) (simp add: word_le_nat_alt)
  moreover have "(ucast (ucast (take_bit 7 v) :: u8) :: u32) = ucast (take_bit 7 v)"
    by (rule bit_word_eqI) (force simp: bit_simps)
  ultimately show ?thesis by simp
qed

lemma last_byte_16:
  assumes "unat (v :: u64) < 16"
  shows "(ucast v :: u8) AND 0x70 = 0"
proof -
  have v: "take_bit 4 v = v" using assms by (intro take_bit_small) simp
  have "take_bit 4 x AND push_bit 4 y = 0" for x y :: u8
    by (rule bit_word_eqI) (auto simp: bit_simps)
  from this [of "ucast v" 7] have "take_bit 4 (ucast v) AND 0x70 = (0 :: u8)" by simp
  moreover have "take_bit 4 (ucast v) = (ucast (take_bit 4 v) :: u8)"
    by (rule bit_word_eqI) (auto simp: bit_simps)
  ultimately show ?thesis by (simp add: v)
qed

lemma push_join_7_u32:
  "push_bit k (take_bit 7 (ucast v)) OR push_bit (k + 7) (ucast (drop_bit 7 (v :: u64))) =
     (push_bit k (ucast v) :: u32)"
proof -
  have "(push_bit (k + 7) (ucast (drop_bit 7 v)) :: u32) = push_bit (k + 7) (drop_bit 7 (ucast v))"
    by (rule bit_word_eqI) (auto simp: bit_simps)
  then show ?thesis by (simp add: push_join_7)
qed

lemma small_pos32:
  assumes "k < 32"
  shows "\<not> 32 \<le> (of_nat k :: u8)" "((of_nat k :: u8) + 7 = 35) \<longleftrightarrow> k = 28"
proof -
  have u: "unat (of_nat k :: u8) = k" "unat (of_nat (k + 7) :: u8) = k + 7"
    using assms by (intro unat_of_nat_lt; simp)+
  show "\<not> 32 \<le> (of_nat k :: u8)" using assms by (simp add: word_le_nat_alt u)
  have "((of_nat k :: u8) + 7 = 35) \<longleftrightarrow> unat (of_nat (k + 7) :: u8) = 35"
    by (simp add: word_unat_eq_iff)
  then show "((of_nat k :: u8) + 7 = 35) \<longleftrightarrow> k = 28" unfolding u by auto
qed

lemma varint32_loop_bytes:
  "unat v * 2 ^ k < 2 ^ 32 \<Longrightarrow> k < 32 \<Longrightarrow> starts (varint_bytes v) rest s \<Longrightarrow>
     varint32_loop (of_nat k) r s =
       (Some (r OR push_bit k (ucast v)), advance (length (varint_bytes v)) rest s)"
proof (induction v arbitrary: k r s rule: varint_bytes.induct)
  case (1 v)
  have "k < 64" using "1.prems"(2) by simp
  note sp = small_pos [OF this] small_pos32 [OF "1.prems"(2)]
  show ?case
  proof (cases "v \<le> 0x7F")
    case True
    with "1.prems"(3) have st: "starts [ucast v] rest s" by (simp add: varint_bytes.simps [of v])
    have "k = 28 \<Longrightarrow> (ucast v :: u8) AND 0x70 = 0"
      using "1.prems"(1) by (intro last_byte_16) simp
    then show ?thesis
      using True sp starts_Cons(1) [OF st]
      by (subst varint32_loop.simps) (auto simp: last_byte varint_bytes.simps [of v] Let_def)
  next
    case False
    let ?b = "ucast ((v AND 0x7F) OR 0x80) :: u8"
    let ?s = "advance 1 (varint_bytes (drop_bit 7 v) @ rest) s"
    have vb: "varint_bytes v = ?b # varint_bytes (drop_bit 7 v)"
      using False by (simp add: varint_bytes.simps [of v])
    note st = starts_Cons [OF "1.prems"(3) [unfolded vb]]
    have "128 \<le> unat v" using False by (simp add: word_le_nat_alt)
    then have "128 * 2 ^ k < (2 :: nat) ^ 32" using "1.prems"(1) by (meson mult_le_mono1 le_less_trans)
    then have "(2 :: nat) ^ (k + 7) < 2 ^ 32" by (simp add: power_add)
    then have k: "k + 7 < 32" using power_less_imp_less_exp one_less_numeral_iff semiring_norm(76) by blast
    have "unat (drop_bit 7 v) * 2 ^ (k + 7) = (unat v div 2 ^ 7 * 2 ^ 7) * 2 ^ k"
      by (simp add: drop_bit_eq_div unat_div power_add)
    also have "\<dots> \<le> unat v * 2 ^ k" by (intro mult_le_mono1) (rule div_times_less_eq_dividend)
    finally have small: "unat (drop_bit 7 v) * 2 ^ (k + 7) < 2 ^ 32" using "1.prems"(1) by simp
    have "varint32_loop (of_nat k) r s =
        varint32_loop (of_nat (k + 7)) (r OR push_bit k (take_bit 7 (ucast v))) ?s"
      using sp st(1) cont_byte(1,3) [of v]
      by (subst varint32_loop.simps) (simp add: Let_def)
    also have "\<dots> = (Some ((r OR push_bit k (take_bit 7 (ucast v))) OR
          push_bit (k + 7) (ucast (drop_bit 7 v))),
        advance (length (varint_bytes (drop_bit 7 v))) rest ?s)"
      by (rule "1.IH" [OF False small k st(2)])
    also have "\<dots> = (Some (r OR push_bit k (ucast v)), advance (length (varint_bytes v)) rest s)"
      by (simp add: vb or.assoc push_join_7_u32)
    finally show ?thesis .
  qed
qed

lemma decode_varint32_bytes:
  assumes "starts (varint_bytes v) rest s" "unat v < 2 ^ 32"
  shows "pb_decode_varint32_eof s =
    (Some (ucast v), False, advance (length (varint_bytes v)) rest s)"
proof (cases "v \<le> 0x7F")
  case True
  with assms(1) have st: "starts [ucast v] rest s" by (simp add: varint_bytes.simps [of v])
  show ?thesis
    using True starts_Cons(1) [OF st] last_byte_7F [of v]
    by (simp add: pb_decode_varint32_eof_def last_byte varint_bytes.simps [of v])
next
  case False
  let ?b = "ucast ((v AND 0x7F) OR 0x80) :: u8"
  have vb: "varint_bytes v = ?b # varint_bytes (drop_bit 7 v)"
    using False by (simp add: varint_bytes.simps [of v])
  note st = starts_Cons [OF assms(1) [unfolded vb]]
  have "unat (drop_bit 7 v) * 2 ^ 7 < 2 ^ 32"
    using assms(2) by (simp add: drop_bit_eq_div unat_div)
  from varint32_loop_bytes [OF this _ st(2), of "take_bit 7 (ucast v)"]
  show ?thesis
    using st(1) cont_byte [of v] push_join_7_u32 [of 0 v]
    by (simp add: pb_decode_varint32_eof_def vb)
qed

lemma and_1: "x AND 1 \<noteq> 0 \<longleftrightarrow> bit (x :: 'a::len word) 0"
  by (simp add: and_one_eq bit_0 mod_2_eq_odd)

lemma sless_0_bit: "(v :: u64) <s 0 \<longleftrightarrow> bit v 63"
  using bit_last_iff [of v] by (simp add: word_sless_alt)

lemma bit_double: "bit (v * 2 :: u64) n \<longleftrightarrow> 1 \<le> n \<and> n < 64 \<and> bit v (n - 1)"
proof -
  have "v * 2 = push_bit 1 v" by simp
  then show ?thesis by (simp only: bit_push_bit_iff possible_bit_word) auto
qed

lemma zigzag_decode:
  fixes v :: u64
  defines "z \<equiv> (if v <s 0 then NOT (push_bit 1 v) else push_bit 1 v)"
  shows "(if z AND 1 \<noteq> 0 then NOT (drop_bit 1 z) else drop_bit 1 z) = v"
proof (cases "bit v 63")
  case True
  have "bit (NOT (push_bit 1 v)) 0" by (simp add: bit_simps bit_double)
  moreover have "NOT (drop_bit 1 (NOT (push_bit 1 v))) = v"
  proof (rule bit_word_eqI)
    fix n assume "n < LENGTH(64)"
    then show "bit (NOT (drop_bit 1 (NOT (push_bit 1 v)))) n = bit v n"
      using True by (cases "n = 63") (auto simp: bit_simps bit_double)
  qed
  ultimately show ?thesis using True unfolding z_def and_1 sless_0_bit by simp
next
  case False
  have "\<not> bit (push_bit 1 v) 0" by (simp add: bit_simps bit_double)
  moreover have "drop_bit 1 (push_bit 1 v) = v"
  proof (rule bit_word_eqI)
    fix n assume "n < LENGTH(64)"
    then show "bit (drop_bit 1 (push_bit 1 v)) n = bit v n"
      using False by (cases "n = 63") (auto simp: bit_simps bit_double)
  qed
  ultimately show ?thesis using False unfolding z_def and_1 sless_0_bit by simp
qed

lemma decode_svarint_bytes:
  assumes "starts (varint_bytes (if v <s 0 then NOT (push_bit 1 v) else push_bit 1 v)) rest s"
  shows "pb_decode_svarint s =
    (Some v, advance (length (varint_bytes (if v <s 0 then NOT (push_bit 1 v) else push_bit 1 v))) rest s)"
  unfolding pb_decode_svarint_def rbind_def decode_varint_bytes [OF assms]
  using zigzag_decode [of v] by (simp add: ret_def)

lemma fixed32_join:
  "ucast (byte_at (fixed32_bytes v) 0) OR push_bit 8 (ucast (byte_at (fixed32_bytes v) 1)) OR
   push_bit 16 (ucast (byte_at (fixed32_bytes v) 2)) OR
   push_bit 24 (ucast (byte_at (fixed32_bytes v) 3)) = v"
  using byte_slice [of 0 v] byte_slice [of 8 v] byte_slice [of 16 v] byte_slice [of 24 v]
    push_join_8 [of 0 v] push_join_8 [of 8 v] push_join_8 [of 16 v] last_byte_slice [of 24 v]
  by (simp add: fixed32_bytes_def byte_at_def)

lemma fixed64_join:
  "ucast (byte_at (fixed64_bytes v) 0) OR push_bit 8 (ucast (byte_at (fixed64_bytes v) 1)) OR
   push_bit 16 (ucast (byte_at (fixed64_bytes v) 2)) OR
   push_bit 24 (ucast (byte_at (fixed64_bytes v) 3)) OR
   push_bit 32 (ucast (byte_at (fixed64_bytes v) 4)) OR
   push_bit 40 (ucast (byte_at (fixed64_bytes v) 5)) OR
   push_bit 48 (ucast (byte_at (fixed64_bytes v) 6)) OR
   push_bit 56 (ucast (byte_at (fixed64_bytes v) 7)) = v"
  using byte_slice [of 0 v] byte_slice [of 8 v] byte_slice [of 16 v] byte_slice [of 24 v]
    byte_slice [of 32 v] byte_slice [of 40 v] byte_slice [of 48 v] byte_slice [of 56 v]
    push_join_8 [of 0 v] push_join_8 [of 8 v] push_join_8 [of 16 v] push_join_8 [of 24 v]
    push_join_8 [of 32 v] push_join_8 [of 40 v] push_join_8 [of 48 v] last_byte_slice [of 56 v]
  by (simp add: fixed64_bytes_def byte_at_def)

lemma starts_read:
  "starts xs rest s \<Longrightarrow> length xs = unat count \<Longrightarrow>
     pb_read_into count s = (Some xs, advance (length xs) rest s)"
  "starts xs rest s \<Longrightarrow> length xs = unat count \<Longrightarrow>
     pb_read_null count s = (Some (), advance (length xs) rest s)"
  unfolding starts_def using read_into_append read_null_append by blast+

lemma decode_fixed32_bytes:
  "starts (fixed32_bytes v) rest s \<Longrightarrow>
     pb_decode_fixed32 s = (Some v, advance (length (fixed32_bytes v)) rest s)"
  using starts_read(1) [of "fixed32_bytes v" rest s 4] fixed32_join [of v]
  by (simp add: pb_decode_fixed32_def rbind_def ret_def fixed32_bytes_def)

lemma decode_fixed64_bytes:
  "starts (fixed64_bytes v) rest s \<Longrightarrow>
     pb_decode_fixed64 s = (Some v, advance (length (fixed64_bytes v)) rest s)"
  using starts_read(1) [of "fixed64_bytes v" rest s 8] fixed64_join [of v]
  by (simp add: pb_decode_fixed64_def rbind_def ret_def fixed64_bytes_def)

section \<open>Tags\<close>

lemma tag_word:
  fixes n w :: u32
  assumes "unat n < 2 ^ 29" "unat w < 8"
  defines "t \<equiv> push_bit 3 (ucast n) OR ucast w :: u64"
  shows "unat t < 2 ^ 32" "(ucast t :: u32) AND 7 = w" "drop_bit 3 (ucast t :: u32) = n"
    "(ucast t :: u32) = 0 \<longleftrightarrow> n = 0 \<and> w = 0"
proof -
  have n: "take_bit 29 n = n" by (rule take_bit_small) (rule assms(1))
  have w: "take_bit 3 w = w" by (rule take_bit_small) (use assms(2) in simp)
  have t: "t = push_bit 3 (ucast (take_bit 29 n)) OR ucast (take_bit 3 w)" by (simp only: t_def n w)
  have "take_bit 32 t = t" unfolding t by (rule bit_word_eqI) (auto simp: bit_simps)
  then show "unat t < 2 ^ 32"
    by (metis unsigned_take_bit_eq take_bit_nat_less_exp)
  have m7: "(7 :: u32) = mask 3" by (simp add: mask_eq_exp_minus_1)
  have "(ucast t :: u32) AND 7 = take_bit 3 w" unfolding t m7
    by (rule bit_word_eqI) (auto simp: bit_simps)
  then show lo: "(ucast t :: u32) AND 7 = w" by (simp only: w)
  have "drop_bit 3 (ucast t :: u32) = take_bit 29 n" unfolding t
    by (rule bit_word_eqI) (auto simp: bit_simps)
  then show hi: "drop_bit 3 (ucast t :: u32) = n" by (simp only: n)
  show "(ucast t :: u32) = 0 \<longleftrightarrow> n = 0 \<and> w = 0"
    using lo hi by (auto simp: t_def)
qed

lemma decode_tag_bytes:
  assumes "starts (varint_bytes (push_bit 3 (ucast n) OR ucast w)) rest s"
    and "unat n < 2 ^ 29" "unat w < 8" "n \<noteq> 0"
  shows "pb_decode_tag s = (True, w, n, False,
    advance (length (varint_bytes (push_bit 3 (ucast n) OR ucast w))) rest s)"
  using decode_varint32_bytes [OF assms(1) tag_word(1) [OF assms(2,3)]] tag_word [OF assms(2,3)] assms(4)
  by (simp add: pb_decode_tag_def)

section \<open>Skipping\<close>

lemma read_into_1:
  "starts (b # bs) rest s \<Longrightarrow> pb_read_into 1 s = (Some [b], advance 1 (bs @ rest) s)"
  using starts_read(1) [of "[b]" "bs @ rest" s 1] by (simp add: starts_def)

lemma skip_varint_bytes:
  "starts (varint_bytes v) rest s \<Longrightarrow>
     pb_skip_varint s = (Some (), advance (length (varint_bytes v)) rest s)"
proof (induction v arbitrary: s rule: varint_bytes.induct)
  case (1 v)
  show ?case
  proof (cases "v \<le> 0x7F")
    case True
    with "1.prems" have st: "starts [ucast v] rest s" by (simp add: varint_bytes.simps [of v])
    show ?thesis
      using True read_into_1 [OF st]
      by (subst pb_skip_varint.simps) (simp add: last_byte varint_bytes.simps [of v])
  next
    case False
    then have vb: "varint_bytes v =
        ucast ((v AND 0x7F) OR 0x80) # varint_bytes (drop_bit 7 v)"
      by (simp add: varint_bytes.simps [of v])
    note st = "1.prems" [unfolded vb]
    have "pb_skip_varint s = pb_skip_varint (advance 1 (varint_bytes (drop_bit 7 v) @ rest) s)"
      using read_into_1 [OF st] cont_byte(1) [of v] by (subst pb_skip_varint.simps) simp
    also have "\<dots> = (Some (), advance (length (varint_bytes (drop_bit 7 v))) rest
        (advance 1 (varint_bytes (drop_bit 7 v) @ rest) s))"
      by (rule "1.IH" [OF False starts_Cons(2) [OF st]])
    finally show ?thesis by (simp add: vb)
  qed
qed

lemma skip_string_bytes:
  assumes "starts (varint_bytes (of_nat (length bs)) @ bs) rest s" "length bs < 2 ^ 32"
  shows "pb_skip_string s =
    (Some (), advance (length (varint_bytes (of_nat (length bs)) @ bs)) rest s)"
proof -
  let ?n = "of_nat (length bs) :: u64"
  have u: "unat ?n = length bs" using assms(2) by (intro unat_u64_of_nat) simp
  have n: "ucast (ucast ?n :: u32) = ?n"
    using assms(2) u by (simp add: word_unat_eq_iff unat_ucast_up unat_ucast_down)
  have "pb_decode_varint32 s = (Some (ucast ?n), advance (length (varint_bytes ?n)) (bs @ rest) s)"
    using decode_varint32_bytes [OF starts_append(1) [OF assms(1)]] u assms(2)
    by (simp add: pb_decode_varint32_def)
  then show ?thesis
    using starts_read(2) [OF starts_append(2) [OF assms(1)], of ?n] u n
    by (simp add: pb_skip_string_def rbind_def)
qed

section \<open>Reading stays inside the buffer\<close>

text \<open>
  From a buffer that holds at least \<open>bytes_left\<close> bytes, a decoder takes some of them, never more than
  that, and what is left is again covered by the buffer; a failing decoder included.
\<close>

definition within :: "'s istream \<Rightarrow> 's istream \<Rightarrow> bool" where
  "within s t \<longleftrightarrow>
     (\<forall>bs. source s = Buffer bs \<and> unat (bytes_left s) \<le> length bs \<longrightarrow>
        (\<exists>k \<le> unat (bytes_left s).
           source t = Buffer (drop k bs) \<and> unat (bytes_left t) = unat (bytes_left s) - k))"

lemma within_refl: "within s s"
  unfolding within_def by (auto intro: exI [of _ 0])

lemma within_trans:
  assumes "within s t" "within t u"
  shows "within s u"
  unfolding within_def
proof (intro allI impI)
  fix bs assume bs: "source s = Buffer bs \<and> unat (bytes_left s) \<le> length bs"
  then obtain k where k: "k \<le> unat (bytes_left s)" "source t = Buffer (drop k bs)"
    "unat (bytes_left t) = unat (bytes_left s) - k"
    using assms(1) unfolding within_def by blast
  moreover have "unat (bytes_left t) \<le> length (drop k bs)" using k bs by (simp add: diff_le_mono)
  ultimately obtain j where j: "j \<le> unat (bytes_left t)" "source u = Buffer (drop j (drop k bs))"
    "unat (bytes_left u) = unat (bytes_left t) - j"
    using assms(2) unfolding within_def by blast
  show "\<exists>k \<le> unat (bytes_left s).
      source u = Buffer (drop k bs) \<and> unat (bytes_left u) = unat (bytes_left s) - k"
    by (rule exI [of _ "j + k"]) (use j k in \<open>simp add: add.commute\<close>)
qed

lemma within_same: "source t = source s \<Longrightarrow> bytes_left t = bytes_left s \<Longrightarrow> within s t"
  unfolding within_def by (auto intro: exI [of _ 0])

lemma within_ifail: "within s (snd (ifail m s))"
  by (rule within_same) simp_all

definition stays :: "('s, 'a) reader \<Rightarrow> bool" where
  "stays d \<longleftrightarrow> (\<forall>s. within s (snd (d s)))"

lemma stays_read_into: "stays (pb_read_into count)"
  unfolding stays_def
proof
  fix s :: "'a istream"
  show "within s (snd (pb_read_into count s))"
  proof (cases "count = 0 \<or> bytes_left s < count \<or> \<not> is_buffer (source s)")
    case True
    then show ?thesis
      by (cases "source s") (auto simp: pb_read_into_def within_refl within_ifail within_def)
  next
    case False
    then obtain bs where "source s = Buffer bs" by (cases "source s") auto
    moreover have "unat (bytes_left s - count) = unat (bytes_left s) - unat count"
      using False by (simp add: unat_sub not_less)
    ultimately show ?thesis
      using False by (auto simp: pb_read_into_def within_def word_less_nat_alt
          intro!: exI [of _ "unat count"])
  qed
qed

lemma stays_readbyte: "stays pb_readbyte"
  unfolding stays_def
proof
  fix s :: "'a istream"
  have "pb_read_into 1 s = (case pb_readbyte s of (None, s') \<Rightarrow> (None, s')
      | (Some b, s') \<Rightarrow> (case buf_read 1 (source s) of (Some bs, _) \<Rightarrow> (Some bs, s') | _ \<Rightarrow> (None, s')))"
    by (auto simp: pb_read_into_def pb_readbyte_def ifail_def word_less_nat_alt unat_eq_0
        less_one split: option.splits prod.splits)
  then have "snd (pb_read_into 1 s) = snd (pb_readbyte s)"
    by (auto simp: pb_read_into_def pb_readbyte_def ifail_def split: option.splits prod.splits if_splits)
  then show "within s (snd (pb_readbyte s))"
    using stays_read_into [of 1] unfolding stays_def by metis
qed

lemma stays_rbind: "stays f \<Longrightarrow> (\<And>a. stays (g a)) \<Longrightarrow> stays (rbind f g)"
  unfolding stays_def rbind_def by (auto split: prod.split option.split intro: within_trans)
    (metis snd_conv within_trans)+

lemma stays_ret: "stays (ret a)"
  by (simp add: stays_def ret_def within_refl)

lemma stays_ifail: "stays (ifail m)"
  by (simp add: stays_def within_ifail)

lemma readbyte_within: "pb_readbyte s = (r, s') \<Longrightarrow> within s s'"
  using stays_readbyte unfolding stays_def by (metis snd_conv)

lemma read_into_within: "pb_read_into n s = (r, s') \<Longrightarrow> within s s'"
  using stays_read_into [of n] unfolding stays_def by (metis snd_conv)

lemma stays_skip_input: "stays (skip_input n)"
proof -
  have "within s (snd (skip_input n s))" for s :: "'a istream"
  proof (induction n s rule: skip_input.induct)
    case (1 n s)
    show ?case
      using "1.IH" read_into_within [of 16 s] read_into_within [of n s]
      by (subst skip_input.simps) (auto split: prod.split option.split intro: within_trans)
  qed
  then show ?thesis by (simp add: stays_def)
qed

lemma stays_read_null: "stays (pb_read_null n :: ('s, unit) reader)"
proof -
  have r: "stays (rbind (pb_read_into n) (\<lambda>_. ret ()) :: ('s, unit) reader)"
    by (intro stays_rbind stays_read_into stays_ret)
  have k: "stays (skip_input n :: ('s, unit) reader)" by (rule stays_skip_input)
  have "stays (\<lambda>s :: 's istream. if n = 0 then (Some (), s) else if \<not> is_buffer (source s) then skip_input n s
      else rbind (pb_read_into n) (\<lambda>_. ret ()) s)"
    using k r unfolding stays_def by (simp add: within_refl)
  then show ?thesis unfolding pb_read_null_def [abs_def] .
qed

lemma within_varint32_loop: "within s (snd (varint32_loop k r s))"
proof (induction k r s rule: varint32_loop.induct)
  case (1 k r s)
  obtain b s' where rb: "pb_readbyte s = (b, s')" by fastforce
  note w = readbyte_within [OF rb]
  show ?case
  proof (cases b)
    case None
    then show ?thesis using w by (subst varint32_loop.simps) (simp add: rb)
  next
    case (Some byte)
    have st: "within s (snd (ifail m s'))" for m
      by (rule within_trans [OF w within_ifail])
    note IH = "1.IH" [OF rb [symmetric] Some refl refl refl]
    show ?thesis
      using w st within_trans [OF w IH]
      by (subst varint32_loop.simps) (auto simp: rb Some Let_def st)
  qed
qed

lemma within_varint_dec_loop: "within s (snd (varint_dec_loop k r s))"
proof (induction k r s rule: varint_dec_loop.induct)
  case (1 k r s)
  obtain b s' where rb: "pb_readbyte s = (b, s')" by fastforce
  note w = readbyte_within [OF rb]
  show ?case
  proof (cases "64 \<le> k")
    case True
    then show ?thesis by (subst varint_dec_loop.simps) (simp add: within_ifail)
  next
    case False
    show ?thesis
    proof (cases b)
      case None
      then show ?thesis using w False by (subst varint_dec_loop.simps) (simp add: rb)
    next
      case (Some byte)
      note IH = "1.IH" [OF False rb [symmetric] Some refl]
      show ?thesis
        using w within_trans [OF w IH] False
        by (subst varint_dec_loop.simps) (simp add: rb Some Let_def)
    qed
  qed
qed

lemma stays_varint: "stays (pb_decode_varint :: ('s, u64) reader)" "stays (pb_decode_varint32 :: ('s, u32) reader)"
proof -
  show "stays (pb_decode_varint :: ('s, u64) reader)"
    by (simp add: stays_def pb_decode_varint_def within_varint_dec_loop)
  show "stays (pb_decode_varint32 :: ('s, u32) reader)"
    unfolding stays_def
  proof
    fix s :: "'s istream"
    obtain b s' where rb: "pb_readbyte s = (b, s')" by fastforce
    note w = readbyte_within [OF rb]
    show "within s (snd (pb_decode_varint32 s))"
      using w within_trans [OF w within_varint32_loop]
      by (cases b) (simp_all add: pb_decode_varint32_def pb_decode_varint32_eof_def rb case_prod_beta
          Let_def)
  qed
qed

lemma within_skip_varint: "within s (snd (pb_skip_varint s))"
proof (induction s rule: pb_skip_varint.induct)
  case (1 s)
  obtain b s' where rb: "pb_read_into 1 s = (b, s')" by fastforce
  note w = read_into_within [OF rb]
  show ?case
  proof (cases b)
    case None
    then show ?thesis using w by (subst pb_skip_varint.simps) (simp add: rb)
  next
    case (Some bs)
    note IH = "1.IH" [OF rb [symmetric] Some]
    show ?thesis
      using w within_trans [OF w IH]
      by (subst pb_skip_varint.simps) (simp add: rb Some)
  qed
qed

lemma within_raw_varint: "within s (snd (raw_varint n s))"
proof (induction n s rule: raw_varint.induct)
  case (2 n s)
  obtain b s' where rb: "pb_read_into 1 s = (b, s')" by fastforce
  note w = read_into_within [OF rb]
  show ?case
  proof (cases b)
    case (Some bs)
    note IH = "2.IH" [OF rb [symmetric] Some]
    show ?thesis
      using w within_trans [OF w IH] by (auto simp: rb Some split: prod.split option.split)
  qed (use w in \<open>simp add: rb\<close>)
qed (simp add: within_refl)

lemmas stays_intros = stays_rbind stays_ret stays_ifail stays_read_into stays_read_null stays_varint

lemma stays_skip_field: "stays (pb_skip_field wt :: ('s, unit) reader)"
proof -
  have "stays (pb_skip_varint :: ('s, unit) reader)" by (simp add: stays_def within_skip_varint)
  moreover have "stays (pb_skip_string :: ('s, unit) reader)" unfolding pb_skip_string_def by (intro stays_intros)
  ultimately show ?thesis by (simp add: pb_skip_field_def stays_intros)
qed

lemma stays_raw_value: "stays (read_raw_value wt n :: ('s, u8 list) reader)"
proof -
  have "stays (raw_varint n :: ('s, u8 list) reader)" by (simp add: stays_def within_raw_varint)
  then show ?thesis by (simp add: read_raw_value_def stays_intros)
qed

lemma stays_scalars:
  "stays pb_decode_svarint" "stays pb_decode_fixed32" "stays pb_decode_fixed64" "stays pb_dec_bool"
  unfolding pb_decode_svarint_def pb_decode_fixed32_def pb_decode_fixed64_def pb_dec_bool_def
  by (intro stays_intros)+

text \<open>
  Property C28: no decoder of the wire layer reads past its buffer, whatever the bytes are. From a buffer that
  covers \<open>bytes_left\<close>, skipping a field of any wire type, reading a raw value and decoding every scalar
  leave a stream that has advanced by at most \<open>bytes_left\<close> bytes and is covered again, on success and
  on every error path.
\<close>

theorem wire_decoders_stay_inside:
  "stays (pb_skip_field wt) \<and> stays (read_raw_value wt n) \<and> stays pb_decode_varint \<and>
   stays pb_decode_varint32 \<and> stays pb_decode_svarint \<and> stays pb_decode_fixed32 \<and>
   stays pb_decode_fixed64 \<and> stays pb_dec_bool \<and> stays (pb_read_null count)"
  using stays_skip_field stays_raw_value stays_varint stays_scalars stays_read_null by blast

section \<open>Round trips\<close>

text \<open>
  Encode into a buffer of \<open>n\<close> bytes, then decode from what was written; \<open>None\<close> unless both succeed
  and the decoder consumes everything.
\<close>

definition transmit ::
  "(u8 list \<times> nat) writer \<Rightarrow> (unit, 'a) reader \<Rightarrow> u8 list \<Rightarrow> u64 \<Rightarrow> 'a option" where
  "transmit f d buf n =
     (let (ok, s) = f (pb_ostream_from_buffer buf n);
          (r, t) = d (pb_istream_from_buffer (fst (ostate s)) (bytes_written s))
      in if ok \<and> bytes_left t = 0 then r else None)"

lemma transmit_emits:
  assumes "buffer.emits f w" "length w \<le> unat n" "unat n \<le> length buf"
    and "\<And>rest s. starts w rest s \<Longrightarrow> d s = (Some a, advance (length w) rest s)"
  shows "transmit f d buf n = Some a"
proof -
  let ?o = "pb_ostream_from_buffer buf n"
  let ?s = "snd (f ?o)"
  have "fst (f ?o) \<and> buffer.appended w ?o ?s"
    using assms(1-3) unfolding buffer.emits_def
    by (simp add: pb_ostream_from_buffer_def room_def buf_room_def)
  then have ok: "fst (f ?o)" and len: "unat (bytes_written ?s) = length w"
    and out: "take (snd (ostate ?s)) (fst (ostate ?s)) = w"
    by (simp_all add: buffer.appended_def pb_ostream_from_buffer_def buf_out_def)
  obtain rest where "fst (ostate ?s) = w @ rest"
    using out append_take_drop_id [of "snd (ostate ?s)" "fst (ostate ?s)"] by metis
  then have st: "starts w rest (pb_istream_from_buffer (fst (ostate ?s)) (bytes_written ?s))"
    by (simp add: starts_def pb_istream_from_buffer_def len)
  have "bytes_written ?s - of_nat (length w) = 0" using of_nat_eqI [OF len] by simp
  then show ?thesis
    using assms(4) [OF st] ok by (simp add: transmit_def case_prod_beta Let_def pb_istream_from_buffer_def)
qed

definition decode_tag_pair :: "(unit, u32 \<times> u32) reader" where
  "decode_tag_pair s =
     (let (ok, w, n, eof, s') = pb_decode_tag s in (if ok then Some (w, n) else None, s'))"

text \<open>
  Property C29: what the scalar encoders write into a buffer the decoders read back, every byte of it:
  all 64-bit varints, all signed integers through zigzag, fixed 32- and 64-bit words, and every tag
  with a field number below 2^29 and a wire type below 8. Ten bytes of buffer are always enough.
\<close>

theorem scalar_roundtrip:
  assumes "10 \<le> unat n" and "unat n \<le> length buf"
    and "num \<noteq> 0" and "unat num < 2 ^ 29" and "unat wt < 8"
  shows "transmit (pb_encode_varint v) pb_decode_varint buf n = Some v \<and>
     transmit (pb_encode_svarint i) pb_decode_svarint buf n = Some i \<and>
     transmit (pb_encode_fixed32 w32) pb_decode_fixed32 buf n = Some w32 \<and>
     transmit (pb_encode_fixed64 w64) pb_decode_fixed64 buf n = Some w64 \<and>
     transmit (pb_encode_tag wt num) decode_tag_pair buf n = Some (wt, num)"
proof (intro conjI)
  have le: "length (varint_bytes x) \<le> unat n" for x
    using varint_bytes_length [of x] assms(1) by simp
  show "transmit (pb_encode_varint v) pb_decode_varint buf n = Some v"
    by (rule transmit_emits [OF buffer.emits_varint le assms(2) decode_varint_bytes])
  show "transmit (pb_encode_svarint i) pb_decode_svarint buf n = Some i"
    by (rule transmit_emits [OF buffer.emits_svarint le assms(2) decode_svarint_bytes])
  show "transmit (pb_encode_fixed32 w32) pb_decode_fixed32 buf n = Some w32"
    by (rule transmit_emits [OF buffer.emits_fixed32 _ assms(2) decode_fixed32_bytes])
      (use assms(1) in \<open>simp_all add: fixed32_bytes_def\<close>)
  show "transmit (pb_encode_fixed64 w64) pb_decode_fixed64 buf n = Some w64"
    by (rule transmit_emits [OF buffer.emits_fixed64 _ assms(2) decode_fixed64_bytes])
      (use assms(1) in \<open>simp_all add: fixed64_bytes_def\<close>)
  show "transmit (pb_encode_tag wt num) decode_tag_pair buf n = Some (wt, num)"
    by (rule transmit_emits [OF buffer.emits_tag le assms(2)])
      (drule decode_tag_bytes [OF _ assms(4,5,3)], simp add: decode_tag_pair_def)
qed

theorem scalar_roundtrip_witness:
  "transmit (pb_encode_svarint (- 5)) pb_decode_svarint (replicate 12 0) 10 = Some (- 5)"
  using scalar_roundtrip [of 10 "replicate 12 0" 1 PB_WT_VARINT 0 "- 5" 0 0]
  by (simp add: PB_WT_VARINT_def)

fun payload :: "u32 \<Rightarrow> u8 list \<Rightarrow> bool" where
  "payload wt w =
     ((wt = PB_WT_VARINT \<and> (\<exists>v. w = varint_bytes v)) \<or> (wt = PB_WT_64BIT \<and> length w = 8) \<or>
      (wt = PB_WT_32BIT \<and> length w = 4) \<or>
      (wt = PB_WT_STRING \<and>
       (\<exists>bs. length bs < 2 ^ 32 \<and> w = varint_bytes (of_nat (length bs)) @ bs)))"

lemma skip_payload:
  assumes "payload wt w" "starts w rest s"
  shows "pb_skip_field wt s = (Some (), advance (length w) rest s)"
proof -
  consider (v) v where "wt = PB_WT_VARINT" "w = varint_bytes v" | (l) "wt = PB_WT_64BIT" "length w = 8"
    | (q) "wt = PB_WT_32BIT" "length w = 4"
    | (str) bs where "wt = PB_WT_STRING" "length bs < 2 ^ 32"
        "w = varint_bytes (of_nat (length bs)) @ bs"
    using assms(1) by auto
  then show ?thesis
  proof cases
    case v
    then show ?thesis using skip_varint_bytes assms(2) by (simp add: pb_skip_field_def)
  next
    case l
    then show ?thesis using starts_read(2) [OF assms(2), of 8]
      by (simp add: pb_skip_field_def wire_type_defs)
  next
    case q
    then show ?thesis using starts_read(2) [OF assms(2), of 4]
      by (simp add: pb_skip_field_def wire_type_defs)
  next
    case str
    then show ?thesis using skip_string_bytes assms(2) by (simp add: pb_skip_field_def wire_type_defs)
  qed
qed

text \<open>
  Property C30: a field that is not wanted is skipped exactly. On a stream that starts with the
  payload of a field (a varint, eight or four bytes, or a length and so many bytes), skipping it succeeds
  and leaves the stream at the byte after it.
\<close>

theorem skip_field_exact:
  assumes "payload wt w" and "starts w rest s"
  shows "pb_skip_field wt s = (Some (), advance (length w) rest s)"
  using assms by (rule skip_payload)

theorem skip_field_exact_witness:
  "pb_skip_field PB_WT_32BIT (pb_istream_from_buffer [1, 2, 3, 4, 5, 6] 6 :: unit istream) =
     (Some (), pb_istream_from_buffer [5, 6] 2)"
  using skip_field_exact [of PB_WT_32BIT "[1, 2, 3, 4]" "[5, 6]" "pb_istream_from_buffer [1, 2, 3, 4, 5, 6] 6"]
  by (simp add: starts_def pb_istream_from_buffer_def advance_def)


end
