(* ===== verification/Pb_Fields.thy ===== *)
theory Pb_Fields
  imports Pb_Wire
begin

text \<open>
  Messages in memory (\<^verbatim>\<open>pb.h\<close>, \<^verbatim>\<open>pb_common.c\<close>): the field descriptors, the memory a message's
  structure lives in, and the iterator that walks the descriptors and the structure side by side.
  Memory is a function from 64-bit addresses to bytes, little-endian. An array of descriptors is
  the list of its entries before the terminator.
\<close>

section \<open>Memory\<close>

type_synonym memory = "u64 \<Rightarrow> u8"

fun load :: "memory \<Rightarrow> u64 \<Rightarrow> nat \<Rightarrow> u8 list" where
  "load m a 0 = []"
| "load m a (Suc n) = m a # load m (a + 1) n"

definition load16 :: "memory \<Rightarrow> u64 \<Rightarrow> u16" where
  "load16 m a = ucast (m a) OR push_bit 8 (ucast (m (a + 1)))"

definition load32 :: "memory \<Rightarrow> u64 \<Rightarrow> u32" where
  "load32 m a = ucast (load16 m a) OR push_bit 16 (ucast (load16 m (a + 2)))"

definition load64 :: "memory \<Rightarrow> u64 \<Rightarrow> u64" where
  "load64 m a = ucast (load32 m a) OR push_bit 32 (ucast (load32 m (a + 4)))"

lemma length_load [simp]: "length (load m a n) = n"
  by (induction n arbitrary: a) simp_all

section \<open>Field descriptors\<close>

definition PB_LTYPE_BOOL :: u8 where "PB_LTYPE_BOOL = 0"
definition PB_LTYPE_VARINT :: u8 where "PB_LTYPE_VARINT = 1"
definition PB_LTYPE_UVARINT :: u8 where "PB_LTYPE_UVARINT = 2"
definition PB_LTYPE_SVARINT :: u8 where "PB_LTYPE_SVARINT = 3"
definition PB_LTYPE_FIXED32 :: u8 where "PB_LTYPE_FIXED32 = 4"
definition PB_LTYPE_FIXED64 :: u8 where "PB_LTYPE_FIXED64 = 5"
definition PB_LTYPE_LAST_PACKABLE :: u8 where "PB_LTYPE_LAST_PACKABLE = 5"
definition PB_LTYPE_BYTES :: u8 where "PB_LTYPE_BYTES = 6"
definition PB_LTYPE_STRING :: u8 where "PB_LTYPE_STRING = 7"
definition PB_LTYPE_SUBMESSAGE :: u8 where "PB_LTYPE_SUBMESSAGE = 8"
definition PB_LTYPE_EXTENSION :: u8 where "PB_LTYPE_EXTENSION = 9"
definition PB_LTYPE_FIXED_LENGTH_BYTES :: u8 where "PB_LTYPE_FIXED_LENGTH_BYTES = 10"
definition PB_HTYPE_REQUIRED :: u8 where "PB_HTYPE_REQUIRED = 0x00"
definition PB_HTYPE_OPTIONAL :: u8 where "PB_HTYPE_OPTIONAL = 0x10"
definition PB_HTYPE_REPEATED :: u8 where "PB_HTYPE_REPEATED = 0x20"
definition PB_HTYPE_ONEOF :: u8 where "PB_HTYPE_ONEOF = 0x30"
definition PB_ATYPE_STATIC :: u8 where "PB_ATYPE_STATIC = 0x00"
definition PB_ATYPE_CALLBACK :: u8 where "PB_ATYPE_CALLBACK = 0x40"
definition PB_ATYPE_POINTER :: u8 where "PB_ATYPE_POINTER = 0x80"
definition PB_SIZE_MAX :: u32 where "PB_SIZE_MAX = 0xFFFFFFFF"

definition PB_LTYPE :: "u8 \<Rightarrow> u8" where "PB_LTYPE x = x AND 0x0F"
definition PB_HTYPE :: "u8 \<Rightarrow> u8" where "PB_HTYPE x = x AND 0x30"
definition PB_ATYPE :: "u8 \<Rightarrow> u8" where "PB_ATYPE x = x AND 0xC0"

lemmas ltype_defs = PB_LTYPE_BOOL_def PB_LTYPE_VARINT_def PB_LTYPE_UVARINT_def PB_LTYPE_SVARINT_def
  PB_LTYPE_FIXED32_def PB_LTYPE_FIXED64_def PB_LTYPE_LAST_PACKABLE_def PB_LTYPE_BYTES_def
  PB_LTYPE_STRING_def PB_LTYPE_SUBMESSAGE_def PB_LTYPE_EXTENSION_def PB_LTYPE_FIXED_LENGTH_BYTES_def
lemmas htype_defs = PB_HTYPE_REQUIRED_def PB_HTYPE_OPTIONAL_def PB_HTYPE_REPEATED_def
  PB_HTYPE_ONEOF_def
lemmas atype_defs = PB_ATYPE_STATIC_def PB_ATYPE_CALLBACK_def PB_ATYPE_POINTER_def

text \<open>
  \<open>ptr\<close> is the number of the descriptor array a submessage field points to; the default values it
  may point to otherwise are never looked at by the encoder. \<open>size_offset\<close> is signed.
\<close>

record pb_field =
  tag :: u32
  ftype :: u8
  data_offset :: u32
  size_offset :: u32
  data_size :: u32
  array_size :: u32
  ptr :: "nat option"

definition PB_LAST_FIELD :: pb_field where
  "PB_LAST_FIELD =
     \<lparr>tag = 0, ftype = 0, data_offset = 0, size_offset = 0, data_size = 0, array_size = 0,
      ptr = None\<rparr>"

definition field_at :: "pb_field list \<Rightarrow> nat \<Rightarrow> pb_field" where
  "field_at fs i = (if i < length fs then fs ! i else PB_LAST_FIELD)"

section \<open>The iterator\<close>

record pb_field_iter =
  start :: "pb_field list"
  pos :: nat
  required_field_index :: u32
  dest_struct :: u64
  pData :: u64
  pSize :: u64

abbreviation cur :: "pb_field_iter \<Rightarrow> pb_field" where
  "cur it \<equiv> field_at (start it) (pos it)"

definition pb_field_iter_begin :: "pb_field list \<Rightarrow> u64 \<Rightarrow> bool \<times> pb_field_iter" where
  "pb_field_iter_begin fs dest =
     (let f = field_at fs 0;
          d = (if dest = 0 then 0 else dest + ucast (data_offset f));
          z = (if dest = 0 then 0 else d + scast (size_offset f))
      in (tag f \<noteq> 0,
          \<lparr>start = fs, pos = 0, required_field_index = 0, dest_struct = dest, pData = d, pSize = z\<rparr>))"

definition pb_field_iter_next :: "pb_field_iter \<Rightarrow> bool \<times> pb_field_iter" where
  "pb_field_iter_next it =
     (let prev_field = cur it
      in if tag prev_field = 0 then (False, it)
         else let it = it\<lparr>pos := pos it + 1\<rparr>
              in if tag (cur it) = 0
                 then (False, snd (pb_field_iter_begin (start it) (dest_struct it)))
                 else if PB_HTYPE (ftype prev_field) = PB_HTYPE_ONEOF \<and>
                         PB_HTYPE (ftype (cur it)) = PB_HTYPE_ONEOF \<and>
                         data_offset (cur it) = PB_SIZE_MAX
                 then (True, it)
                 else let prev_size =
                            (if PB_ATYPE (ftype prev_field) = PB_ATYPE_STATIC \<and>
                                PB_HTYPE (ftype prev_field) = PB_HTYPE_REPEATED
                             then ucast (data_size prev_field) * ucast (array_size prev_field)
                             else if PB_ATYPE (ftype prev_field) = PB_ATYPE_POINTER then 8
                             else ucast (data_size prev_field));
                          it = (if PB_HTYPE (ftype prev_field) = PB_HTYPE_REQUIRED
                                then it\<lparr>required_field_index := required_field_index it + 1\<rparr> else it);
                          d = pData it + prev_size + ucast (data_offset (cur it))
                      in (True, it\<lparr>pData := d, pSize := d + scast (size_offset (cur it))\<rparr>))"

text \<open>The search loop; \<open>n\<close> bounds its steps, \<open>None\<close> when they do not suffice.\<close>

fun find_loop :: "nat \<Rightarrow> nat \<Rightarrow> u32 \<Rightarrow> pb_field_iter \<Rightarrow> (bool \<times> pb_field_iter) option" where
  "find_loop 0 s0 t it = None"
| "find_loop (Suc n) s0 t it =
     (if tag (cur it) = t \<and> PB_LTYPE (ftype (cur it)) \<noteq> PB_LTYPE_EXTENSION then Some (True, it)
      else let it = snd (pb_field_iter_next it)
           in if pos it \<noteq> s0 then find_loop n s0 t it else Some (False, it))"

definition pb_field_iter_find :: "u32 \<Rightarrow> pb_field_iter \<Rightarrow> (bool \<times> pb_field_iter) option" where
  "pb_field_iter_find t it = find_loop (length (start it) + 1) (pos it) t it"

section \<open>What the iterator does\<close>

definition fields_wf :: "pb_field list \<Rightarrow> bool" where
  "fields_wf fs \<longleftrightarrow> list_all (\<lambda>f. tag f \<noteq> 0) fs"

lemma tag_field_at: "fields_wf fs \<Longrightarrow> tag (field_at fs i) = 0 \<longleftrightarrow> length fs \<le> i"
  by (auto simp: fields_wf_def field_at_def PB_LAST_FIELD_def list_all_length)

lemma begin_fields [simp]:
  "start (snd (pb_field_iter_begin fs a)) = fs" "pos (snd (pb_field_iter_begin fs a)) = 0"
  "dest_struct (snd (pb_field_iter_begin fs a)) = a"
  by (simp_all add: pb_field_iter_begin_def Let_def)

lemma next_fields [simp]:
  "start (snd (pb_field_iter_next it)) = start it"
  "dest_struct (snd (pb_field_iter_next it)) = dest_struct it"
  by (simp_all add: pb_field_iter_next_def Let_def)

lemma next_pos:
  assumes "fields_wf (start it)" "pos it < length (start it)"
  shows "fst (pb_field_iter_next it) \<longleftrightarrow> pos it + 1 < length (start it)"
    "pos (snd (pb_field_iter_next it)) =
       (if pos it + 1 < length (start it) then pos it + 1 else 0)"
  using tag_field_at [OF assms(1)] assms(2) by (auto simp: pb_field_iter_next_def Let_def)

lemma next_begin:
  assumes "fields_wf (start it)" "pos it < length (start it)" "\<not> fst (pb_field_iter_next it)"
  shows "snd (pb_field_iter_next it) = snd (pb_field_iter_begin (start it) (dest_struct it))"
  using tag_field_at [OF assms(1)] assms(2,3)
  by (auto simp: pb_field_iter_next_def Let_def split: if_splits)

definition wanted :: "u32 \<Rightarrow> pb_field \<Rightarrow> bool" where
  "wanted t f \<longleftrightarrow> tag f = t \<and> PB_LTYPE (ftype f) \<noteq> PB_LTYPE_EXTENSION"

text \<open>
  The positions a search that has reached position \<open>p\<close> still looks at when it started at \<open>s\<close>.
\<close>

fun ahead :: "nat \<Rightarrow> nat \<Rightarrow> nat \<Rightarrow> nat list" where
  "ahead len s p = (if s \<le> p then [p..<len] @ [0..<s] else [p..<s])"

lemma ahead_step:
  "p < len \<Longrightarrow> s < len \<Longrightarrow>
     ahead len s p = p # (let q = (if p + 1 < len then p + 1 else 0) in if q = s then [] else ahead len s q)"
  by (auto simp: Let_def upt_conv_Cons not_less le_Suc_eq)

declare ahead.simps [simp del]

lemma find_loop_searches:
  assumes "fields_wf (start it)" "pos it < length (start it)" "s < length (start it)"
    and "length (ahead (length (start it)) s (pos it)) < n"
  shows "\<exists>it'. find_loop n s t it =
        Some (\<exists>i \<in> set (ahead (length (start it)) s (pos it)). wanted t (start it ! i), it') \<and>
      start it' = start it \<and> pos it' < length (start it) \<and>
      ((\<exists>i \<in> set (ahead (length (start it)) s (pos it)). wanted t (start it ! i)) \<longrightarrow> wanted t (cur it'))"
  using assms
proof (induction n arbitrary: it)
  case (Suc n)
  let ?len = "length (start it)" and ?p = "pos it"
  let ?it = "snd (pb_field_iter_next it)"
  let ?q = "if ?p + 1 < ?len then ?p + 1 else 0"
  have c: "cur it = start it ! ?p" using Suc.prems(2) by (simp add: field_at_def)
  have q: "pos ?it = ?q" "?q < ?len" using next_pos(2) [OF Suc.prems(1,2)] Suc.prems(2) by auto
  note ah = ahead_step [OF Suc.prems(2,3)]
  show ?case
  proof (cases "wanted t (start it ! ?p)")
    case True
    then show ?thesis
      using Suc.prems(2) c unfolding ah by (auto simp: wanted_def)
  next
    case w: False
    show ?thesis
    proof (cases "?q = s")
      case True
      then show ?thesis using w c q Suc.prems unfolding ah by (auto simp: wanted_def)
    next
      case False
      then have "length (ahead ?len s ?q) < n" using Suc.prems(4) unfolding ah by (simp add: Let_def)
      then have "\<exists>it'. find_loop n s t ?it =
            Some (\<exists>i \<in> set (ahead ?len s ?q). wanted t (start it ! i), it') \<and>
          start it' = start it \<and> pos it' < ?len \<and>
          ((\<exists>i \<in> set (ahead ?len s ?q). wanted t (start it ! i)) \<longrightarrow> wanted t (cur it'))"
        using Suc.IH [of ?it] Suc.prems(1,3) q by simp
      moreover have "find_loop (Suc n) s t it = find_loop n s t ?it"
        using w c q False by (auto simp: wanted_def Let_def)
      moreover have "(\<exists>i \<in> set (ahead ?len s ?p). wanted t (start it ! i)) \<longleftrightarrow>
          (\<exists>i \<in> set (ahead ?len s ?q). wanted t (start it ! i))"
        using w False unfolding ah by (simp add: Let_def)
      ultimately show ?thesis by simp
    qed
  qed
qed simp

text \<open>
  Property C32: finding a field by its tag always ends and is complete: from any position of a descriptor array the search returns,
  it succeeds exactly when the array has a field with the tag that is no extension, and then stands on such a
  field.
\<close>

theorem iter_find_complete:
  assumes "fields_wf (start it)" and "pos it < length (start it)"
  shows "\<exists>it'. pb_field_iter_find t it = Some (list_ex (wanted t) (start it), it') \<and>
     (list_ex (wanted t) (start it) \<longrightarrow> wanted t (cur it'))"
proof -
  let ?a = "ahead (length (start it)) (pos it) (pos it)"
  have set: "set ?a = {0..<length (start it)}" using assms(2) by (auto simp: ahead.simps)
  have len: "length ?a < length (start it) + 1" using assms(2) by (simp add: ahead.simps)
  have "(\<exists>i \<in> set ?a. wanted t (start it ! i)) = list_ex (wanted t) (start it)"
    unfolding set by (auto simp: list_ex_length)
  then show ?thesis
    using find_loop_searches [OF assms assms(2) len, of t] unfolding pb_field_iter_find_def by auto
qed

definition two_fields :: "pb_field list" where
  "two_fields = [PB_LAST_FIELD\<lparr>tag := 1, ftype := 1, data_size := 4\<rparr>,
                 PB_LAST_FIELD\<lparr>tag := 7, ftype := 1, data_size := 8, data_offset := 4\<rparr>]"

theorem iter_find_complete_witness:
  "map_option fst (pb_field_iter_find 7 (snd (pb_field_iter_begin two_fields 4096))) = Some True"
  using iter_find_complete [of "snd (pb_field_iter_begin two_fields 4096)" 7]
  by (auto simp: two_fields_def fields_wf_def wanted_def PB_LTYPE_def PB_LTYPE_EXTENSION_def
      PB_LAST_FIELD_def)

end
