(* ===== verification/Pb_Encode.thy ===== *)
theory Pb_Encode
  imports Pb_Fields
begin

text \<open>
  The message encoder (\<^verbatim>\<open>pb_encode.c\<close> from \<open>encode_array\<close> on): fields of every allocation, kind
  and type, packed arrays, submessages, extensions and callbacks, over a structure in memory. A
  submessage is encoded twice, first to count its length. Encoding a message calls itself on its
  submessages, so the entry point has a bound on the nesting; the result is \<open>None\<close> when it is
  exceeded and where the code would call a null encoder, read a field descriptor through a null
  pointer or read a count where only a flag is.
\<close>

section \<open>Runs\<close>

text \<open>
  A step answers whether it succeeded, with the state it leaves; \<open>None\<close> when the code has no behaviour.
\<close>

type_synonym 't step = "'t \<Rightarrow> (bool \<times> 't) option"

type_synonym 's run = "'s ostream step"

definition lift :: "'s writer \<Rightarrow> 's run" where
  "lift f s = Some (f s)"

definition stuck :: "'t step" where
  "stuck s = None"

text \<open>\<open>if (!f(stream)) return false;\<close> followed by \<open>g\<close>.\<close>

definition rseq :: "'t step \<Rightarrow> 't step \<Rightarrow> 't step" where
  "rseq f g s = (case f s of None \<Rightarrow> None | Some (ok, s') \<Rightarrow> if ok then g s' else Some (False, s'))"

definition okay :: "'t step" where
  "okay s = Some (True, s)"

text \<open>What a message is made of, besides its own memory.\<close>

record 's world =
  memory :: memory
  arrays :: "nat \<Rightarrow> pb_field list"
  user :: "u64 \<Rightarrow> pb_field \<Rightarrow> u64 \<Rightarrow> 's run"
  ext_user :: "u64 \<Rightarrow> u64 \<Rightarrow> 's run"
  ext_field :: "u64 \<Rightarrow> pb_field"

section \<open>Field encoders\<close>

definition pb_encode_tag_for_field :: "pb_field \<Rightarrow> 's writer" where
  "pb_encode_tag_for_field f =
     (let t = PB_LTYPE (ftype f)
      in if t = PB_LTYPE_BOOL \<or> t = PB_LTYPE_VARINT \<or> t = PB_LTYPE_UVARINT \<or> t = PB_LTYPE_SVARINT
         then pb_encode_tag PB_WT_VARINT (tag f)
         else if t = PB_LTYPE_FIXED32 then pb_encode_tag PB_WT_32BIT (tag f)
         else if t = PB_LTYPE_FIXED64 then pb_encode_tag PB_WT_64BIT (tag f)
         else if t = PB_LTYPE_BYTES \<or> t = PB_LTYPE_STRING \<or> t = PB_LTYPE_SUBMESSAGE \<or>
                 t = PB_LTYPE_FIXED_LENGTH_BYTES
         then pb_encode_tag PB_WT_STRING (tag f)
         else ofail ''invalid field type'')"

text \<open>\<open>sizeof(bool)\<close> is one.\<close>

definition safe_read_bool :: "memory \<Rightarrow> u64 \<Rightarrow> bool" where
  "safe_read_bool m a \<longleftrightarrow> m a \<noteq> 0"

definition pb_enc_bool :: "memory \<Rightarrow> u64 \<Rightarrow> 's writer" where
  "pb_enc_bool m src = pb_encode_varint (if safe_read_bool m src then 1 else 0)"

definition load_signed :: "memory \<Rightarrow> u32 \<Rightarrow> u64 \<Rightarrow> u64 option" where
  "load_signed m w a =
     (if w = 1 then Some (scast (m a))
      else if w = 2 then Some (scast (load16 m a))
      else if w = 4 then Some (scast (load32 m a))
      else if w = 8 then Some (load64 m a)
      else None)"

definition pb_enc_varint :: "memory \<Rightarrow> pb_field \<Rightarrow> u64 \<Rightarrow> 's writer" where
  "pb_enc_varint m f src =
     (case load_signed m (data_size f) src of
        Some value \<Rightarrow> pb_encode_varint value
      | None \<Rightarrow> ofail ''invalid data_size'')"

definition pb_enc_uvarint :: "memory \<Rightarrow> pb_field \<Rightarrow> u64 \<Rightarrow> 's writer" where
  "pb_enc_uvarint m f src =
     (if data_size f = 1 then pb_encode_varint (ucast (m src))
      else if data_size f = 2 then pb_encode_varint (ucast (load16 m src))
      else if data_size f = 4 then pb_encode_varint (ucast (load32 m src))
      else if data_size f = 8 then pb_encode_varint (load64 m src)
      else ofail ''invalid data_size'')"

definition pb_enc_svarint :: "memory \<Rightarrow> pb_field \<Rightarrow> u64 \<Rightarrow> 's writer" where
  "pb_enc_svarint m f src =
     (case load_signed m (data_size f) src of
        Some value \<Rightarrow> pb_encode_svarint value
      | None \<Rightarrow> ofail ''invalid data_size'')"

definition pb_enc_fixed32 :: "memory \<Rightarrow> u64 \<Rightarrow> 's writer" where
  "pb_enc_fixed32 m src = pb_encode_fixed32 (load32 m src)"

definition pb_enc_fixed64 :: "memory \<Rightarrow> u64 \<Rightarrow> 's writer" where
  "pb_enc_fixed64 m src = pb_encode_fixed64 (load64 m src)"

definition pb_enc_bytes :: "memory \<Rightarrow> pb_field \<Rightarrow> u64 \<Rightarrow> 's writer" where
  "pb_enc_bytes m f src =
     (if src = 0 then pb_encode_string [] 0
      else if PB_ATYPE (ftype f) = PB_ATYPE_STATIC \<and>
              ucast (data_size f) - 4 < (ucast (load32 m src) :: u64)
      then ofail ''bytes size exceeded''
      else pb_encode_string (load m (src + 4) (unat (load32 m src))) (ucast (load32 m src)))"

text \<open>The bounded \<^verbatim>\<open>strlen\<close>, counting from \<open>n\<close>.\<close>

lemma unat_inc: "n < (limit :: 'a :: len word) \<Longrightarrow> unat (n + 1) = unat n + 1"
  by (metis Suc_eq_plus1 less_le_not_le unatSuc word_n1_ge max_word_max word_not_simps add.commute
      max_word_wrap add_uminus_conv_diff)

function string_size :: "memory \<Rightarrow> u64 \<Rightarrow> u64 \<Rightarrow> u64 \<Rightarrow> u64" where
  "string_size m limit p n =
     (if n < limit \<and> m p \<noteq> 0 then string_size m limit (p + 1) (n + 1) else n)"
  by auto
termination
  by (relation "measure (\<lambda>(m, limit, p, n). unat limit - unat n)")
    (auto simp: word_less_nat_alt unat_inc)

declare string_size.simps [simp del]

definition pb_enc_string :: "memory \<Rightarrow> pb_field \<Rightarrow> u64 \<Rightarrow> 's writer" where
  "pb_enc_string m f src =
     (let limit = (if PB_ATYPE (ftype f) = PB_ATYPE_POINTER then - 1 else ucast (data_size f));
          size = (if src = 0 then 0 else string_size m limit src 0)
      in pb_encode_string (load m src (unat size)) size)"

definition pb_enc_fixed_length_bytes :: "memory \<Rightarrow> pb_field \<Rightarrow> u64 \<Rightarrow> 's writer" where
  "pb_enc_fixed_length_bytes m f src =
     pb_encode_string (load m src (unat (data_size f))) (ucast (data_size f))"

section \<open>Submessages\<close>

text \<open>\<open>msg\<close> encodes the message; \<^verbatim>\<open>pb_encode_submessage\<close> runs it on two streams.\<close>

definition pb_encode_submessage :: "'s run \<Rightarrow> 's run" where
  "pb_encode_submessage msg s =
     (case msg (sizing_stream (ostate s)) of
        None \<Rightarrow> None
      | Some (False, sub) \<Rightarrow> Some (False, s\<lparr>o_errmsg := o_errmsg sub\<rparr>)
      | Some (True, sub) \<Rightarrow>
          (let size = bytes_written sub
           in rseq (lift (pb_encode_varint size)) (\<lambda>s.
                if ocallback s = None then Some (pb_write [] size s)
                else if max_size s < bytes_written s + size then Some (ofail ''stream full'' s)
                else (case msg \<lparr>ocallback = ocallback s, ostate = ostate s, max_size = size,
                                bytes_written = 0, o_errmsg = None\<rparr> of
                        None \<Rightarrow> None
                      | Some (status, sub) \<Rightarrow>
                          (let s = s\<lparr>bytes_written := bytes_written s + bytes_written sub,
                                     ostate := ostate sub, o_errmsg := o_errmsg sub\<rparr>
                           in if bytes_written sub \<noteq> size
                              then Some (ofail ''submsg size changed'' s)
                              else Some (status, s)))) s))"

definition pb_enc_submessage ::
  "'s world \<Rightarrow> (pb_field list \<Rightarrow> u64 \<Rightarrow> 's run) \<Rightarrow> pb_field \<Rightarrow> u64 \<Rightarrow> 's run" where
  "pb_enc_submessage w msg f src =
     (case ptr f of
        None \<Rightarrow> lift (ofail ''invalid field descriptor'')
      | Some i \<Rightarrow> pb_encode_submessage (msg (arrays w i) src))"

text \<open>
  The encoder of a field's type: the table \<^verbatim>\<open>PB_ENCODERS\<close>, with \<open>msg\<close> for the encoder of
  submessages.
\<close>

definition field_encoder ::
  "'s world \<Rightarrow> (pb_field list \<Rightarrow> u64 \<Rightarrow> 's run) \<Rightarrow> pb_field \<Rightarrow> u64 \<Rightarrow> 's run" where
  "field_encoder w msg f src =
     (let t = PB_LTYPE (ftype f); m = memory w
      in if t = PB_LTYPE_BOOL then lift (pb_enc_bool m src)
         else if t = PB_LTYPE_VARINT then lift (pb_enc_varint m f src)
         else if t = PB_LTYPE_UVARINT then lift (pb_enc_uvarint m f src)
         else if t = PB_LTYPE_SVARINT then lift (pb_enc_svarint m f src)
         else if t = PB_LTYPE_FIXED32 then lift (pb_enc_fixed32 m src)
         else if t = PB_LTYPE_FIXED64 then lift (pb_enc_fixed64 m src)
         else if t = PB_LTYPE_BYTES then lift (pb_enc_bytes m f src)
         else if t = PB_LTYPE_STRING then lift (pb_enc_string m f src)
         else if t = PB_LTYPE_SUBMESSAGE
         then pb_enc_submessage w msg f src
         else if t = PB_LTYPE_FIXED_LENGTH_BYTES then lift (pb_enc_fixed_length_bytes m f src)
         else stuck)"

section \<open>Arrays\<close>

text \<open>\<open>n\<close> items from \<open>p\<close> on, \<open>step\<close> bytes apart.\<close>

fun each :: "(u64 \<Rightarrow> 's run) \<Rightarrow> nat \<Rightarrow> u64 \<Rightarrow> u64 \<Rightarrow> 's run" where
  "each enc 0 step p s = okay s"
| "each enc (Suc n) step p s = rseq (enc p) (each enc n step (p + step)) s"

text \<open>The length of a packed array, by its type or by a pass that only counts, and what follows the tag.\<close>

definition packed_size :: "'s run \<Rightarrow> pb_field \<Rightarrow> u32 \<Rightarrow> 's \<Rightarrow> (bool \<times> u64) option" where
  "packed_size items f count st =
     (let t = PB_LTYPE (ftype f)
      in if t = PB_LTYPE_FIXED32 then Some (True, 4 * ucast count)
         else if t = PB_LTYPE_FIXED64 then Some (True, 8 * ucast count)
         else map_option (\<lambda>(ok, z). (ok, bytes_written z)) (items (sizing_stream st)))"

definition packed_data :: "u64 \<Rightarrow> 's run \<Rightarrow> 's run" where
  "packed_data n items =
     rseq (lift (pb_encode_varint n))
       (\<lambda>s. if ocallback s = None then Some (pb_write [] n s) else items s)"

definition encode_array ::
  "'s world \<Rightarrow> (u64 \<Rightarrow> 's run) \<Rightarrow> pb_field \<Rightarrow> u64 \<Rightarrow> u32 \<Rightarrow> 's run" where
  "encode_array w enc f p count s =
     (let t = PB_LTYPE (ftype f); pointer = (PB_ATYPE (ftype f) = PB_ATYPE_POINTER);
          array = (\<lambda>item. each item (unat count) (ucast (data_size f)) p)
      in if count = 0 then okay s
         else if \<not> pointer \<and> array_size f < count
         then Some (ofail ''array max size exceeded'' s)
         else if t \<le> PB_LTYPE_LAST_PACKABLE
         then rseq (lift (pb_encode_tag PB_WT_STRING (tag f))) (\<lambda>s.
                case packed_size (array enc) f count (ostate s) of
                  None \<Rightarrow> None
                | Some (False, _) \<Rightarrow> Some (False, s)
                | Some (True, n) \<Rightarrow> packed_data n (array enc) s) s
         else array (\<lambda>p. rseq (lift (pb_encode_tag_for_field f))
                (if pointer \<and> (t = PB_LTYPE_STRING \<or> t = PB_LTYPE_BYTES)
                 then enc (load64 (memory w) p) else enc p)) s)"

section \<open>Default values of proto3\<close>

text \<open>The bytes of a value are all zero.\<close>

definition all_zero :: "memory \<Rightarrow> u64 \<Rightarrow> nat \<Rightarrow> bool" where
  "all_zero m a n = list_all (\<lambda>b. b = 0) (load m a n)"

text \<open>
  The check of one field; \<open>sub\<close> checks the fields of a submessage. A repeated or oneof field that has no
  counter but is allocated through a pointer falls through to the other cases.
\<close>

definition default_value ::
  "'s world \<Rightarrow> (pb_field list \<Rightarrow> u64 \<Rightarrow> bool option) \<Rightarrow> pb_field \<Rightarrow> u64 \<Rightarrow> bool option" where
  "default_value w sub f dat =
     (let h = PB_HTYPE (ftype f); a = PB_ATYPE (ftype f); t = PB_LTYPE (ftype f); m = memory w;
          pSize = dat + scast (size_offset f)
      in if h = PB_HTYPE_REQUIRED then Some False
         else if h = PB_HTYPE_REPEATED \<and> size_offset f \<noteq> 0 then Some (load32 m pSize = 0)
         else if h = PB_HTYPE_REPEATED \<and> a = PB_ATYPE_STATIC then Some False
         else if h = PB_HTYPE_ONEOF then Some (load32 m pSize = 0)
         else if h = PB_HTYPE_OPTIONAL \<and> size_offset f \<noteq> 0
         then Some (\<not> safe_read_bool m pSize)
         else if a = PB_ATYPE_STATIC \<and> t = PB_LTYPE_BYTES then Some (load32 m dat = 0)
         else if a = PB_ATYPE_STATIC \<and> t = PB_LTYPE_STRING then Some (m dat = 0)
         else if a = PB_ATYPE_STATIC \<and> t = PB_LTYPE_FIXED_LENGTH_BYTES
         then Some (data_size f = 0)
         else if a = PB_ATYPE_STATIC \<and> t = PB_LTYPE_SUBMESSAGE
         then (case ptr f of None \<Rightarrow> None | Some i \<Rightarrow> sub (arrays w i) dat)
         else if a = PB_ATYPE_POINTER \<and> PB_LTYPE_LAST_PACKABLE < t
         then Some (load64 m dat = 0)
         else Some (all_zero m dat (unat (data_size f))))"

text \<open>The loop over the fields of a structure, at most \<open>n\<close> of them.\<close>

fun default_loop :: "(pb_field \<Rightarrow> u64 \<Rightarrow> bool option) \<Rightarrow> nat \<Rightarrow> pb_field_iter \<Rightarrow> bool option" where
  "default_loop chk 0 it = None"
| "default_loop chk (Suc n) it =
     (case chk (cur it) (pData it) of
        None \<Rightarrow> None
      | Some False \<Rightarrow> Some False
      | Some True \<Rightarrow>
          (let (more, it) = pb_field_iter_next it
           in if more then default_loop chk n it else Some True))"

fun default_message :: "'s world \<Rightarrow> nat \<Rightarrow> pb_field list \<Rightarrow> u64 \<Rightarrow> bool option" where
  "default_message w 0 fs p = None"
| "default_message w (Suc n) fs p =
     (let (some, it) = pb_field_iter_begin fs p
      in if some then default_loop (default_value w (default_message w n)) (length fs) it
         else Some True)"

definition pb_check_proto3_default_value :: "'s world \<Rightarrow> nat \<Rightarrow> pb_field \<Rightarrow> u64 \<Rightarrow> bool option" where
  "pb_check_proto3_default_value w n = default_value w (default_message w n)"
section \<open>Encoding a field\<close>

text \<open>
  \<open>n\<close> bounds the depth of the default value check, \<open>enc\<close> is the encoder of the field's type. A oneof
  without a counter would be compared with a flag.
\<close>

definition encode_basic_field ::
  "'s world \<Rightarrow> nat \<Rightarrow> (u64 \<Rightarrow> 's run) \<Rightarrow> pb_field \<Rightarrow> u64 \<Rightarrow> 's run" where
  "encode_basic_field w n enc f p s =
     (let h = PB_HTYPE (ftype f); m = memory w; q = p + scast (size_offset f);
          present = rseq (lift (pb_encode_tag_for_field f))
      in case (if size_offset f \<noteq> 0 then Some True
               else if h = PB_HTYPE_OPTIONAL
               then map_option Not (pb_check_proto3_default_value w n f p)
               else Some True) of
           None \<Rightarrow> None
         | Some implicit_has \<Rightarrow>
             (let pointer = (PB_ATYPE (ftype f) = PB_ATYPE_POINTER);
                  dat = (if pointer then load64 m p else p);
                  implicit_has = (if pointer then dat \<noteq> 0 else implicit_has)
              in if h = PB_HTYPE_REQUIRED
                 then if dat = 0 then Some (ofail ''missing required field'' s)
                      else present (enc dat) s
                 else if h = PB_HTYPE_OPTIONAL
                 then if (if size_offset f \<noteq> 0 then safe_read_bool m q else implicit_has)
                      then present (enc dat) s else okay s
                 else if h = PB_HTYPE_REPEATED
                 then encode_array w enc f dat
                        (if size_offset f \<noteq> 0 then load32 m q else array_size f) s
                 else if h = PB_HTYPE_ONEOF
                 then if size_offset f = 0 then None
                      else if load32 m q = tag f then present (enc dat) s else okay s
                 else Some (ofail ''invalid field type'' s)))"

text \<open>The callback is two pointers: a function and its argument, passed by address.\<close>

definition encode_callback_field :: "'s world \<Rightarrow> pb_field \<Rightarrow> u64 \<Rightarrow> 's run" where
  "encode_callback_field w f p s =
     (let fn = load64 (memory w) p
      in if fn = 0 then okay s
         else case user w fn f (p + 8) s of
                None \<Rightarrow> None
              | Some (ok, s') \<Rightarrow> if ok then Some (True, s') else Some (ofail ''callback error'' s'))"

definition encode_field ::
  "'s world \<Rightarrow> nat \<Rightarrow> (pb_field list \<Rightarrow> u64 \<Rightarrow> 's run) \<Rightarrow> pb_field \<Rightarrow> u64 \<Rightarrow> 's run" where
  "encode_field w n msg f p s =
     (let a = PB_ATYPE (ftype f)
      in if a = PB_ATYPE_STATIC \<or> a = PB_ATYPE_POINTER
         then encode_basic_field w n (field_encoder w msg f) f p s
         else if a = PB_ATYPE_CALLBACK then encode_callback_field w f p s
         else Some (ofail ''invalid field type'' s))"

section \<open>Extensions\<close>

text \<open>
  An extension is four words: its type, the destination, the next extension and a flag. Its type is
  three: the decoder, the encoder and an argument, which the default encoder takes for a field.
\<close>

definition default_extension_encoder ::
  "'s world \<Rightarrow> nat \<Rightarrow> (pb_field list \<Rightarrow> u64 \<Rightarrow> 's run) \<Rightarrow> u64 \<Rightarrow> 's run" where
  "default_extension_encoder w n msg ext s =
     (let m = memory w; f = ext_field w (load64 m (load64 m ext + 16))
      in if PB_ATYPE (ftype f) = PB_ATYPE_POINTER
         then encode_field w n msg f (ext + 8) s
         else encode_field w n msg f (load64 m (ext + 8)) s)"

fun extension_loop ::
  "'s world \<Rightarrow> nat \<Rightarrow> (pb_field list \<Rightarrow> u64 \<Rightarrow> 's run) \<Rightarrow> nat \<Rightarrow> u64 \<Rightarrow> 's run" where
  "extension_loop w n msg 0 ext s = (if ext = 0 then okay s else None)"
| "extension_loop w n msg (Suc k) ext s =
     (if ext = 0 then okay s
      else let m = memory w; fn = load64 m (load64 m ext + 8)
           in rseq (if fn \<noteq> 0 then ext_user w fn ext else default_extension_encoder w n msg ext)
                (extension_loop w n msg k (load64 m (ext + 16))) s)"

text \<open>The list may have as many extensions as the message may be deep.\<close>

definition encode_extension_field ::
  "'s world \<Rightarrow> nat \<Rightarrow> (pb_field list \<Rightarrow> u64 \<Rightarrow> 's run) \<Rightarrow> u64 \<Rightarrow> 's run" where
  "encode_extension_field w n msg p = extension_loop w n msg n (load64 (memory w) p)"

section \<open>Encoding a message\<close>

text \<open>The loop over the fields, at most \<open>k\<close> of them.\<close>

fun fields_loop :: "(pb_field \<Rightarrow> u64 \<Rightarrow> 's run) \<Rightarrow> nat \<Rightarrow> pb_field_iter \<Rightarrow> 's run" where
  "fields_loop enc 0 it s = None"
| "fields_loop enc (Suc k) it s =
     rseq (enc (cur it) (pData it))
       (let (more, it) = pb_field_iter_next it in if more then fields_loop enc k it else okay) s"

fun pb_encode :: "'s world \<Rightarrow> nat \<Rightarrow> pb_field list \<Rightarrow> u64 \<Rightarrow> 's run" where
  "pb_encode w 0 fs p s = None"
| "pb_encode w (Suc n) fs p s =
     (let (some, it) = pb_field_iter_begin fs p; msg = pb_encode w n
      in if \<not> some then okay s
         else fields_loop (\<lambda>f p. if PB_LTYPE (ftype f) = PB_LTYPE_EXTENSION
                                 then encode_extension_field w n msg p
                                 else encode_field w n msg f p) (length fs) it s)"

definition pb_encode_delimited :: "'s world \<Rightarrow> nat \<Rightarrow> pb_field list \<Rightarrow> u64 \<Rightarrow> 's run" where
  "pb_encode_delimited w n fs p = pb_encode_submessage (pb_encode w n fs p)"

definition pb_encode_nullterminated :: "'s world \<Rightarrow> nat \<Rightarrow> pb_field list \<Rightarrow> u64 \<Rightarrow> 's run" where
  "pb_encode_nullterminated w n fs p = rseq (pb_encode w n fs p) (lift (pb_write [0] 1))"

definition pb_get_encoded_size ::
  "'s world \<Rightarrow> nat \<Rightarrow> pb_field list \<Rightarrow> u64 \<Rightarrow> 's \<Rightarrow> u64 option option" where
  "pb_get_encoded_size w n fs p st =
     (case pb_encode w n fs p (sizing_stream st) of
        None \<Rightarrow> None
      | Some (ok, s) \<Rightarrow> Some (if ok then Some (bytes_written s) else None))"

end
