(* ===== verification/Pb_Size.thy ===== *)
theory Pb_Size
  imports Pb_Encode
begin

text \<open>
  What the two passes of the message encoder rest on: the pass that counts and the pass that writes
  agree. A run is determined when its success on a counting stream fixes the bytes it writes on any
  stream with room for them. Every run the encoder is made of is determined, provided the user's
  callbacks are.
\<close>

section \<open>Determined runs\<close>

context byte_sink
begin

definition remits :: "'s run \<Rightarrow> u8 list \<Rightarrow> bool" where
  "remits f w \<longleftrightarrow>
     (\<forall>z. ocallback z = None \<longrightarrow> f z = Some (True, counted (length w) z)) \<and>
     (\<forall>s. ocallback s = Some cb \<and> room s (length w) \<and> inv (ostate s) (length w) \<longrightarrow>
        (\<exists>s'. f s = Some (True, s') \<and> appended w s s'))"

definition determined :: "'s run \<Rightarrow> bool" where
  "determined f \<longleftrightarrow>
     (\<forall>z z'. ocallback z = None \<and> f z = Some (True, z') \<longrightarrow> (\<exists>w. remits f w))"

lemma remits_sizing: "remits f w \<Longrightarrow> ocallback z = None \<Longrightarrow> f z = Some (True, counted (length w) z)"
  by (simp add: remits_def)

lemma remits_writing:
  assumes "remits f w" "ocallback s = Some cb" "room s (length w)" "inv (ostate s) (length w)"
  obtains s' where "f s = Some (True, s')" "appended w s s'"
  using assms unfolding remits_def by blast

lemma determinedD: "determined f \<Longrightarrow> ocallback z = None \<Longrightarrow> f z = Some (True, z') \<Longrightarrow> \<exists>w. remits f w"
  by (auto simp: determined_def)

lemma determined_remits: "remits f w \<Longrightarrow> determined f"
  by (auto simp: determined_def)

lemma remits_lift: "emits f w \<Longrightarrow> remits (lift f) w"
  by (auto simp: remits_def emits_def lift_def prod_eq_iff)

lemma determined_lift: "emits f w \<Longrightarrow> determined (lift f)"
  using remits_lift determined_remits by blast

lemma determined_fail: "determined (lift (ofail m))"
  by (simp add: determined_def lift_def ofail_def)

lemma remits_okay: "remits okay []"
  by (simp add: remits_def okay_def appended_Nil counted_def)

lemma determined_okay: "determined okay"
  using determined_remits [OF remits_okay] .

lemma determined_stuck: "determined stuck"
  by (simp add: determined_def stuck_def)

lemma determined_if:
  "(c \<Longrightarrow> determined f) \<Longrightarrow> (\<not> c \<Longrightarrow> determined g) \<Longrightarrow> determined (if c then f else g)"
  by simp

text \<open>Room and the invariant left after part of the bytes has been written.\<close>

lemma appended_room:
  assumes "appended v s s'" "ocallback s = Some cb" "room s (length v + n)" "inv (ostate s) (length v + n)"
  shows "ocallback s' = Some cb" "room s' n" "inv (ostate s') n"
  using assms unfolding appended_def room_def by auto

lemma remits_seq:
  assumes f: "remits f v" and g: "remits g w"
  shows "remits (rseq f g) (v @ w)"
  unfolding remits_def
proof (intro conjI allI impI)
  fix z :: "'s ostream" assume "ocallback z = None"
  then show "rseq f g z = Some (True, counted (length (v @ w)) z)"
    using remits_sizing [OF f] remits_sizing [OF g] by (simp add: rseq_def counted_counted)
next
  fix s :: "'s ostream"
  assume s: "ocallback s = Some cb \<and> room s (length (v @ w)) \<and> inv (ostate s) (length (v @ w))"
  then have "room s (length v)" "inv (ostate s) (length v)"
    by (auto simp: room_def intro: weaker)
  with s f obtain t where t: "f s = Some (True, t)" "appended v s t"
    using remits_writing by blast
  have "ocallback t = Some cb" "room t (length w)" "inv (ostate t) (length w)"
    using appended_room [OF t(2), of "length w"] s by simp_all
  then obtain u where "g t = Some (True, u)" "appended w t u"
    using remits_writing [OF g] by blast
  with t show "\<exists>s'. rseq f g s = Some (True, s') \<and> appended (v @ w) s s'"
    using appended_trans by (auto simp: rseq_def)
qed

lemma determined_seq:
  assumes f: "determined f" and g: "determined g"
  shows "determined (rseq f g)"
  unfolding determined_def
proof (intro allI impI)
  fix z z' assume z: "ocallback z = None \<and> rseq f g z = Some (True, z')"
  then obtain z1 where z1: "f z = Some (True, z1)" "g z1 = Some (True, z')"
    by (auto simp: rseq_def split: option.splits if_splits)
  with z f obtain v where v: "remits f v" using determinedD by blast
  then have "z1 = counted (length v) z" using z z1(1) remits_sizing by fastforce
  then have "ocallback z1 = None" using z by simp
  then obtain w where "remits g w" using g z1(2) determinedD by blast
  with v show "\<exists>w. remits (rseq f g) w" using remits_seq by blast
qed

lemma determined_each: "(\<And>p. determined (enc p)) \<Longrightarrow> determined (each enc n k p)"
proof (induction n arbitrary: p)
  case 0
  have "each enc 0 k p = okay" by (rule ext) simp
  then show ?case using determined_okay by simp
next
  case (Suc n)
  have "each enc (Suc n) k p = rseq (enc p) (each enc n k (p + k))" by (rule ext) simp
  then show ?case using Suc determined_seq by presburger
qed

lemma remits_each:
  assumes "\<And>p. \<exists>w. remits (enc p) w \<and> length w = l"
  shows "\<exists>w. remits (each enc n k p) w \<and> length w = n * l"
proof (induction n arbitrary: p)
  case 0
  have "each enc 0 k p = okay" by (rule ext) simp
  then show ?case using remits_okay by auto
next
  case (Suc n)
  obtain v where v: "remits (enc p) v" "length v = l" using assms by blast
  obtain w where w: "remits (each enc n k (p + k)) w" "length w = n * l" using Suc by blast
  have "each enc (Suc n) k p = rseq (enc p) (each enc n k (p + k))" by (rule ext) simp
  then show ?case using remits_seq [OF v(1) w(1)] v(2) w(2) by (intro exI [of _ "v @ w"]) simp
qed

text \<open>
  The common part of submessages and packed arrays: a length, known from a counting pass, and then
  the same run on the stream itself.
\<close>

lemma sizing_fields [simp]:
  "ocallback (sizing_stream st) = None" "bytes_written (sizing_stream st) = 0"
  by (simp_all add: sizing_stream_def)

lemma sizing_write: "ocallback z = None \<Longrightarrow> pb_write bs n z = (True, z\<lparr>bytes_written := bytes_written z + n\<rparr>)"
  by (simp add: pb_write_def)

lemma appended_bytes:
  assumes "appended v s t" "room s (length v + n)"
  shows "unat (bytes_written t) + n \<le> unat (max_size t)" "unat (of_nat n :: u64) = n"
    "unat (bytes_written t + of_nat n) = unat (bytes_written t) + n"
    "max_size t < bytes_written t + of_nat n \<longleftrightarrow> False"
proof -
  show le: "unat (bytes_written t) + n \<le> unat (max_size t)"
    using assms by (auto simp: appended_def room_def)
  then have lt: "unat (bytes_written t) + n < 2 ^ 64"
    using unat_u64_lt [of "max_size t"] by simp
  then show n: "unat (of_nat n :: u64) = n" by (intro unat_u64_of_nat) simp
  show "unat (bytes_written t + of_nat n) = unat (bytes_written t) + n"
    using lt n by (subst unat_add_lem [THEN iffD1]) simp_all
  then show "max_size t < bytes_written t + of_nat n \<longleftrightarrow> False"
    using le by (simp add: word_less_nat_alt)
qed

lemma remits_submessage:
  assumes w: "remits msg w"
  shows "remits (pb_encode_submessage msg) (varint_bytes (of_nat (length w)) @ w)"
proof -
  let ?n = "of_nat (length w) :: u64"
  let ?v = "varint_bytes ?n"
  have sub: "msg (sizing_stream st) = Some (True, counted (length w) (sizing_stream st))" for st
    using remits_sizing [OF w] by (simp add: sizing_stream_def)
  note v = remits_lift [OF emits_varint [of ?n]]
  show ?thesis
    unfolding remits_def
  proof (intro conjI allI impI)
    fix z :: "'s ostream" assume z: "ocallback z = None"
    show "pb_encode_submessage msg z = Some (True, counted (length (?v @ w)) z)"
      using z remits_sizing [OF v z]
      by (simp add: pb_encode_submessage_def sub Let_def rseq_def sizing_write) (simp add: counted_def)
  next
    fix s :: "'s ostream"
    assume s: "ocallback s = Some cb \<and> room s (length (?v @ w)) \<and> inv (ostate s) (length (?v @ w))"
    then have "room s (length ?v)" "inv (ostate s) (length ?v)"
      by (auto simp: room_def intro: weaker)
    with s obtain t where t: "lift (pb_encode_varint ?n) s = Some (True, t)" "appended ?v s t"
      using remits_writing [OF v] by blast
    have r: "ocallback t = Some cb" "room t (length w)" "inv (ostate t) (length w)"
      using appended_room [OF t(2), of "length w"] s by simp_all
    have b: "unat ?n = length w" "unat (bytes_written t + ?n) = unat (bytes_written t) + length w"
      "max_size t < bytes_written t + ?n \<longleftrightarrow> False"
      using appended_bytes [OF t(2), of "length w"] s by simp_all
    let ?sub = "\<lparr>ocallback = ocallback t, ostate = ostate t, max_size = ?n, bytes_written = 0,
      o_errmsg = None\<rparr>"
    obtain u where u: "msg ?sub = Some (True, u)" "appended w ?sub u"
      using remits_writing [OF w, of ?sub] r b by (auto simp: room_def)
    then have n: "bytes_written u = ?n" "out (ostate u) = out (ostate t) @ w"
      "\<forall>n. inv (ostate t) (length w + n) \<longrightarrow> inv (ostate u) n"
      using b by (auto simp: appended_def word_unat_eq_iff)
    let ?s = "t\<lparr>bytes_written := bytes_written t + ?n, ostate := ostate u, o_errmsg := o_errmsg u\<rparr>"
    have "pb_encode_submessage msg s = Some (True, ?s)"
      using t(1) u(1) b n(1) r
      by (simp add: pb_encode_submessage_def sub Let_def rseq_def)
    moreover have "appended w t ?s"
      using n b(2) by (simp add: appended_def)
    ultimately show "\<exists>s'. pb_encode_submessage msg s = Some (True, s') \<and> appended (?v @ w) s s'"
      using appended_trans [OF t(2)] by blast
  qed
qed

lemma determined_submessage:
  assumes "determined msg"
  shows "determined (pb_encode_submessage msg)"
  unfolding determined_def
proof (intro allI impI)
  fix z z' assume z: "ocallback z = None \<and> pb_encode_submessage msg z = Some (True, z')"
  then obtain sub where "msg (sizing_stream (ostate z)) = Some (True, sub)"
    by (auto simp: pb_encode_submessage_def split: option.splits prod.splits bool.splits)
  then obtain w where "remits msg w"
    using assms determinedD by (metis sizing_fields(1))
  then show "\<exists>w. remits (pb_encode_submessage msg) w" using remits_submessage by blast
qed

text \<open>Field encoders either fail or write bytes that depend only on the memory.\<close>

lemma determined_tag: "determined (lift (pb_encode_tag_for_field f))"
  unfolding pb_encode_tag_for_field_def Let_def
  using determined_lift [OF emits_tag] determined_fail by (auto split: if_split)

lemma determined_scalars:
  "determined (lift (pb_enc_bool m p))" "determined (lift (pb_enc_varint m f p))"
  "determined (lift (pb_enc_uvarint m f p))" "determined (lift (pb_enc_svarint m f p))"
  "determined (lift (pb_enc_fixed32 m p))" "determined (lift (pb_enc_fixed64 m p))"
  using determined_lift [OF emits_varint] determined_lift [OF emits_svarint]
    determined_lift [OF emits_fixed32] determined_lift [OF emits_fixed64] determined_fail
  by (simp_all add: pb_enc_bool_def pb_enc_varint_def pb_enc_uvarint_def pb_enc_svarint_def
      pb_enc_fixed32_def pb_enc_fixed64_def split: option.splits)

lemma determined_strings:
  "determined (lift (pb_enc_bytes m f p))" "determined (lift (pb_enc_string m f p))"
  "determined (lift (pb_enc_fixed_length_bytes m f p))"
proof -
  have u: "unat (ucast n :: u64) = unat n" for n :: u32 by (simp add: unat_ucast_up)
  note s = determined_lift [OF emits_string]
  show "determined (lift (pb_enc_bytes m f p))"
    using s [of "[]" 0] s [of "load m (p + 4) (unat (load32 m p))" "ucast (load32 m p)"]
      determined_fail u by (simp add: pb_enc_bytes_def)
  show "determined (lift (pb_enc_string m f p))"
    using s by (simp add: pb_enc_string_def Let_def)
  show "determined (lift (pb_enc_fixed_length_bytes m f p))"
    using s u by (simp add: pb_enc_fixed_length_bytes_def)
qed

lemma determined_field_encoder:
  assumes "\<And>fs p. determined (msg fs p)"
  shows "determined (field_encoder w msg f p)"
  unfolding field_encoder_def pb_enc_submessage_def Let_def
  using determined_scalars determined_strings determined_stuck determined_fail
    determined_submessage [OF assms]
  by (simp split: option.splits)

lemma fixed_lengths: "length (fixed32_bytes v) = 4" "length (fixed64_bytes u) = 8"
  by (simp_all add: fixed32_bytes_def fixed64_bytes_def)

lemma remits_fixed:
  "PB_LTYPE (ftype f) = PB_LTYPE_FIXED32 \<Longrightarrow> \<exists>v. remits (field_encoder w msg f p) v \<and> length v = 4"
  "PB_LTYPE (ftype f) = PB_LTYPE_FIXED64 \<Longrightarrow> \<exists>v. remits (field_encoder w msg f p) v \<and> length v = 8"
proof -
  assume "PB_LTYPE (ftype f) = PB_LTYPE_FIXED32"
  then have "field_encoder w msg f p = lift (pb_encode_fixed32 (load32 (memory w) p))"
    by (simp add: field_encoder_def ltype_defs pb_enc_fixed32_def)
  then show "\<exists>v. remits (field_encoder w msg f p) v \<and> length v = 4"
    using remits_lift [OF emits_fixed32] fixed_lengths(1) by metis
next
  assume "PB_LTYPE (ftype f) = PB_LTYPE_FIXED64"
  then have "field_encoder w msg f p = lift (pb_encode_fixed64 (load64 (memory w) p))"
    by (simp add: field_encoder_def ltype_defs pb_enc_fixed64_def)
  then show "\<exists>v. remits (field_encoder w msg f p) v \<and> length v = 8"
    using remits_lift [OF emits_fixed64] fixed_lengths(2) by metis
qed

text \<open>A packed array: the tag, the length, and the items unless the stream only counts.\<close>

lemma remits_counted_write: "remits body w \<Longrightarrow>
   remits (\<lambda>s. if ocallback s = None then Some (pb_write [] (of_nat (length w)) s) else body s) w"
  by (auto simp: remits_def sizing_write counted_def)

lemma determined_packed_data: "remits body w \<Longrightarrow> determined (packed_data (of_nat (length w)) body)"
  unfolding packed_data_def
  by (rule determined_remits [OF remits_seq [OF remits_lift [OF emits_varint] remits_counted_write]])

definition fixed_items :: "pb_field \<Rightarrow> (u64 \<Rightarrow> 's run) \<Rightarrow> bool" where
  "fixed_items f enc \<longleftrightarrow>
     (PB_LTYPE (ftype f) = PB_LTYPE_FIXED32 \<longrightarrow> (\<forall>p. \<exists>v. remits (enc p) v \<and> length v = 4)) \<and>
     (PB_LTYPE (ftype f) = PB_LTYPE_FIXED64 \<longrightarrow> (\<forall>p. \<exists>v. remits (enc p) v \<and> length v = 8))"

lemma packed_size_determined:
  assumes enc: "\<And>p. determined (enc p)" "fixed_items f enc"
    and n: "packed_size (each enc (unat count) k p) f count st = Some (True, n)"
  shows "\<exists>v. remits (each enc (unat count) k p) v \<and> n = of_nat (length v) \<and>
    (\<forall>st. packed_size (each enc (unat count) k p) f count st = Some (True, n))"
proof -
  let ?t = "PB_LTYPE (ftype f)" and ?body = "each enc (unat count) k p"
  have c: "of_nat (unat count * m) = of_nat m * (ucast count :: u64)" for m
    by (simp add: mult.commute)
  consider "?t = PB_LTYPE_FIXED32" | "?t = PB_LTYPE_FIXED64"
    | "?t \<noteq> PB_LTYPE_FIXED32" "?t \<noteq> PB_LTYPE_FIXED64" by blast
  then show ?thesis
  proof cases
    case 1
    then obtain v where v: "remits ?body v" "length v = unat count * 4"
      using remits_each [of enc 4] enc(2) unfolding fixed_items_def by blast
    show ?thesis using 1 n v(1) by (intro exI [of _ v]) (auto simp: packed_size_def v(2) c mult.commute)
  next
    case 2
    then obtain v where v: "remits ?body v" "length v = unat count * 8"
      using remits_each [of enc 8] enc(2) unfolding fixed_items_def by blast
    show ?thesis using 2 n v(1)
      by (intro exI [of _ v]) (auto simp: packed_size_def v(2) c ltype_defs)
  next
    case 3
    then obtain z where z: "?body (sizing_stream st) = Some (True, z)" "n = bytes_written z"
      using n by (auto simp: packed_size_def)
    then obtain v where v: "remits ?body v"
      using determinedD [OF determined_each [of enc]] enc(1) sizing_fields(1) by metis
    show ?thesis using 3 z v remits_sizing [OF v]
      by (intro exI [of _ v]) (auto simp: packed_size_def)
  qed
qed

lemma determined_array:
  assumes enc: "\<And>p. determined (enc p)" "fixed_items f enc"
  shows "determined (encode_array w enc f p count)"
proof -
  let ?t = "PB_LTYPE (ftype f)" and ?ptr = "PB_ATYPE (ftype f) = PB_ATYPE_POINTER"
  let ?body = "each enc (unat count) (ucast (data_size f)) p"
  let ?tag = "lift (pb_encode_tag PB_WT_STRING (tag f)) :: 's run"
  let ?item = "\<lambda>p. rseq (lift (pb_encode_tag_for_field f))
      (if ?ptr \<and> (?t = PB_LTYPE_STRING \<or> ?t = PB_LTYPE_BYTES)
       then enc (load64 (memory w) p) else enc p)"
  let ?rest = "\<lambda>s. case packed_size ?body f count (ostate s) of
      None \<Rightarrow> None | Some (False, _) \<Rightarrow> Some (False, s) | Some (True, n) \<Rightarrow> packed_data n ?body s"
  have rest: "determined ?rest"
    unfolding determined_def
  proof (intro allI impI)
    fix z z' assume z: "ocallback z = None \<and> ?rest z = Some (True, z')"
    then obtain n where n: "packed_size ?body f count (ostate z) = Some (True, n)"
      by (auto split: option.splits bool.splits)
    obtain v where v: "remits ?body v" "n = of_nat (length v)"
      "\<And>st. packed_size ?body f count st = Some (True, n)"
      using packed_size_determined [OF enc n] by blast
    then have "?rest = packed_data (of_nat (length v)) ?body" by (intro ext) simp
    then have "determined ?rest" using determined_packed_data [OF v(1)] by (simp only:)
    then show "\<exists>w. remits ?rest w" using z unfolding determined_def by blast
  qed
  have each: "determined (each ?item (unat count) (ucast (data_size f)) p)"
    by (intro determined_each determined_seq determined_tag determined_if enc)
  have e: "encode_array w enc f p count =
      (if count = 0 then okay
       else if \<not> ?ptr \<and> array_size f < count then lift (ofail ''array max size exceeded'')
       else if ?t \<le> PB_LTYPE_LAST_PACKABLE then rseq ?tag ?rest
       else each ?item (unat count) (ucast (data_size f)) p)"
    by (rule ext) (simp only: encode_array_def lift_def Let_def if_distribR)
  show ?thesis
    unfolding e
    by (intro determined_if determined_okay determined_fail each
        determined_seq [OF determined_lift [OF emits_tag] rest])
qed

text \<open>Fields, extensions, messages.\<close>

lemma fixed_items_encoder: "fixed_items f (field_encoder w msg f)"
  using remits_fixed [of f w msg] by (auto simp: fixed_items_def)

lemma determined_basic:
  assumes enc: "\<And>p. determined (enc p)" "fixed_items f enc"
  shows "determined (encode_basic_field w n enc f p)"
proof -
  note d = determined_seq [OF determined_tag enc(1)] determined_array [OF enc] determined_okay
    determined_fail determined_stuck
  let ?i = "if size_offset f \<noteq> 0 then Some True
      else if PB_HTYPE (ftype f) = PB_HTYPE_OPTIONAL
      then map_option Not (pb_check_proto3_default_value w n f p) else Some True"
  show ?thesis
  proof (cases ?i)
    case None
    then have "encode_basic_field w n enc f p = stuck"
      by (intro ext) (simp only: encode_basic_field_def Let_def stuck_def option.case)
    then show ?thesis using determined_stuck by simp
  next
    case (Some has)
    let ?h = "PB_HTYPE (ftype f)" and ?ptr = "PB_ATYPE (ftype f) = PB_ATYPE_POINTER"
    let ?m = "memory w" and ?q = "p + scast (size_offset f)"
    let ?dat = "if ?ptr then load64 ?m p else p" and ?has = "if ?ptr then (if ?ptr then load64 ?m p else p) \<noteq> 0 else has"
    let ?run = "rseq (lift (pb_encode_tag_for_field f)) (enc ?dat)"
    have e: "encode_basic_field w n enc f p =
      (if ?h = PB_HTYPE_REQUIRED
       then if ?dat = 0 then lift (ofail ''missing required field'') else ?run
       else if ?h = PB_HTYPE_OPTIONAL
       then if (if size_offset f \<noteq> 0 then safe_read_bool ?m ?q else ?has) then ?run else okay
       else if ?h = PB_HTYPE_REPEATED
       then encode_array w enc f ?dat (if size_offset f \<noteq> 0 then load32 ?m ?q else array_size f)
       else if ?h = PB_HTYPE_ONEOF
       then if size_offset f = 0 then stuck else if load32 ?m ?q = tag f then ?run else okay
       else lift (ofail ''invalid field type''))"
      by (rule ext) (simp only: encode_basic_field_def Let_def Some option.case if_distribR lift_def stuck_def)
    show ?thesis unfolding e by (intro determined_if d)
  qed
qed

lemma determined_callback:
  assumes "\<And>fn f arg. determined (user w fn f arg)"
  shows "determined (encode_callback_field w f p)"
proof (cases "load64 (memory w) p = 0")
  case True
  then have "encode_callback_field w f p = okay" by (intro ext) (simp add: encode_callback_field_def)
  then show ?thesis using determined_okay by simp
next
  case False
  let ?u = "user w (load64 (memory w) p) f (p + 8)"
  have "encode_callback_field w f p s = Some (True, s') \<longleftrightarrow> ?u s = Some (True, s')" for s s'
    using False by (auto simp: encode_callback_field_def ofail_def split: option.splits)
  then show ?thesis
    using assms [of "load64 (memory w) p" f "p + 8"] unfolding determined_def remits_def by simp
qed

definition callbacks_determined :: "'s world \<Rightarrow> bool" where
  "callbacks_determined w \<longleftrightarrow>
     (\<forall>fn f arg. determined (user w fn f arg)) \<and> (\<forall>fn ext. determined (ext_user w fn ext))"

lemma determined_field:
  assumes "callbacks_determined w" "\<And>fs p. determined (msg fs p)"
  shows "determined (encode_field w n msg f p)"
proof -
  let ?a = "PB_ATYPE (ftype f)"
  have e: "encode_field w n msg f p =
      (if ?a = PB_ATYPE_STATIC \<or> ?a = PB_ATYPE_POINTER
       then encode_basic_field w n (field_encoder w msg f) f p
       else if ?a = PB_ATYPE_CALLBACK then encode_callback_field w f p
       else lift (ofail ''invalid field type''))"
    by (rule ext) (simp only: encode_field_def Let_def if_distribR lift_def)
  have "determined (user w fn f arg)" for fn f arg
    using assms(1) by (simp add: callbacks_determined_def)
  then show ?thesis
    unfolding e using assms(2)
    by (intro determined_if determined_basic determined_callback determined_fail
        determined_field_encoder fixed_items_encoder)
qed

lemma determined_extensions:
  assumes "callbacks_determined w" "\<And>fs p. determined (msg fs p)"
  shows "determined (extension_loop w n msg k ext)"
proof (induction k arbitrary: ext)
  case 0
  have "extension_loop w n msg 0 ext = (if ext = 0 then okay else stuck)"
    by (rule HOL.ext) (simp add: stuck_def)
  then show ?case using determined_okay determined_stuck by simp
next
  case (Suc k)
  let ?m = "memory w"
  let ?fn = "load64 ?m (load64 ?m ext + 8)"
  have e: "extension_loop w n msg (Suc k) ext = (if ext = 0 then okay
      else rseq (if ?fn \<noteq> 0 then ext_user w ?fn ext else default_extension_encoder w n msg ext)
        (extension_loop w n msg k (load64 ?m (ext + 16))))"
    by (rule HOL.ext) (simp add: Let_def)
  let ?f = "ext_field w (load64 ?m (load64 ?m ext + 16))"
  have d: "default_extension_encoder w n msg ext =
      (if PB_ATYPE (ftype ?f) = PB_ATYPE_POINTER then encode_field w n msg ?f (ext + 8)
       else encode_field w n msg ?f (load64 ?m (ext + 8)))"
    by (rule HOL.ext) (simp add: default_extension_encoder_def Let_def)
  have "determined (ext_user w fn ext)" for fn ext
    using assms(1) by (simp add: callbacks_determined_def)
  then show ?case
    unfolding e d by (intro determined_if determined_seq determined_okay determined_field Suc assms)
qed

lemma determined_fields:
  assumes "\<And>f p. determined (enc f p)"
  shows "determined (fields_loop enc k it)"
proof (induction k arbitrary: it)
  case 0
  have "fields_loop enc 0 it = stuck" by (rule ext) (simp add: stuck_def)
  then show ?case using determined_stuck by simp
next
  case (Suc k)
  let ?next = "pb_field_iter_next it"
  have e: "fields_loop enc (Suc k) it = rseq (enc (cur it) (pData it))
      (if fst ?next then fields_loop enc k (snd ?next) else okay)"
    by (rule ext) (simp add: case_prod_beta)
  show ?case unfolding e by (intro determined_seq determined_if determined_okay assms Suc)
qed

lemma determined_encode: "callbacks_determined w \<Longrightarrow> determined (pb_encode w n fs p)"
proof (induction n arbitrary: fs p)
  case 0
  have "pb_encode w 0 fs p = stuck" by (rule ext) (simp add: stuck_def)
  then show ?case using determined_stuck by simp
next
  case (Suc n)
  let ?first = "pb_field_iter_begin fs p"
  have e: "pb_encode w (Suc n) fs p = (if \<not> fst ?first then okay
      else fields_loop (\<lambda>f p. if PB_LTYPE (ftype f) = PB_LTYPE_EXTENSION
                              then encode_extension_field w n (pb_encode w n) p
                              else encode_field w n (pb_encode w n) f p) (length fs) (snd ?first))"
    by (rule ext) (simp add: case_prod_beta Let_def)
  show ?case
    unfolding e encode_extension_field_def
    by (intro determined_if determined_okay determined_fields determined_extensions
        determined_field Suc)
qed

lemma remits_encode:
  assumes "callbacks_determined w" "pb_get_encoded_size w n fs p st = Some (Some k)"
  obtains bytes where "remits (pb_encode w n fs p) bytes" "k = of_nat (length bytes)"
proof -
  obtain z where z: "pb_encode w n fs p (sizing_stream st) = Some (True, z)" "k = bytes_written z"
    using assms(2) by (auto simp: pb_get_encoded_size_def split: option.splits if_splits)
  then obtain v where v: "remits (pb_encode w n fs p) v"
    using determinedD [OF determined_encode [OF assms(1)]] sizing_fields(1) by metis
  then have "k = of_nat (length v)"
    using remits_sizing [OF v, of "sizing_stream st"] z by simp
  with v that show ?thesis by blast
qed

end

section \<open>Encoding into a buffer\<close>

text \<open>
  What a user's callback has to do: when it succeeds on a counting stream there are bytes, the same
  on every later call, that it counts on a counting stream and appends to a buffer with room for them.
\<close>

definition reproducible :: "(u8 list \<times> nat) run \<Rightarrow> bool" where
  "reproducible f \<longleftrightarrow>
     (\<forall>z z'. ocallback z = None \<and> f z = Some (True, z') \<longrightarrow>
       (\<exists>bs. (\<forall>s. ocallback s = None \<longrightarrow> f s = Some (True, counted (length bs) s)) \<and>
         (\<forall>s. ocallback s = Some buf_write \<and> room s (length bs) \<and> buf_room (ostate s) (length bs) \<longrightarrow>
           (\<exists>s'. f s = Some (True, s') \<and> ocallback s' = ocallback s \<and> max_size s' = max_size s \<and>
             unat (bytes_written s') = unat (bytes_written s) + length bs \<and>
             buf_out (ostate s') = buf_out (ostate s) @ bs \<and>
             (\<forall>n. buf_room (ostate s) (length bs + n) \<longrightarrow> buf_room (ostate s') n)))))"

definition reproducible_user :: "(u8 list \<times> nat) world \<Rightarrow> bool" where
  "reproducible_user w \<longleftrightarrow>
     (\<forall>fn f arg. reproducible (user w fn f arg)) \<and> (\<forall>fn ext. reproducible (ext_user w fn ext))"

lemma reproducible_determined: "reproducible f \<longleftrightarrow> buffer.determined f"
  unfolding reproducible_def buffer.determined_def buffer.remits_def buffer.appended_def ..

lemma reproducible_callbacks: "reproducible_user w \<longleftrightarrow> buffer.callbacks_determined w"
  unfolding reproducible_user_def buffer.callbacks_determined_def reproducible_determined ..

lemma buffer_remits:
  assumes "buffer.remits f bytes" "length bytes \<le> length buf" "length bytes \<le> unat bufsize"
  shows "\<exists>s. f (pb_ostream_from_buffer buf bufsize) = Some (True, s) \<and>
    unat (bytes_written s) = length bytes \<and> buf_out (ostate s) = bytes"
  using buffer.remits_writing [OF assms(1), of "pb_ostream_from_buffer buf bufsize"] assms(2,3)
  by (fastforce simp: pb_ostream_from_buffer_def room_def buf_room_def buf_out_def buffer.appended_def)
text \<open>
  Property C17: counting and writing agree: when \<open>pb_get_encoded_size\<close> succeeds with a size, there are bytes of that many
  (modulo \<open>2 ^ 64\<close>) such that encoding the message into any buffer with room for them succeeds,
  writes exactly these bytes and reports the same size. The user's callbacks are assumed to be reproducible.
\<close>

theorem encoded_size_exact:
  assumes "reproducible_user w" and "pb_get_encoded_size w n fs p st = Some (Some k)"
  shows "\<exists>bytes. k = of_nat (length bytes) \<and>
     (\<forall>buf bufsize. length bytes \<le> length buf \<and> length bytes \<le> unat bufsize \<longrightarrow>
        (\<exists>s. pb_encode w n fs p (pb_ostream_from_buffer buf bufsize) = Some (True, s) \<and>
             bytes_written s = k \<and> buf_out (ostate s) = bytes))"
proof -
  obtain bytes where b: "buffer.remits (pb_encode w n fs p) bytes" "k = of_nat (length bytes)"
    using buffer.remits_encode [OF _ assms(2)] assms(1) reproducible_callbacks by blast
  have k: "x = k" if "unat x = length bytes" for x :: u64 using b(2) by (simp flip: that)
  show ?thesis
    using buffer_remits [OF b(1)] b(2) k by (intro exI [of _ bytes]) blast
qed

text \<open>
  Property C33: a delimited message is a frame around the message: when the size is known, \<open>pb_encode_delimited\<close> writes, into any
  buffer with room for it, the size as a varint and then the very bytes that \<open>pb_encode\<close> writes;
  the two passes over the message never disagree.
\<close>

theorem delimited_frames_message:
  assumes "reproducible_user w" and "pb_get_encoded_size w n fs p st = Some (Some k)"
  shows "\<exists>bytes. k = of_nat (length bytes) \<and>
     (\<forall>buf bufsize. length (varint_bytes k @ bytes) \<le> length buf \<and>
        length (varint_bytes k @ bytes) \<le> unat bufsize \<longrightarrow>
        (\<exists>s s'. pb_encode_delimited w n fs p (pb_ostream_from_buffer buf bufsize) = Some (True, s) \<and>
           buf_out (ostate s) = varint_bytes k @ bytes \<and>
           pb_encode w n fs p (pb_ostream_from_buffer buf bufsize) = Some (True, s') \<and>
           buf_out (ostate s') = bytes))"
proof -
  obtain bytes where b: "buffer.remits (pb_encode w n fs p) bytes" "k = of_nat (length bytes)"
    using buffer.remits_encode [OF _ assms(2)] assms(1) reproducible_callbacks by blast
  have d: "buffer.remits (pb_encode_delimited w n fs p) (varint_bytes k @ bytes)"
    using buffer.remits_submessage [OF b(1)] b(2) by (simp add: pb_encode_delimited_def)
  show ?thesis
  proof (intro exI [of _ bytes] conjI allI impI)
    fix buf :: "u8 list" and bufsize :: u64
    assume "length (varint_bytes k @ bytes) \<le> length buf \<and> length (varint_bytes k @ bytes) \<le> unat bufsize"
    then show "\<exists>s s'. pb_encode_delimited w n fs p (pb_ostream_from_buffer buf bufsize) = Some (True, s) \<and>
           buf_out (ostate s) = varint_bytes k @ bytes \<and>
           pb_encode w n fs p (pb_ostream_from_buffer buf bufsize) = Some (True, s') \<and>
           buf_out (ostate s') = bytes"
      using buffer_remits [OF d, of buf bufsize] buffer_remits [OF b(1), of buf bufsize] by auto
  qed (rule b(2))
qed

text \<open>
  A message with an integer, a submessage with a flag and a packed array, a callback that writes one byte,
  and a oneof that is not set.
\<close>

definition demo_fields :: "nat \<Rightarrow> pb_field list" where
  "demo_fields i =
     (if i = 0
      then [PB_LAST_FIELD\<lparr>tag := 1, ftype := 0x01, data_size := 4\<rparr>,
            PB_LAST_FIELD\<lparr>tag := 2, ftype := 0x08, data_size := 16, ptr := Some 1\<rparr>,
            PB_LAST_FIELD\<lparr>tag := 3, ftype := 0x60, data_size := 16\<rparr>]
      else [PB_LAST_FIELD\<lparr>tag := 1, ftype := 0x10, data_offset := 1, size_offset := - 1, data_size := 1\<rparr>,
            PB_LAST_FIELD\<lparr>tag := 4, ftype := 0x22, data_offset := 6, size_offset := - 4, data_size := 1,
              array_size := 8\<rparr>])"

definition demo_memory :: memory where
  "demo_memory a =
     (if a = 4096 then 150 else if a = 4100 then 1 else if a = 4101 then 1 else if a = 4104 then 2
      else if a = 4108 then 7 else if a = 4109 then 9 else if a = 4116 then 1 else 0)"

definition demo_world :: "(u8 list \<times> nat) world" where
  "demo_world =
     \<lparr>memory = demo_memory, arrays = demo_fields,
      user = (\<lambda>fn f arg. lift (pb_write [42] 1)), ext_user = (\<lambda>fn ext. stuck),
      ext_field = (\<lambda>a. PB_LAST_FIELD)\<rparr>"

lemma demo_reproducible: "reproducible_user demo_world"
  using buffer.determined_lift [OF buffer.emits_write [of "[42]" 1]] buffer.determined_stuck
  by (simp add: reproducible_user_def reproducible_determined demo_world_def)

lemma demo_size: "pb_get_encoded_size demo_world 3 (demo_fields 0) 4096 ([], 0) = Some (Some 12)"
  by code_simp

theorem encoded_size_exact_witness:
  "\<exists>bytes. (12 :: u64) = of_nat (length bytes) \<and>
     (\<forall>buf bufsize. length bytes \<le> length buf \<and> length bytes \<le> unat bufsize \<longrightarrow>
        (\<exists>s. pb_encode demo_world 3 (demo_fields 0) 4096 (pb_ostream_from_buffer buf bufsize) = Some (True, s) \<and>
             bytes_written s = 12 \<and> buf_out (ostate s) = bytes))"
  by (rule encoded_size_exact [OF demo_reproducible demo_size])

theorem delimited_frames_message_witness:
  "\<exists>bytes. (12 :: u64) = of_nat (length bytes) \<and>
     (\<forall>buf bufsize. length (varint_bytes 12 @ bytes) \<le> length buf \<and>
        length (varint_bytes 12 @ bytes) \<le> unat bufsize \<longrightarrow>
        (\<exists>s s'. pb_encode_delimited demo_world 3 (demo_fields 0) 4096
             (pb_ostream_from_buffer buf bufsize) = Some (True, s) \<and>
           buf_out (ostate s) = varint_bytes 12 @ bytes \<and>
           pb_encode demo_world 3 (demo_fields 0) 4096
             (pb_ostream_from_buffer buf bufsize) = Some (True, s') \<and>
           buf_out (ostate s') = bytes))"
  by (rule delimited_frames_message [OF demo_reproducible demo_size])

end
