(* ===== verification/Pb_Bound.thy ===== *)
theory Pb_Bound
  imports Pb_Size
begin

text \<open>
  The bound on the nesting of a message is only a bound: once the encoder returns, a larger bound
  changes nothing.
\<close>

section \<open>Steps that return more often\<close>

definition below :: "('a \<Rightarrow> 'b option) \<Rightarrow> ('a \<Rightarrow> 'b option) \<Rightarrow> bool" where
  "below f g \<longleftrightarrow> (\<forall>s r. f s = Some r \<longrightarrow> g s = Some r)"

lemma belowD: "below f g \<Longrightarrow> f s = Some r \<Longrightarrow> g s = Some r"
  by (simp add: below_def)

lemma below_refl: "below f f"
  by (simp add: below_def)

lemma below_stuck: "(\<And>s. f s = None) \<Longrightarrow> below f g"
  by (simp add: below_def)

lemma below_trans: "below f g \<Longrightarrow> below g h \<Longrightarrow> below f h"
  by (simp add: below_def)

lemma below_if:
  "(c \<Longrightarrow> below f f') \<Longrightarrow> (\<not> c \<Longrightarrow> below g g') \<Longrightarrow> below (if c then f else g) (if c then f' else g')"
  by simp

lemma below_rseq: "below f f' \<Longrightarrow> below g g' \<Longrightarrow> below (rseq f g) (rseq f' g')"
  by (auto simp: below_def rseq_def split: option.splits)

lemma below_each: "(\<And>p. below (enc p) (enc' p)) \<Longrightarrow> below (each enc n k p) (each enc' n k p)"
proof (induction n arbitrary: p)
  case 0
  then show ?case by (simp add: below_def)
next
  case (Suc n)
  have e: "each e (Suc n) k p = rseq (e p) (each e n k (p + k))" for e :: "u64 \<Rightarrow> 'a run"
    by (rule ext) simp
  show ?case unfolding e by (intro below_rseq Suc)
qed

section \<open>Values\<close>

lemma below_submessage:
  assumes "below msg msg'"
  shows "below (pb_encode_submessage msg) (pb_encode_submessage msg')"
  unfolding below_def
proof (intro allI impI)
  fix s r assume r: "pb_encode_submessage msg s = Some r"
  obtain ok sub where "msg (sizing_stream (ostate s)) = Some (ok, sub)"
    using r by (auto simp: pb_encode_submessage_def split: option.splits)
  note m = this belowD [OF assms this]
  have tail: "below
      (\<lambda>s. if ocallback s = None then Some (pb_write [] k s)
           else if max_size s < bytes_written s + k then Some (ofail ''stream full'' s)
           else (case msg \<lparr>ocallback = ocallback s, ostate = ostate s, max_size = k,
                           bytes_written = 0, o_errmsg = None\<rparr> of
                   None \<Rightarrow> None
                 | Some (status, sub) \<Rightarrow>
                     (let s = s\<lparr>bytes_written := bytes_written s + bytes_written sub,
                                ostate := ostate sub, o_errmsg := o_errmsg sub\<rparr>
                      in if bytes_written sub \<noteq> k
                         then Some (ofail ''submsg size changed'' s) else Some (status, s))))
      (\<lambda>s. if ocallback s = None then Some (pb_write [] k s)
           else if max_size s < bytes_written s + k then Some (ofail ''stream full'' s)
           else (case msg' \<lparr>ocallback = ocallback s, ostate = ostate s, max_size = k,
                           bytes_written = 0, o_errmsg = None\<rparr> of
                   None \<Rightarrow> None
                 | Some (status, sub) \<Rightarrow>
                     (let s = s\<lparr>bytes_written := bytes_written s + bytes_written sub,
                                ostate := ostate sub, o_errmsg := o_errmsg sub\<rparr>
                      in if bytes_written sub \<noteq> k
                         then Some (ofail ''submsg size changed'' s) else Some (status, s))))" for k
    unfolding below_def using belowD [OF assms] by (auto split: option.splits)
  show "pb_encode_submessage msg' s = Some r"
  proof (cases ok)
    case True
    then show ?thesis
      using r m belowD [OF below_rseq [OF below_refl tail]] by (simp add: pb_encode_submessage_def Let_def)
  next
    case False
    then show ?thesis using r m by (simp add: pb_encode_submessage_def)
  qed
qed

lemma below_field_encoder:
  assumes "\<And>fs p. below (msg fs p) (msg' fs p)"
  shows "below (field_encoder w msg f p) (field_encoder w msg' f p)"
proof -
  have "below (pb_enc_submessage w msg f p) (pb_enc_submessage w msg' f p)"
    using below_submessage [OF assms] by (simp add: pb_enc_submessage_def below_refl split: option.split)
  then show ?thesis unfolding field_encoder_def Let_def by (intro below_if below_refl)
qed

lemma below_packed_size: "below items items' \<Longrightarrow> below (packed_size items f c) (packed_size items' f c)"
  by (auto simp: below_def packed_size_def Let_def)

lemma below_packed_data: "below items items' \<Longrightarrow> below (packed_data n items) (packed_data n items')"
  unfolding packed_data_def by (intro below_rseq below_refl) (simp add: below_def)

lemma below_array:
  assumes "\<And>p. below (enc p) (enc' p)"
  shows "below (encode_array w enc f p c) (encode_array w enc' f p c)"
proof -
  let ?items = "\<lambda>enc. each enc (unat c) (ucast (data_size f)) p"
  let ?rest = "\<lambda>enc s. case packed_size (?items enc) f c (ostate s) of
      None \<Rightarrow> None | Some (False, _) \<Rightarrow> Some (False, s) | Some (True, n) \<Rightarrow> packed_data n (?items enc) s"
  let ?item = "\<lambda>enc p. rseq (lift (pb_encode_tag_for_field f))
      (if PB_ATYPE (ftype f) = PB_ATYPE_POINTER \<and>
          (PB_LTYPE (ftype f) = PB_LTYPE_STRING \<or> PB_LTYPE (ftype f) = PB_LTYPE_BYTES)
       then enc (load64 (memory w) p) else enc p)"
  have items: "below (?items enc) (?items enc')" by (rule below_each) (rule assms)
  have rest: "below (?rest enc) (?rest enc')"
    unfolding below_def
    using belowD [OF below_packed_size [OF items]] belowD [OF below_packed_data [OF items]]
    by (auto split: option.splits bool.splits)
  have item: "below (?items (?item enc)) (?items (?item enc'))"
    by (intro below_each below_rseq below_refl below_if assms)
  have e: "encode_array w enc f p c =
      (if c = 0 then okay
       else if PB_ATYPE (ftype f) \<noteq> PB_ATYPE_POINTER \<and> array_size f < c
       then lift (ofail ''array max size exceeded'')
       else if PB_LTYPE (ftype f) \<le> PB_LTYPE_LAST_PACKABLE
       then rseq (lift (pb_encode_tag PB_WT_STRING (tag f))) (?rest enc)
       else ?items (?item enc))" for enc
    by (rule ext) (simp only: encode_array_def lift_def Let_def if_distribR)
  show ?thesis unfolding e by (intro below_if below_refl below_rseq rest item)
qed
section \<open>Default values\<close>

lemma below_default_value:
  assumes "\<And>fs. below (sub fs) (sub' fs)"
  shows "below (default_value w sub f) (default_value w sub' f)"
  unfolding below_def
proof (intro allI impI)
  fix p r assume r: "default_value w sub f p = Some r"
  have s: "(case ptr f of None \<Rightarrow> None | Some i \<Rightarrow> sub (arrays w i) p) = Some b \<Longrightarrow>
      (case ptr f of None \<Rightarrow> None | Some i \<Rightarrow> sub' (arrays w i) p) = Some b" for b
    using belowD [OF assms] by (simp split: option.splits)
  then show "default_value w sub' f p = Some r"
    using r unfolding default_value_def Let_def by (simp only: split: if_splits) simp_all
qed

lemma below_default_loop:
  assumes "\<And>f. below (chk f) (chk' f)"
  shows "below (default_loop chk k) (default_loop chk' k)"
proof (induction k)
  case (Suc k)
  show ?case
    unfolding below_def
    using belowD [OF assms] belowD [OF Suc] by (auto simp: Let_def case_prod_beta split: option.splits bool.splits)
qed (simp add: below_def)

lemma below_default_message: "below (default_message w n fs) (default_message w (Suc n) fs)"
proof (induction n arbitrary: fs)
  case (Suc n)
  have "below (default_loop (default_value w (default_message w n)) k)
      (default_loop (default_value w (default_message w (Suc n))) k)" for k
    by (intro below_default_loop below_default_value Suc)
  from belowD [OF this] show ?case
    unfolding below_def default_message.simps(2) [of w "Suc n"] default_message.simps(2) [of w n]
    by (simp add: case_prod_beta)
qed (simp add: below_def)

section \<open>Fields and messages\<close>

lemma below_case_option:
  assumes "\<And>h. i = Some h \<Longrightarrow> i' = Some h" and "\<And>h. below (b h) (b' h)"
  shows "below (\<lambda>s. case i of None \<Rightarrow> None | Some h \<Rightarrow> b h s) (\<lambda>s. case i' of None \<Rightarrow> None | Some h \<Rightarrow> b' h s)"
proof (cases i)
  case None
  then show ?thesis by (simp add: below_def)
next
  case (Some h)
  with assms(1) [OF Some] assms(2) [of h] show ?thesis by (simp add: below_def)
qed

lemma map_option_Not: "map_option Not x = Some has \<longleftrightarrow> x = Some (\<not> has)"
  by (cases x) auto

lemma below_basic:
  assumes "\<And>p. below (enc p) (enc' p)"
  shows "below (encode_basic_field w n enc f p) (encode_basic_field w (Suc n) enc' f p)"
proof -
  let ?i = "\<lambda>n. if size_offset f \<noteq> 0 then Some True
      else if PB_HTYPE (ftype f) = PB_HTYPE_OPTIONAL
      then map_option Not (pb_check_proto3_default_value w n f p) else Some True"
  let ?h = "PB_HTYPE (ftype f)" and ?ptr = "PB_ATYPE (ftype f) = PB_ATYPE_POINTER"
  let ?m = "memory w" and ?q = "p + scast (size_offset f)"
  let ?dat = "if ?ptr then load64 ?m p else p"
  let ?run = "\<lambda>enc. rseq (lift (pb_encode_tag_for_field f)) (enc ?dat)"
  let ?body = "\<lambda>enc has.
      (if ?h = PB_HTYPE_REQUIRED
       then if ?dat = 0 then lift (ofail ''missing required field'') else ?run enc
       else if ?h = PB_HTYPE_OPTIONAL
       then if (if size_offset f \<noteq> 0 then safe_read_bool ?m ?q else if ?ptr then ?dat \<noteq> 0 else has)
            then ?run enc else okay
       else if ?h = PB_HTYPE_REPEATED
       then encode_array w enc f ?dat (if size_offset f \<noteq> 0 then load32 ?m ?q else array_size f)
       else if ?h = PB_HTYPE_ONEOF
       then if size_offset f = 0 then stuck else if load32 ?m ?q = tag f then ?run enc else okay
       else lift (ofail ''invalid field type''))"
  have e: "encode_basic_field w n enc f p = (\<lambda>s. case ?i n of None \<Rightarrow> None | Some has \<Rightarrow> ?body enc has s)"
    for n enc
    by (rule ext) (simp only: encode_basic_field_def Let_def if_distribR lift_def stuck_def)
  have body: "below (?body enc has) (?body enc' has)" for has
    by (intro below_if below_refl below_rseq below_array assms)
  have c: "pb_check_proto3_default_value w n f p = Some b \<Longrightarrow> pb_check_proto3_default_value w (Suc n) f p = Some b" for b
    unfolding pb_check_proto3_default_value_def
    by (rule belowD [OF below_default_value]) (rule below_default_message)
  have i: "?i n = Some has \<Longrightarrow> ?i (Suc n) = Some has" for has
    using c [of "\<not> has"] by (simp only: map_option_Not split: if_splits) simp_all
  show ?thesis unfolding e by (rule below_case_option [OF i body])
qed

lemma below_field:
  assumes "\<And>fs p. below (msg fs p) (msg' fs p)"
  shows "below (encode_field w n msg f p) (encode_field w (Suc n) msg' f p)"
proof -
  let ?a = "PB_ATYPE (ftype f)"
  have e: "encode_field w n msg f p =
      (if ?a = PB_ATYPE_STATIC \<or> ?a = PB_ATYPE_POINTER
       then encode_basic_field w n (field_encoder w msg f) f p
       else if ?a = PB_ATYPE_CALLBACK then encode_callback_field w f p
       else lift (ofail ''invalid field type''))" for n msg
    by (rule ext) (simp only: encode_field_def Let_def if_distribR lift_def)
  show ?thesis unfolding e by (intro below_if below_refl below_basic below_field_encoder assms)
qed

lemma below_extensions:
  assumes "\<And>fs p. below (msg fs p) (msg' fs p)"
  shows "below (extension_loop w n msg k ext) (extension_loop w (Suc n) msg' (Suc k) ext)"
proof (induction k arbitrary: ext)
  case 0
  then show ?case by (simp add: below_def)
next
  case (Suc k)
  let ?m = "memory w" and ?f = "ext_field w (load64 (memory w) (load64 (memory w) ext + 16))"
  let ?fn = "load64 ?m (load64 ?m ext + 8)"
  have e: "extension_loop w n msg (Suc k) ext = (if ext = 0 then okay
      else rseq (if ?fn \<noteq> 0 then ext_user w ?fn ext else default_extension_encoder w n msg ext)
        (extension_loop w n msg k (load64 ?m (ext + 16))))" for n msg k
    by (rule HOL.ext) (simp add: Let_def)
  have d: "default_extension_encoder w n msg ext =
      (if PB_ATYPE (ftype ?f) = PB_ATYPE_POINTER then encode_field w n msg ?f (ext + 8)
       else encode_field w n msg ?f (load64 ?m (ext + 8)))" for n msg
    by (rule HOL.ext) (simp add: default_extension_encoder_def Let_def)
  show ?case unfolding e d by (intro below_if below_refl below_rseq below_field assms Suc)
qed

lemma below_fields:
  assumes "\<And>f p. below (enc f p) (enc' f p)"
  shows "below (fields_loop enc k it) (fields_loop enc' k it)"
proof (induction k arbitrary: it)
  case 0
  then show ?case by (simp add: below_def)
next
  case (Suc k)
  let ?next = "pb_field_iter_next it"
  have e: "fields_loop enc (Suc k) it = rseq (enc (cur it) (pData it))
      (if fst ?next then fields_loop enc k (snd ?next) else okay)" for enc :: "pb_field \<Rightarrow> u64 \<Rightarrow> 'a run"
    by (rule ext) (simp add: case_prod_beta)
  show ?case unfolding e by (intro below_rseq below_if below_refl assms Suc)
qed

lemma below_encode: "below (pb_encode w n fs p) (pb_encode w (Suc n) fs p)"
proof (induction n arbitrary: fs p)
  case 0
  then show ?case by (simp add: below_def)
next
  case (Suc n)
  let ?first = "pb_field_iter_begin fs p"
  have e: "pb_encode w (Suc n) fs p = (if \<not> fst ?first then okay
      else fields_loop (\<lambda>f p. if PB_LTYPE (ftype f) = PB_LTYPE_EXTENSION
                              then encode_extension_field w n (pb_encode w n) p
                              else encode_field w n (pb_encode w n) f p) (length fs) (snd ?first))" for n
    by (rule ext) (simp add: case_prod_beta Let_def)
  show ?case
    unfolding e [of n] e [of "Suc n"] encode_extension_field_def
    by (intro below_if below_refl below_fields below_extensions below_field Suc)
qed



end
