(* ===== verification/Pb_Decode.thy ===== *)
theory Pb_Decode
  imports Pb_Encode
begin

text \<open>
  The message decoder (\<^verbatim>\<open>pb_decode.c\<close> from \<open>decode_static_field\<close> on): the field decoders, static,
  pointer and callback fields, extensions, default values, the decoding loop and the release of a
  message. Memory is written; pointer fields are allocated. A result is \<open>None\<close> when a bound on the
  nesting, or on the length of a list in memory, is exceeded, when a null descriptor array would be
  read, and when memory that is not allocated would be freed or reallocated.
\<close>

section \<open>Memory and allocation\<close>

definition store :: "u64 \<Rightarrow> u8 list \<Rightarrow> memory \<Rightarrow> memory" where
  "store a bs m = (\<lambda>x. if x - a < of_nat (length bs) then bs ! unat (x - a) else m x)"

definition bytes16 :: "u16 \<Rightarrow> u8 list" where
  "bytes16 v = [ucast v, ucast (drop_bit 8 v)]"

text \<open>
  The state of a decoder: the stream, the memory, the size of every allocated block (zero where none
  starts) and the number of allocations made; and, of the message that is being decoded, the iterator and the counter
  \<^verbatim>\<open>fixed_count_size\<close>, with \<open>local_size\<close> for the iterator's \<open>pSize\<close> pointing at it.
\<close>

record 's dstate =
  strm :: "'s istream"
  dmem :: memory
  blocks :: "u64 \<Rightarrow> u64"
  allocs :: nat
  iter :: pb_field_iter
  local_size :: bool
  fixed_count_size :: u32

type_synonym 's dstep = "'s dstate step"

text \<open>
  What a message is made of: descriptor arrays, default values, the user's callbacks, the field an
  extension's type points to, and the address the \<open>k\<close>-th allocation gets (zero when it fails).
\<close>

record 's dworld =
  darrays :: "nat \<Rightarrow> pb_field list"
  defaults :: "nat \<Rightarrow> u8 list"
  duser :: "u64 \<Rightarrow> pb_field \<Rightarrow> u64 \<Rightarrow> 's dstep"
  dext_user :: "u64 \<Rightarrow> u64 \<Rightarrow> u32 \<Rightarrow> u32 \<Rightarrow> 's dstep"
  dext_field :: "u64 \<Rightarrow> pb_field"
  place :: "nat \<Rightarrow> u64 \<Rightarrow> u64"

definition poke :: "u64 \<Rightarrow> u8 list \<Rightarrow> 's dstate \<Rightarrow> 's dstate" where
  "poke a bs d = d\<lparr>dmem := store a bs (dmem d)\<rparr>"

definition dfail :: "string \<Rightarrow> 's dstep" where
  "dfail msg d = Some (False, d\<lparr>strm := snd (ifail msg (strm d) :: unit option \<times> 's istream)\<rparr>)"

definition rd :: "('s, 'a) reader \<Rightarrow> ('a \<Rightarrow> 's dstep) \<Rightarrow> 's dstep" where
  "rd f k d =
     (case f (strm d) of
        (None, s) \<Rightarrow> Some (False, d\<lparr>strm := s\<rparr>)
      | (Some a, s) \<Rightarrow> k a (d\<lparr>strm := s\<rparr>))"

text \<open>The C library's allocator; the contents of a block move with it.\<close>

definition pb_realloc :: "'s dworld \<Rightarrow> u64 \<Rightarrow> u64 \<Rightarrow> 's dstate \<Rightarrow> (u64 \<times> 's dstate) option" where
  "pb_realloc w p n d =
     (if p \<noteq> 0 \<and> blocks d p = 0 then None
      else let a = place w (allocs d) n; d = d\<lparr>allocs := allocs d + 1\<rparr>
           in if a = 0 then Some (0, d)
              else Some (a, d\<lparr>dmem := store a (load (dmem d) p (unat (min n (blocks d p)))) (dmem d),
                              blocks := (blocks d)(p := 0, a := n)\<rparr>))"

definition pb_free :: "u64 \<Rightarrow> 's dstate \<Rightarrow> 's dstate option" where
  "pb_free p d =
     (if p = 0 then Some d
      else if blocks d p = 0 then None
      else Some (d\<lparr>blocks := (blocks d)(p := 0)\<rparr>))"

definition allocate_field :: "'s dworld \<Rightarrow> u64 \<Rightarrow> u64 \<Rightarrow> u64 \<Rightarrow> 's dstep" where
  "allocate_field w p n count d =
     (let ptr = load64 (dmem d) p; check_limit = push_bit 32 1
      in if n = 0 \<or> count = 0 then dfail ''invalid size'' d
         else if (check_limit \<le> n \<or> check_limit \<le> count) \<and> - 1 div count < n
         then dfail ''size too large'' d
         else (case pb_realloc w ptr (count * n) d of
                 None \<Rightarrow> None
               | Some (a, d) \<Rightarrow>
                   if a = 0 then dfail ''realloc failed'' d
                   else Some (True, poke p (fixed64_bytes a) d)))"

section \<open>Field decoders\<close>

definition dec_bool :: "u64 \<Rightarrow> 's dstep" where
  "dec_bool dest =
     rd pb_decode_varint32 (\<lambda>value d. Some (True, poke dest [if value \<noteq> 0 then 1 else 0] d))"

definition pb_decode_bool :: "u64 \<Rightarrow> 's dstep" where
  "pb_decode_bool dest = dec_bool dest"

text \<open>The bytes that are stored and the number they stand for.\<close>

definition clamp_signed :: "u32 \<Rightarrow> u64 \<Rightarrow> (u8 list \<times> u64) option" where
  "clamp_signed n v =
     (if n = 8 then Some (fixed64_bytes v, v)
      else if n = 4 then Some (fixed32_bytes (ucast v), scast (ucast v :: u32))
      else if n = 2 then Some (bytes16 (ucast v), scast (ucast v :: u16))
      else if n = 1 then Some ([ucast v], scast (ucast v :: u8))
      else None)"

definition clamp_unsigned :: "u32 \<Rightarrow> u64 \<Rightarrow> (u8 list \<times> u64) option" where
  "clamp_unsigned n v =
     (if n = 8 then Some (fixed64_bytes v, v)
      else if n = 4 then Some (fixed32_bytes (ucast v), ucast (ucast v :: u32))
      else if n = 2 then Some (bytes16 (ucast v), ucast (ucast v :: u16))
      else if n = 1 then Some ([ucast v], ucast (ucast v :: u8))
      else None)"

definition put_clamped :: "(u8 list \<times> u64) option \<Rightarrow> u64 \<Rightarrow> u64 \<Rightarrow> 's dstep" where
  "put_clamped c value dest d =
     (case c of
        None \<Rightarrow> dfail ''invalid data_size'' d
      | Some (bs, clamped) \<Rightarrow>
          (let d = poke dest bs d
           in if clamped \<noteq> value then dfail ''integer too large'' d else Some (True, d)))"

definition pb_dec_varint :: "pb_field \<Rightarrow> u64 \<Rightarrow> 's dstep" where
  "pb_dec_varint f dest =
     rd pb_decode_varint (\<lambda>value.
       let svalue = (if data_size f = 8 then value else scast (ucast value :: u32))
       in put_clamped (clamp_signed (data_size f) svalue) svalue dest)"

definition pb_dec_uvarint :: "pb_field \<Rightarrow> u64 \<Rightarrow> 's dstep" where
  "pb_dec_uvarint f dest =
     rd pb_decode_varint (\<lambda>value. put_clamped (clamp_unsigned (data_size f) value) value dest)"

definition pb_dec_svarint :: "pb_field \<Rightarrow> u64 \<Rightarrow> 's dstep" where
  "pb_dec_svarint f dest =
     rd pb_decode_svarint (\<lambda>value. put_clamped (clamp_signed (data_size f) value) value dest)"

definition pb_dec_fixed32 :: "u64 \<Rightarrow> 's dstep" where
  "pb_dec_fixed32 dest = rd pb_decode_fixed32 (\<lambda>v d. Some (True, poke dest (fixed32_bytes v) d))"

definition pb_dec_fixed64 :: "u64 \<Rightarrow> 's dstep" where
  "pb_dec_fixed64 dest = rd pb_decode_fixed64 (\<lambda>v d. Some (True, poke dest (fixed64_bytes v) d))"

text \<open>
  \<open>pb_read\<close> into memory. A read that fails leaves the memory alone, and a user's stream fills no more
  bytes than it was asked for.
\<close>

definition read_to :: "u64 \<Rightarrow> u64 \<Rightarrow> 's dstep" where
  "read_to dest count = rd (pb_read_into count) (\<lambda>bs d. Some (True, poke dest (take (unat count) bs) d))"

definition pb_dec_bytes :: "'s dworld \<Rightarrow> pb_field \<Rightarrow> u64 \<Rightarrow> 's dstep" where
  "pb_dec_bytes w f dest =
     rd pb_decode_varint32 (\<lambda>n d.
       let alloc_size = ucast n + 4;
           put = (\<lambda>bdest d. read_to (bdest + 4) (ucast n) (poke bdest (fixed32_bytes n) d))
       in if PB_SIZE_MAX < n then dfail ''bytes overflow'' d
          else if alloc_size < ucast n then dfail ''size too large'' d
          else if PB_ATYPE (ftype f) = PB_ATYPE_POINTER
          then if bytes_left (strm d) < ucast n then dfail ''end-of-stream'' d
               else rseq (allocate_field w dest alloc_size 1) (\<lambda>d. put (load64 (dmem d) dest) d) d
          else if ucast (data_size f) < alloc_size then dfail ''bytes overflow'' d
          else put dest d)"

definition pb_dec_string :: "'s dworld \<Rightarrow> pb_field \<Rightarrow> u64 \<Rightarrow> 's dstep" where
  "pb_dec_string w f dest =
     rd pb_decode_varint32 (\<lambda>n d.
       let alloc_size = ucast (n + 1) :: u64;
           put = (\<lambda>dest d. map_option (\<lambda>(status, d). (status, poke (dest + ucast n) [0] d))
                    (read_to dest (ucast n) d))
       in if alloc_size < ucast n then dfail ''size too large'' d
          else if PB_ATYPE (ftype f) = PB_ATYPE_POINTER
          then if bytes_left (strm d) < ucast n then dfail ''end-of-stream'' d
               else rseq (allocate_field w dest alloc_size 1) (\<lambda>d. put (load64 (dmem d) dest) d) d
          else if ucast (data_size f) < alloc_size then dfail ''string overflow'' d
          else put dest d)"

definition pb_dec_fixed_length_bytes :: "pb_field \<Rightarrow> u64 \<Rightarrow> 's dstep" where
  "pb_dec_fixed_length_bytes f dest =
     rd pb_decode_varint32 (\<lambda>n d.
       if PB_SIZE_MAX < n then dfail ''bytes overflow'' d
       else if n = 0 then Some (True, poke dest (replicate (unat (data_size f)) 0) d)
       else if n \<noteq> data_size f then dfail ''incorrect fixed length bytes size'' d
       else read_to dest (ucast (data_size f)) d)"

text \<open>
  A body on the substream of a length-delimited field. When the substream cannot be closed, the
  parent keeps its own read position.
\<close>

definition with_substream :: "'s dstep \<Rightarrow> 's dstep" where
  "with_substream body d =
     (case pb_make_string_substream (strm d) of
        (None, s) \<Rightarrow> Some (False, d\<lparr>strm := s\<rparr>)
      | (Some sub, s) \<Rightarrow>
          (case body (d\<lparr>strm := sub\<rparr>) of
             None \<Rightarrow> None
           | Some (status, d) \<Rightarrow>
               (case pb_close_string_substream (strm d) s of
                  (None, s) \<Rightarrow> Some (False, d\<lparr>strm := s\<rparr>)
                | (Some _, s) \<Rightarrow> Some (status, d\<lparr>strm := s\<rparr>))))"

section \<open>Default values\<close>

text \<open>The iterator that stands for an extension: it covers one field.\<close>

definition iter_from_extension :: "'s dworld \<Rightarrow> memory \<Rightarrow> u64 \<Rightarrow> pb_field_iter" where
  "iter_from_extension w m ext =
     (let f = dext_field w (load64 m (load64 m ext + 16)); dest = load64 m (ext + 8);
          it = snd (pb_field_iter_begin [f] dest)
      in it\<lparr>pData := (if PB_ATYPE (ftype f) = PB_ATYPE_POINTER then ext + 8 else dest),
            pSize := ext + 24\<rparr>)"

text \<open>\<open>msg\<close> sets a submessage's fields.\<close>

definition static_default ::
  "'s dworld \<Rightarrow> (pb_field list \<Rightarrow> u64 \<Rightarrow> memory \<Rightarrow> memory option) \<Rightarrow> pb_field_iter \<Rightarrow> memory \<Rightarrow>
     memory option" where
  "static_default w msg it m =
     (let f = cur it; h = PB_HTYPE (ftype f)
      in if h = PB_HTYPE_REPEATED \<or> h = PB_HTYPE_ONEOF
         then Some (store (pSize it) (fixed32_bytes 0) m)
         else let m = (if h = PB_HTYPE_OPTIONAL \<and> pSize it \<noteq> pData it
                       then store (pSize it) [0] m else m)
              in if PB_LTYPE (ftype f) = PB_LTYPE_SUBMESSAGE
                 then (case ptr f of None \<Rightarrow> None | Some i \<Rightarrow> msg (darrays w i) (pData it) m)
                 else (case ptr f of
                         Some i \<Rightarrow> Some (store (pData it) (take (unat (data_size f)) (defaults w i)) m)
                       | None \<Rightarrow> Some (store (pData it) (replicate (unat (data_size f)) 0) m)))"

definition pointer_default :: "pb_field_iter \<Rightarrow> memory \<Rightarrow> memory" where
  "pointer_default it m =
     (let m = store (pData it) (fixed64_bytes 0) m; h = PB_HTYPE (ftype (cur it))
      in if h = PB_HTYPE_REPEATED \<or> h = PB_HTYPE_ONEOF
         then store (pSize it) (fixed32_bytes 0) m else m)"

fun pb_field_set_to_default ::
  "'s dworld \<Rightarrow> (pb_field list \<Rightarrow> u64 \<Rightarrow> memory \<Rightarrow> memory option) \<Rightarrow> nat \<Rightarrow> pb_field_iter \<Rightarrow>
     memory \<Rightarrow> memory option"
and set_extensions ::
  "'s dworld \<Rightarrow> (pb_field list \<Rightarrow> u64 \<Rightarrow> memory \<Rightarrow> memory option) \<Rightarrow> nat \<Rightarrow> u64 \<Rightarrow>
     memory \<Rightarrow> memory option" where
  "pb_field_set_to_default w msg 0 it m = None"
| "pb_field_set_to_default w msg (Suc k) it m =
     (let t = ftype (cur it)
      in if PB_LTYPE t = PB_LTYPE_EXTENSION then set_extensions w msg k (load64 m (pData it)) m
         else if PB_ATYPE t = PB_ATYPE_STATIC then static_default w msg it m
         else if PB_ATYPE t = PB_ATYPE_POINTER then Some (pointer_default it m)
         else Some m)"
| "set_extensions w msg 0 ext m = (if ext = 0 then Some m else None)"
| "set_extensions w msg (Suc k) ext m =
     (if ext = 0 then Some m
      else let m = store (ext + 24) [0] m
           in case pb_field_set_to_default w msg k (iter_from_extension w m ext) m of
                None \<Rightarrow> None
              | Some m \<Rightarrow> set_extensions w msg k (load64 m (ext + 16)) m)"

fun defaults_loop ::
  "(pb_field_iter \<Rightarrow> memory \<Rightarrow> memory option) \<Rightarrow> nat \<Rightarrow> pb_field_iter \<Rightarrow> memory \<Rightarrow> memory option" where
  "defaults_loop init 0 it m = None"
| "defaults_loop init (Suc k) it m =
     (case init it m of
        None \<Rightarrow> None
      | Some m \<Rightarrow>
          (let (more, it) = pb_field_iter_next it in if more then defaults_loop init k it m else Some m))"

fun pb_message_set_to_defaults ::
  "'s dworld \<Rightarrow> nat \<Rightarrow> pb_field list \<Rightarrow> u64 \<Rightarrow> memory \<Rightarrow> memory option" where
  "pb_message_set_to_defaults w 0 fs dest m = None"
| "pb_message_set_to_defaults w (Suc n) fs dest m =
     (let (some, it) = pb_field_iter_begin fs dest
      in if \<not> some then Some m
         else defaults_loop (pb_field_set_to_default w (pb_message_set_to_defaults w n) (Suc n))
                (length fs) it m)"
section \<open>Releasing\<close>

fun release_items :: "(u64 \<Rightarrow> 's dstate \<Rightarrow> 's dstate option) \<Rightarrow> u64 \<Rightarrow> nat \<Rightarrow> u64 \<Rightarrow> 's dstate \<Rightarrow>
    's dstate option" where
  "release_items rel step 0 p d = Some d"
| "release_items rel step (Suc c) p d =
     (case rel p d of None \<Rightarrow> None | Some d \<Rightarrow> release_items rel step c (p + step) d)"

fun free_entries :: "nat \<Rightarrow> u64 \<Rightarrow> 's dstate \<Rightarrow> 's dstate option" where
  "free_entries 0 p d = Some d"
| "free_entries (Suc c) p d =
     (case pb_free (load64 (dmem d) p) d of
        None \<Rightarrow> None
      | Some d \<Rightarrow> free_entries c (p + 8) (poke p (fixed64_bytes 0) d))"

text \<open>The submessages in a field, and the blocks of a pointer field; \<open>msg\<close> releases a submessage.\<close>

definition release_submessages ::
  "'s dworld \<Rightarrow> (pb_field list \<Rightarrow> u64 \<Rightarrow> 's dstate \<Rightarrow> 's dstate option) \<Rightarrow> pb_field_iter \<Rightarrow>
     's dstate \<Rightarrow> 's dstate option" where
  "release_submessages w msg it d =
     (let f = cur it; a = PB_ATYPE (ftype f); m = dmem d;
          pItem = (if a = PB_ATYPE_POINTER then load64 m (pData it) else pData it);
          count = (if PB_HTYPE (ftype f) = PB_HTYPE_REPEATED
                   then let c = (if a = PB_ATYPE_STATIC \<and> pSize it = pData it then array_size f
                                 else load32 m (pSize it))
                        in if a = PB_ATYPE_STATIC \<and> array_size f < c then array_size f else c
                   else 1)
      in if pItem = 0 then Some d
         else release_items (\<lambda>p d. case ptr f of None \<Rightarrow> None | Some i \<Rightarrow> msg (darrays w i) p d)
                (ucast (data_size f)) (unat count) pItem d)"

definition release_pointer :: "pb_field_iter \<Rightarrow> 's dstate \<Rightarrow> 's dstate option" where
  "release_pointer it d =
     (let f = cur it; t = PB_LTYPE (ftype f); rep = (PB_HTYPE (ftype f) = PB_HTYPE_REPEATED)
      in case (if rep \<and> (t = PB_LTYPE_STRING \<or> t = PB_LTYPE_BYTES)
               then free_entries (unat (load32 (dmem d) (pSize it))) (load64 (dmem d) (pData it)) d
               else Some d) of
           None \<Rightarrow> None
         | Some d \<Rightarrow>
             (let d = (if rep then poke (pSize it) (fixed32_bytes 0) d else d)
              in map_option (poke (pData it) (fixed64_bytes 0))
                   (pb_free (load64 (dmem d) (pData it)) d)))"

fun pb_release_single_field ::
  "'s dworld \<Rightarrow> (pb_field list \<Rightarrow> u64 \<Rightarrow> 's dstate \<Rightarrow> 's dstate option) \<Rightarrow> nat \<Rightarrow> pb_field_iter \<Rightarrow>
     's dstate \<Rightarrow> 's dstate option"
and release_extensions ::
  "'s dworld \<Rightarrow> (pb_field list \<Rightarrow> u64 \<Rightarrow> 's dstate \<Rightarrow> 's dstate option) \<Rightarrow> nat \<Rightarrow> u64 \<Rightarrow>
     's dstate \<Rightarrow> 's dstate option" where
  "pb_release_single_field w msg 0 it d = None"
| "pb_release_single_field w msg (Suc k) it d =
     (let f = cur it; t = PB_LTYPE (ftype f); a = PB_ATYPE (ftype f)
      in if PB_HTYPE (ftype f) = PB_HTYPE_ONEOF \<and> load32 (dmem d) (pSize it) \<noteq> tag f then Some d
         else case (if t = PB_LTYPE_EXTENSION
                    then release_extensions w msg k (load64 (dmem d) (pData it)) d
                    else if t = PB_LTYPE_SUBMESSAGE \<and> a \<noteq> PB_ATYPE_CALLBACK
                    then release_submessages w msg it d
                    else Some d) of
                None \<Rightarrow> None
              | Some d \<Rightarrow> if a = PB_ATYPE_POINTER then release_pointer it d else Some d)"
| "release_extensions w msg 0 ext d = (if ext = 0 then Some d else None)"
| "release_extensions w msg (Suc k) ext d =
     (if ext = 0 then Some d
      else case pb_release_single_field w msg k (iter_from_extension w (dmem d) ext) d of
             None \<Rightarrow> None
           | Some d \<Rightarrow> release_extensions w msg k (load64 (dmem d) (ext + 16)) d)"

fun release_loop ::
  "(pb_field_iter \<Rightarrow> 's dstate \<Rightarrow> 's dstate option) \<Rightarrow> nat \<Rightarrow> pb_field_iter \<Rightarrow> 's dstate \<Rightarrow>
     's dstate option" where
  "release_loop rel 0 it d = None"
| "release_loop rel (Suc k) it d =
     (case rel it d of
        None \<Rightarrow> None
      | Some d \<Rightarrow>
          (let (more, it) = pb_field_iter_next it in if more then release_loop rel k it d else Some d))"

fun pb_release :: "'s dworld \<Rightarrow> nat \<Rightarrow> pb_field list \<Rightarrow> u64 \<Rightarrow> 's dstate \<Rightarrow> 's dstate option" where
  "pb_release w 0 fs dest d = None"
| "pb_release w (Suc n) fs dest d =
     (let (some, it) = pb_field_iter_begin fs dest
      in if dest = 0 \<or> \<not> some then Some d
         else release_loop (pb_release_single_field w (pb_release w n) (Suc n)) (length fs) it d)"

text \<open>The iterator of the message being decoded moves to the old field and back.\<close>

definition pb_release_union_field :: "'s dworld \<Rightarrow> nat \<Rightarrow> 's dstep" where
  "pb_release_union_field w n d =
     (let old_tag = load32 (dmem d) (pSize (iter d)); new_tag = tag (cur (iter d))
      in if old_tag = 0 \<or> old_tag = new_tag then Some (True, d)
         else case pb_field_iter_find old_tag (iter d) of
                None \<Rightarrow> None
              | Some (False, it) \<Rightarrow> dfail ''invalid union tag'' (d\<lparr>iter := it\<rparr>)
              | Some (True, it) \<Rightarrow>
                  (case pb_release_single_field w (pb_release w n) (Suc n) it (d\<lparr>iter := it\<rparr>) of
                     None \<Rightarrow> None
                   | Some d \<Rightarrow>
                       (case pb_field_iter_find new_tag it of
                          None \<Rightarrow> None
                        | Some (False, it) \<Rightarrow> dfail ''iterator error'' (d\<lparr>iter := it\<rparr>)
                        | Some (True, it) \<Rightarrow>
                            (let d = d\<lparr>iter := it\<rparr>
                             in Some (True, if PB_ATYPE (ftype (cur it)) = PB_ATYPE_POINTER
                                            then poke (pData it) (fixed64_bytes 0) d else d)))))"
section \<open>Decoding a field\<close>

text \<open>The counter the iterator's \<open>pSize\<close> points at.\<close>

definition get_size :: "'s dstate \<Rightarrow> u32" where
  "get_size d = (if local_size d then fixed_count_size d else load32 (dmem d) (pSize (iter d)))"

definition set_size :: "u32 \<Rightarrow> 's dstate \<Rightarrow> 's dstate" where
  "set_size v d =
     (if local_size d then d\<lparr>fixed_count_size := v\<rparr> else poke (pSize (iter d)) (fixed32_bytes v) d)"

text \<open>\<open>memset\<close> and the defaults of a submessage.\<close>

definition init_message :: "'s dworld \<Rightarrow> nat \<Rightarrow> pb_field \<Rightarrow> u64 \<Rightarrow> 's dstate \<Rightarrow> 's dstate option" where
  "init_message w n f p d =
     (case ptr f of
        None \<Rightarrow> None
      | Some i \<Rightarrow>
          (case pb_message_set_to_defaults w n (darrays w i) p
                  (store p (replicate (unat (data_size f)) 0) (dmem d)) of
             None \<Rightarrow> None
           | Some m \<Rightarrow> Some (d\<lparr>dmem := m\<rparr>)))"

text \<open>
  \<open>noinit\<close> decodes a submessage into memory that is initialised; \<open>pb_decode_at\<close> initialises it first
  and releases it when decoding fails.
\<close>

definition pb_decode_at ::
  "'s dworld \<Rightarrow> nat \<Rightarrow> (pb_field list \<Rightarrow> u64 \<Rightarrow> 's dstep) \<Rightarrow> pb_field list \<Rightarrow> u64 \<Rightarrow> 's dstep" where
  "pb_decode_at w n noinit fs dest d =
     (case pb_message_set_to_defaults w n fs dest (dmem d) of
        None \<Rightarrow> None
      | Some m \<Rightarrow>
          (case noinit fs dest (d\<lparr>dmem := m\<rparr>) of
             None \<Rightarrow> None
           | Some (status, d) \<Rightarrow>
               if status then Some (True, d) else map_option (Pair False) (pb_release w n fs dest d)))"

definition pb_dec_submessage ::
  "'s dworld \<Rightarrow> nat \<Rightarrow> (pb_field list \<Rightarrow> u64 \<Rightarrow> 's dstep) \<Rightarrow> pb_field \<Rightarrow> u64 \<Rightarrow> 's dstep" where
  "pb_dec_submessage w n noinit f dest d =
     (case ptr f of
        None \<Rightarrow> rd pb_make_string_substream (\<lambda>_. dfail ''invalid field descriptor'') d
      | Some i \<Rightarrow>
          with_substream (if PB_HTYPE (ftype f) = PB_HTYPE_REPEATED
                          then pb_decode_at w n noinit (darrays w i) dest
                          else noinit (darrays w i) dest) d)"

text \<open>The table \<^verbatim>\<open>PB_DECODERS\<close>.\<close>

definition field_decoder ::
  "'s dworld \<Rightarrow> nat \<Rightarrow> (pb_field list \<Rightarrow> u64 \<Rightarrow> 's dstep) \<Rightarrow> pb_field \<Rightarrow> u64 \<Rightarrow> 's dstep" where
  "field_decoder w n noinit f dest =
     (let t = PB_LTYPE (ftype f)
      in if t = PB_LTYPE_BOOL then dec_bool dest
         else if t = PB_LTYPE_VARINT then pb_dec_varint f dest
         else if t = PB_LTYPE_UVARINT then pb_dec_uvarint f dest
         else if t = PB_LTYPE_SVARINT then pb_dec_svarint f dest
         else if t = PB_LTYPE_FIXED32 then pb_dec_fixed32 dest
         else if t = PB_LTYPE_FIXED64 then pb_dec_fixed64 dest
         else if t = PB_LTYPE_BYTES then pb_dec_bytes w f dest
         else if t = PB_LTYPE_STRING then pb_dec_string w f dest
         else if t = PB_LTYPE_SUBMESSAGE then pb_dec_submessage w n noinit f dest
         else if t = PB_LTYPE_FIXED_LENGTH_BYTES then pb_dec_fixed_length_bytes f dest
         else stuck)"

text \<open>Where the item with the counter's number is; the product has 32 bits.\<close>

definition item_at :: "u64 \<Rightarrow> pb_field \<Rightarrow> 's dstate \<Rightarrow> u64" where
  "item_at base f d = base + ucast (data_size f * get_size d)"

text \<open>A packed array in place. Every item takes at least a byte, so as many rounds as bytes suffice.\<close>

fun static_packed :: "(u64 \<Rightarrow> 's dstep) \<Rightarrow> pb_field \<Rightarrow> nat \<Rightarrow> 's dstep" where
  "static_packed dec f 0 d = None"
| "static_packed dec f (Suc k) d =
     (if bytes_left (strm d) = 0 \<or> array_size f \<le> get_size d then Some (True, d)
      else case dec (item_at (pData (iter d)) f d) d of
             None \<Rightarrow> None
           | Some (ok, d) \<Rightarrow>
               if ok then static_packed dec f k (set_size (get_size d + 1) d) else Some (False, d))"

definition decode_static_field ::
  "'s dworld \<Rightarrow> nat \<Rightarrow> (pb_field list \<Rightarrow> u64 \<Rightarrow> 's dstep) \<Rightarrow> u32 \<Rightarrow> 's dstep" where
  "decode_static_field w n noinit wire_type d =
     (let it = iter d; f = cur it; h = PB_HTYPE (ftype f); t = PB_LTYPE (ftype f);
          dec = field_decoder w n noinit f
      in if h = PB_HTYPE_REQUIRED then dec (pData it) d
         else if h = PB_HTYPE_OPTIONAL
         then dec (pData it) (if pSize it \<noteq> pData it then poke (pSize it) [1] d else d)
         else if h = PB_HTYPE_REPEATED
         then if wire_type = PB_WT_STRING \<and> t \<le> PB_LTYPE_LAST_PACKABLE
              then (case pb_make_string_substream (strm d) of
                      (None, s) \<Rightarrow> Some (False, d\<lparr>strm := s\<rparr>)
                    | (Some sub, s) \<Rightarrow>
                        (case static_packed dec f (Suc (unat (bytes_left sub))) (d\<lparr>strm := sub\<rparr>) of
                           None \<Rightarrow> None
                         | Some (status, d) \<Rightarrow>
                             if bytes_left (strm d) \<noteq> 0 then dfail ''array overflow'' (d\<lparr>strm := s\<rparr>)
                             else (case pb_close_string_substream (strm d) s of
                                     (None, s) \<Rightarrow> Some (False, d\<lparr>strm := s\<rparr>)
                                   | (Some _, s) \<Rightarrow> Some (status, d\<lparr>strm := s\<rparr>))))
              else let p = item_at (pData it) f d; k = get_size d; d = set_size (k + 1) d
                   in if array_size f \<le> k then dfail ''array overflow'' d else dec p d
         else if h = PB_HTYPE_ONEOF
         then (case (if t = PB_LTYPE_SUBMESSAGE \<and> load32 (dmem d) (pSize it) \<noteq> tag f
                     then init_message w n f (pData it) d else Some d) of
                 None \<Rightarrow> None
               | Some d \<Rightarrow> dec (pData it) (poke (pSize it) (fixed32_bytes (tag f)) d))
         else dfail ''invalid field type'' d)"

section \<open>Pointer fields\<close>

definition initialize_pointer_field ::
  "'s dworld \<Rightarrow> nat \<Rightarrow> u64 \<Rightarrow> pb_field \<Rightarrow> 's dstate \<Rightarrow> 's dstate option" where
  "initialize_pointer_field w n p f d =
     (let t = PB_LTYPE (ftype f)
      in if t = PB_LTYPE_STRING \<or> t = PB_LTYPE_BYTES then Some (poke p (fixed64_bytes 0) d)
         else if t = PB_LTYPE_SUBMESSAGE then init_message w n f p d
         else Some d)"

text \<open>
  The loop over a packed array: how it ended, whether the array had too many entries, and the state.
\<close>

fun pointer_packed ::
  "'s dworld \<Rightarrow> nat \<Rightarrow> (u64 \<Rightarrow> 's dstep) \<Rightarrow> pb_field \<Rightarrow> nat \<Rightarrow> u64 \<Rightarrow> 's dstate \<Rightarrow>
     (bool \<times> bool \<times> 's dstate) option" where
  "pointer_packed w n dec f 0 allocated_size d = None"
| "pointer_packed w n dec f (Suc k) allocated_size d =
     (if bytes_left (strm d) = 0 then Some (True, False, d)
      else if get_size d = PB_SIZE_MAX then Some (False, True, d)
      else
        let grow = (allocated_size < ucast (get_size d) + 1);
            remain = (bytes_left (strm d) - 1) div ucast (data_size f) + 1;
            allocated_size =
              (if \<not> grow then allocated_size
               else if remain < ucast PB_SIZE_MAX - allocated_size then allocated_size + remain
               else allocated_size + 1)
        in if grow \<and> data_size f = 0 then None
           else case (if grow then allocate_field w (pData (iter d)) (ucast (data_size f)) allocated_size d
                      else Some (True, d)) of
                  None \<Rightarrow> None
                | Some (False, d) \<Rightarrow> Some (False, False, d)
                | Some (True, d) \<Rightarrow>
                    (let p = item_at (load64 (dmem d) (pData (iter d))) f d
                     in if p = 0 then Some (False, False, d)
                        else case initialize_pointer_field w n p f d of
                               None \<Rightarrow> None
                             | Some d \<Rightarrow>
                                 (case dec p d of
                                    None \<Rightarrow> None
                                  | Some (False, d) \<Rightarrow> Some (False, False, d)
                                  | Some (True, d) \<Rightarrow>
                                      pointer_packed w n dec f k allocated_size
                                        (set_size (get_size d + 1) d))))"

text \<open>A single value: the old submessage is released, and the storage allocated and cleared.\<close>

definition decode_pointer_single ::
  "'s dworld \<Rightarrow> nat \<Rightarrow> (pb_field list \<Rightarrow> u64 \<Rightarrow> 's dstep) \<Rightarrow> 's dstep" where
  "decode_pointer_single w n noinit d =
     (let it = iter d; f = cur it; t = PB_LTYPE (ftype f); dec = field_decoder w n noinit f
      in case (if t = PB_LTYPE_SUBMESSAGE \<and> load64 (dmem d) (pData it) \<noteq> 0
               then pb_release_single_field w (pb_release w n) (Suc n) it d else Some d) of
           None \<Rightarrow> None
         | Some d \<Rightarrow>
             (let d = (if PB_HTYPE (ftype f) = PB_HTYPE_ONEOF
                       then poke (pSize it) (fixed32_bytes (tag f)) d else d)
              in if t = PB_LTYPE_STRING \<or> t = PB_LTYPE_BYTES then dec (pData it) d
                 else rseq (allocate_field w (pData it) (ucast (data_size f)) 1)
                        (\<lambda>d. case initialize_pointer_field w n (load64 (dmem d) (pData it)) f d of
                                None \<Rightarrow> None
                              | Some d \<Rightarrow> dec (load64 (dmem d) (pData it)) d) d))"

definition decode_pointer_field ::
  "'s dworld \<Rightarrow> nat \<Rightarrow> (pb_field list \<Rightarrow> u64 \<Rightarrow> 's dstep) \<Rightarrow> u32 \<Rightarrow> 's dstep" where
  "decode_pointer_field w n noinit wire_type d =
     (let it = iter d; f = cur it; h = PB_HTYPE (ftype f); t = PB_LTYPE (ftype f);
          dec = field_decoder w n noinit f
      in if h = PB_HTYPE_REQUIRED \<or> h = PB_HTYPE_OPTIONAL \<or> h = PB_HTYPE_ONEOF
         then decode_pointer_single w n noinit d
         else if h = PB_HTYPE_REPEATED
         then if wire_type = PB_WT_STRING \<and> t \<le> PB_LTYPE_LAST_PACKABLE
              then (case pb_make_string_substream (strm d) of
                      (None, s) \<Rightarrow> Some (False, d\<lparr>strm := s\<rparr>)
                    | (Some sub, s) \<Rightarrow>
                        (case pointer_packed w n dec f (Suc (unat (bytes_left sub)))
                                (ucast (get_size d)) (d\<lparr>strm := sub\<rparr>) of
                           None \<Rightarrow> None
                         | Some (status, too_many, d) \<Rightarrow>
                             (let s = (if too_many then s\<lparr>i_errmsg := Some ''too many array entries''\<rparr>
                                       else s)
                              in case pb_close_string_substream (strm d) s of
                                   (None, s) \<Rightarrow> Some (False, d\<lparr>strm := s\<rparr>)
                                 | (Some _, s) \<Rightarrow> Some (status, d\<lparr>strm := s\<rparr>))))
              else if get_size d = PB_SIZE_MAX then dfail ''too many array entries'' d
              else rseq (allocate_field w (pData it) (ucast (data_size f)) (ucast (get_size d + 1)))
                     (\<lambda>d. let p = item_at (load64 (dmem d) (pData it)) f d;
                              d = set_size (get_size d + 1) d
                          in case initialize_pointer_field w n p f d of
                               None \<Rightarrow> None | Some d \<Rightarrow> dec p d) d
         else dfail ''invalid field type'' d)"
section \<open>Callback fields\<close>

text \<open>
  The callback is called until the substream is used up, at most \<open>k\<close> times; when it fails, the parent
  stream gets the message.
\<close>

fun callback_loop :: "'s dstep \<Rightarrow> nat \<Rightarrow> 's dstep" where
  "callback_loop f 0 d = None"
| "callback_loop f (Suc k) d =
     (case f d of
        None \<Rightarrow> None
      | Some (False, d) \<Rightarrow> Some (False, d)
      | Some (True, d) \<Rightarrow> if bytes_left (strm d) \<noteq> 0 then callback_loop f k d else Some (True, d))"

definition decode_callback_field :: "'s dworld \<Rightarrow> u32 \<Rightarrow> 's dstep" where
  "decode_callback_field w wire_type d =
     (let it = iter d; fn = load64 (dmem d) (pData it); call = duser w fn (cur it) (pData it + 8)
      in if pData it = 0 \<or> fn = 0 then rd (pb_skip_field wire_type) (\<lambda>_. okay) d
         else if wire_type = PB_WT_STRING
         then (case pb_make_string_substream (strm d) of
                 (None, s) \<Rightarrow> Some (False, d\<lparr>strm := s\<rparr>)
               | (Some sub, s) \<Rightarrow>
                   (case callback_loop call (Suc (unat (bytes_left sub))) (d\<lparr>strm := sub\<rparr>) of
                      None \<Rightarrow> None
                    | Some (False, d) \<Rightarrow> dfail ''callback failed'' (d\<lparr>strm := s\<rparr>)
                    | Some (True, d) \<Rightarrow>
                        (case pb_close_string_substream (strm d) s of
                           (None, s) \<Rightarrow> Some (False, d\<lparr>strm := s\<rparr>)
                         | (Some _, s) \<Rightarrow> Some (True, d\<lparr>strm := s\<rparr>))))
         else rd (read_raw_value wire_type 10)
                (\<lambda>bs d. map_option (\<lambda>(ok, d'). (ok, d'\<lparr>strm := strm d\<rparr>))
                   (call (d\<lparr>strm := pb_istream_from_buffer bs (of_nat (length bs))\<rparr>))) d)"

definition decode_field ::
  "'s dworld \<Rightarrow> nat \<Rightarrow> (pb_field list \<Rightarrow> u64 \<Rightarrow> 's dstep) \<Rightarrow> u32 \<Rightarrow> 's dstep" where
  "decode_field w n noinit wire_type =
     rseq (\<lambda>d. if PB_HTYPE (ftype (cur (iter d))) = PB_HTYPE_ONEOF then pb_release_union_field w n d
               else okay d)
       (\<lambda>d. let a = PB_ATYPE (ftype (cur (iter d)))
            in if a = PB_ATYPE_STATIC then decode_static_field w n noinit wire_type d
               else if a = PB_ATYPE_POINTER then decode_pointer_field w n noinit wire_type d
               else if a = PB_ATYPE_CALLBACK then decode_callback_field w wire_type d
               else dfail ''invalid field type'' d)"

section \<open>Extensions\<close>

definition default_extension_decoder ::
  "'s dworld \<Rightarrow> nat \<Rightarrow> (pb_field list \<Rightarrow> u64 \<Rightarrow> 's dstep) \<Rightarrow> u64 \<Rightarrow> u32 \<Rightarrow> u32 \<Rightarrow> 's dstep" where
  "default_extension_decoder w n noinit ext t wire_type d =
     (let f = dext_field w (load64 (dmem d) (load64 (dmem d) ext + 16));
          it = iter_from_extension w (dmem d) ext; d' = poke (ext + 24) [1] d
      in if tag f \<noteq> t then okay d
         else map_option (\<lambda>(ok, d'). (ok, d'\<lparr>iter := iter d, local_size := local_size d\<rparr>))
                (decode_field w n noinit wire_type (d'\<lparr>iter := it, local_size := False\<rparr>)))"

fun decode_extension_loop ::
  "'s dworld \<Rightarrow> nat \<Rightarrow> (pb_field list \<Rightarrow> u64 \<Rightarrow> 's dstep) \<Rightarrow> u32 \<Rightarrow> u32 \<Rightarrow> u64 \<Rightarrow> nat \<Rightarrow> u64 \<Rightarrow>
     's dstep" where
  "decode_extension_loop w n noinit t wire_type left 0 ext d =
     (if ext = 0 \<or> left \<noteq> bytes_left (strm d) then okay d else None)"
| "decode_extension_loop w n noinit t wire_type left (Suc k) ext d =
     (if ext = 0 \<or> left \<noteq> bytes_left (strm d) then okay d
      else let fn = load64 (dmem d) (load64 (dmem d) ext)
           in rseq (if fn \<noteq> 0 then dext_user w fn ext t wire_type
                    else default_extension_decoder w n noinit ext t wire_type)
                (\<lambda>d. decode_extension_loop w n noinit t wire_type left k
                        (load64 (dmem d) (ext + 16)) d) d)"

definition decode_extension ::
  "'s dworld \<Rightarrow> nat \<Rightarrow> (pb_field list \<Rightarrow> u64 \<Rightarrow> 's dstep) \<Rightarrow> u32 \<Rightarrow> u32 \<Rightarrow> 's dstep" where
  "decode_extension w n noinit t wire_type d =
     decode_extension_loop w n noinit t wire_type (bytes_left (strm d)) n
       (load64 (dmem d) (pData (iter d))) d"

text \<open>
  The search for the extension field from position \<open>s0\<close>; the flag says whether the iterator moved.
\<close>

fun find_extension_field :: "nat \<Rightarrow> nat \<Rightarrow> bool \<Rightarrow> pb_field_iter \<Rightarrow> (bool \<times> bool \<times> pb_field_iter) option"
where
  "find_extension_field 0 s0 moved it = None"
| "find_extension_field (Suc k) s0 moved it =
     (if PB_LTYPE (ftype (cur it)) = PB_LTYPE_EXTENSION then Some (True, moved, it)
      else let it = snd (pb_field_iter_next it)
           in if pos it \<noteq> s0 then find_extension_field k s0 True it else Some (False, True, it))"

section \<open>Decoding a message\<close>

text \<open>
  A field the descriptors do not have: an extension or skipped. The number is
  \<^verbatim>\<open>extension_range_start\<close>.
\<close>

definition decode_unknown ::
  "'s dworld \<Rightarrow> nat \<Rightarrow> (pb_field list \<Rightarrow> u64 \<Rightarrow> 's dstep) \<Rightarrow> u32 \<Rightarrow> u32 \<Rightarrow> u32 \<Rightarrow> 's dstate \<Rightarrow>
     (bool \<times> u32 \<times> 's dstate) option" where
  "decode_unknown w n noinit t wire_type ext_start d =
     (let skip = (\<lambda>ext_start d. map_option (\<lambda>(ok, d). (ok, ext_start, d))
            (rd (pb_skip_field wire_type) (\<lambda>_. okay) d))
      in if t < ext_start then skip ext_start d
         else case find_extension_field (length (start (iter d)) + 1) (pos (iter d)) False (iter d) of
                None \<Rightarrow> None
              | Some (found, moved, it) \<Rightarrow>
                  (let ext_start = (if found then tag (cur it) else - 1);
                       d = d\<lparr>iter := it, local_size := local_size d \<and> \<not> moved\<rparr>;
                       left = bytes_left (strm d)
                   in if t < ext_start then skip ext_start d
                      else (case decode_extension w n noinit t wire_type d of
                              None \<Rightarrow> None
                            | Some (False, d) \<Rightarrow> Some (False, ext_start, d)
                            | Some (True, d) \<Rightarrow>
                                if left \<noteq> bytes_left (strm d) then Some (True, ext_start, d)
                                else skip ext_start d)))"

definition PB_MAX_REQUIRED_FIELDS :: u32 where
  "PB_MAX_REQUIRED_FIELDS = 64"

text \<open>
  A field the iterator stands on. \<open>fixed\<close> is the position of \<^verbatim>\<open>fixed_count_field\<close>, \<open>seen\<close> the two
  words of \<^verbatim>\<open>fields_seen\<close>.
\<close>

definition mark_seen :: "pb_field_iter \<Rightarrow> u32 list \<Rightarrow> u32 list" where
  "mark_seen it seen =
     (let r = required_field_index it; i = unat (drop_bit 5 r)
      in if PB_HTYPE (ftype (cur it)) = PB_HTYPE_REQUIRED \<and> r < PB_MAX_REQUIRED_FIELDS
         then seen[i := (seen ! i) OR push_bit (unat (r AND 31)) 1] else seen)"

definition decode_known ::
  "'s dworld \<Rightarrow> nat \<Rightarrow> (pb_field list \<Rightarrow> u64 \<Rightarrow> 's dstep) \<Rightarrow> u32 \<Rightarrow> u32 list \<Rightarrow> nat option \<Rightarrow>
     's dstate \<Rightarrow> (bool \<times> u32 list \<times> nat option \<times> 's dstate) option" where
  "decode_known w n noinit wire_type seen fixed d =
     (let it = iter d; seen' = mark_seen it seen;
          field = (\<lambda>fixed d. map_option (\<lambda>(ok, d). (ok, seen', fixed, d)) (decode_field w n noinit wire_type d))
      in if PB_HTYPE (ftype (cur it)) = PB_HTYPE_REPEATED \<and> \<not> local_size d \<and> pSize it = pData it
         then if fixed \<noteq> Some (pos it)
              then if \<exists>i \<in> set_option fixed. fixed_count_size d \<noteq> array_size (field_at (start it) i)
                   then map_option (\<lambda>(ok, d). (ok, seen, fixed, d))
                          (dfail ''wrong size for fixed count field'' d)
                   else field (Some (pos it)) (d\<lparr>fixed_count_size := 0, local_size := True\<rparr>)
              else field fixed (d\<lparr>local_size := True\<rparr>)
         else field fixed d)"

text \<open>The loop: at most \<open>k\<close> rounds, each of which reads a tag. \<open>wanted\<close> says that the search stays in place.\<close>

fun decode_loop ::
  "'s dworld \<Rightarrow> nat \<Rightarrow> (pb_field list \<Rightarrow> u64 \<Rightarrow> 's dstep) \<Rightarrow> nat \<Rightarrow> u32 \<Rightarrow> u32 list \<Rightarrow> nat option \<Rightarrow>
     's dstate \<Rightarrow> (bool \<times> u32 list \<times> nat option \<times> 's dstate) option" where
  "decode_loop w n noinit 0 ext_start seen fixed d = None"
| "decode_loop w n noinit (Suc k) ext_start seen fixed d =
     (if bytes_left (strm d) = 0 then Some (True, seen, fixed, d)
      else let (ok, wire_type, t, eof, s) = pb_decode_tag (strm d); d = d\<lparr>strm := s\<rparr>
           in if \<not> ok then Some (eof, seen, fixed, d)
              else case pb_field_iter_find t (iter d) of
                     None \<Rightarrow> None
                   | Some (found, it) \<Rightarrow>
                       (let d = d\<lparr>iter := it, local_size := local_size d \<and> wanted t (cur (iter d))\<rparr>
                        in if \<not> found
                           then (case decode_unknown w n noinit t wire_type ext_start d of
                                   None \<Rightarrow> None
                                 | Some (ok, ext_start, d) \<Rightarrow>
                                     if ok then decode_loop w n noinit k ext_start seen fixed d
                                     else Some (False, seen, fixed, d))
                           else (case decode_known w n noinit wire_type seen fixed d of
                                   None \<Rightarrow> None
                                 | Some (ok, seen, fixed, d) \<Rightarrow>
                                     if ok then decode_loop w n noinit k ext_start seen fixed d
                                     else Some (False, seen, fixed, d))))"

text \<open>The number of required fields: the walk to the end of the descriptors.\<close>

fun last_field :: "nat \<Rightarrow> pb_field_iter \<Rightarrow> (u32 \<times> u8 \<times> pb_field_iter) option" where
  "last_field 0 it = None"
| "last_field (Suc k) it =
     (let r = required_field_index it; ty = ftype (cur it); (more, it) = pb_field_iter_next it
      in if more then last_field k it else Some (r, ty, it))"

definition required_count :: "pb_field_iter \<Rightarrow> u32 option" where
  "required_count it =
     (case last_field (length (start it) + 1) it of
        None \<Rightarrow> None
      | Some (r, ty, it) \<Rightarrow>
          (let r = (if PB_HTYPE ty = PB_HTYPE_REQUIRED \<and> tag (cur it) \<noteq> 0 then r + 1 else r)
           in Some (if PB_MAX_REQUIRED_FIELDS < r then PB_MAX_REQUIRED_FIELDS else r)))"

definition all_seen :: "u32 \<Rightarrow> u32 list \<Rightarrow> bool" where
  "all_seen r seen \<longleftrightarrow>
     (\<forall>i \<in> set [0..<unat (drop_bit 5 r)]. seen ! i = - 1) \<and>
     (r AND 31 \<noteq> 0 \<longrightarrow> seen ! unat (drop_bit 5 r) = drop_bit (32 - unat (r AND 31)) (- 1))"

fun pb_decode_noinit :: "'s dworld \<Rightarrow> nat \<Rightarrow> pb_field list \<Rightarrow> u64 \<Rightarrow> 's dstep" where
  "pb_decode_noinit w 0 fs dest d = None"
| "pb_decode_noinit w (Suc n) fs dest d =
     (let d' = d\<lparr>iter := snd (pb_field_iter_begin fs dest), local_size := False, fixed_count_size := 0\<rparr>;
          back = (\<lambda>d'. d'\<lparr>iter := iter d, local_size := local_size d,
                          fixed_count_size := fixed_count_size d\<rparr>)
      in case decode_loop w n (pb_decode_noinit w n) (Suc (unat (bytes_left (strm d)))) 0 [0, 0] None d' of
           None \<Rightarrow> None
         | Some (False, _, _, d') \<Rightarrow> Some (False, back d')
         | Some (True, seen, fixed, d') \<Rightarrow>
             if \<exists>i \<in> set_option fixed. fixed_count_size d' \<noteq> array_size (field_at fs i)
             then dfail ''wrong size for fixed count field'' (back d')
             else (case required_count (iter d') of
                     None \<Rightarrow> None
                   | Some r \<Rightarrow> if all_seen r seen then Some (True, back d')
                               else dfail ''missing required field'' (back d')))"

definition pb_decode :: "'s dworld \<Rightarrow> nat \<Rightarrow> pb_field list \<Rightarrow> u64 \<Rightarrow> 's dstep" where
  "pb_decode w n fs dest = pb_decode_at w n (pb_decode_noinit w n) fs dest"

definition pb_decode_delimited_noinit :: "'s dworld \<Rightarrow> nat \<Rightarrow> pb_field list \<Rightarrow> u64 \<Rightarrow> 's dstep" where
  "pb_decode_delimited_noinit w n fs dest = with_substream (pb_decode_noinit w n fs dest)"

definition pb_decode_delimited :: "'s dworld \<Rightarrow> nat \<Rightarrow> pb_field list \<Rightarrow> u64 \<Rightarrow> 's dstep" where
  "pb_decode_delimited w n fs dest = with_substream (pb_decode w n fs dest)"

definition pb_decode_nullterminated :: "'s dworld \<Rightarrow> nat \<Rightarrow> pb_field list \<Rightarrow> u64 \<Rightarrow> 's dstep" where
  "pb_decode_nullterminated w n fs dest = pb_decode w n fs dest"

end
