(* ===== verification/Pb_Safety.thy ===== *)
theory Pb_Safety
  imports Pb_Decode
begin

text \<open>
  Where the decoder writes. A layout check says that the fields of a statically allocated message,
  its submessages and their counters lie inside a region of memory; then whatever bytes are
  decoded, memory outside the region does not change. The check demands four bytes for the
  counter of every repeated field, because the defaults write them even where the field has no counter.
\<close>

section \<open>Regions\<close>

definition inside :: "u64 \<Rightarrow> u64 \<Rightarrow> u64 \<Rightarrow> nat \<Rightarrow> bool" where
  "inside b n a len \<longleftrightarrow> unat (a - b) + len \<le> unat n"

definition outside :: "u64 \<Rightarrow> u64 \<Rightarrow> memory \<Rightarrow> memory \<Rightarrow> bool" where
  "outside b n m m' \<longleftrightarrow> (\<forall>a. \<not> a - b < n \<longrightarrow> m' a = m a)"

lemma inside_less: "inside b n a len \<Longrightarrow> k \<le> len \<Longrightarrow> inside b n a k"
  by (simp add: inside_def)

lemma unat_add_small:
  "unat (x :: u64) + unat y < 2 ^ 64 \<Longrightarrow> unat (x + y) = unat x + unat y"
  by (subst unat_add_lem [THEN iffD1]) simp_all

lemma inside_offset:
  assumes "inside b n a (k + len)"
  shows "inside b n (a + of_nat k) len"
proof -
  have le: "unat (a - b) + k + len \<le> unat n" using assms by (simp add: inside_def)
  then have "k < 2 ^ 64" using unat_u64_lt [of n] by simp
  then have k: "unat (of_nat k :: u64) = k" by (rule unat_u64_of_nat)
  have "unat ((a - b) + of_nat k) = unat (a - b) + k"
    using le k unat_u64_lt [of n] by (subst unat_add_small) simp_all
  moreover have "a + of_nat k - b = (a - b) + of_nat k" by simp
  ultimately show ?thesis using le by (simp only: inside_def)
qed

lemma outside_refl: "outside b n m m"
  by (simp add: outside_def)

lemma outside_trans: "outside b n m1 m2 \<Longrightarrow> outside b n m2 m3 \<Longrightarrow> outside b n m1 m3"
  by (simp add: outside_def)

lemma outside_store:
  assumes "inside b n a (length bs)"
  shows "outside b n m (store a bs m)"
  unfolding outside_def
proof (intro allI impI)
  fix x assume x: "\<not> x - b < n"
  have "\<not> x - a < of_nat (length bs)"
  proof
    assume lt: "x - a < of_nat (length bs)"
    have le: "unat (a - b) + length bs \<le> unat n" using assms by (simp add: inside_def)
    then have "length bs < 2 ^ 64" using unat_u64_lt [of n] by simp
    then have "unat (of_nat (length bs) :: u64) = length bs" by (rule unat_u64_of_nat)
    with lt have lt: "unat (x - a) < length bs" by (simp add: word_less_nat_alt)
    have "unat ((x - a) + (a - b)) = unat (x - a) + unat (a - b)"
      using le lt unat_u64_lt [of n] by (intro unat_add_small) simp
    then have "unat (x - b) = unat (x - a) + unat (a - b)" by simp
    then have "unat (x - b) < unat n" using le lt by linarith
    with x show False by (simp add: word_less_nat_alt)
  qed
  then show "store a bs m x = m x" by (simp add: store_def)
qed

lemma outside_store2: "outside b n m m' \<Longrightarrow> inside b n a (length bs) \<Longrightarrow> outside b n m (store a bs m')"
  using outside_store outside_trans by blast

lemma length_bytes [simp]:
  "length (fixed32_bytes v) = 4" "length (fixed64_bytes u) = 8" "length (bytes16 h) = 2"
  by (simp_all add: fixed32_bytes_def fixed64_bytes_def bytes16_def)

section \<open>Safe steps\<close>

text \<open>
  A step is safe when it changes memory only inside the region and gives the iterator back as it was.
\<close>

definition safe :: "u64 \<Rightarrow> u64 \<Rightarrow> 's dstep \<Rightarrow> bool" where
  "safe b n f \<longleftrightarrow>
     (\<forall>d ok d'. f d = Some (ok, d') \<longrightarrow>
        outside b n (dmem d) (dmem d') \<and> iter d' = iter d \<and> local_size d' = local_size d)"

lemma safeD:
  "safe b n f \<Longrightarrow> f d = Some (ok, d') \<Longrightarrow>
     outside b n (dmem d) (dmem d') \<and> iter d' = iter d \<and> local_size d' = local_size d"
  by (auto simp: safe_def)

lemma poke_fields [simp]:
  "dmem (poke a bs d) = store a bs (dmem d)" "iter (poke a bs d) = iter d"
  "local_size (poke a bs d) = local_size d" "strm (poke a bs d) = strm d"
  "fixed_count_size (poke a bs d) = fixed_count_size d"
  by (simp_all add: poke_def)

lemma safe_dfail: "safe b n (dfail m)"
  by (simp add: safe_def dfail_def outside_refl)

lemma safe_okay: "safe b n okay"
  by (simp add: safe_def okay_def outside_refl)

lemma safe_stuck: "safe b n stuck"
  by (simp add: safe_def stuck_def)

lemma safe_if: "(c \<Longrightarrow> safe b n f) \<Longrightarrow> (\<not> c \<Longrightarrow> safe b n g) \<Longrightarrow> safe b n (\<lambda>d. if c then f d else g d)"
  by (cases c) simp_all

lemma safe_if_state:
  "safe b n f \<Longrightarrow> safe b n g \<Longrightarrow> safe b n (\<lambda>d. if c d then f d else g d)"
  by (auto simp: safe_def)

lemma safe_poke: "inside b n a (length bs) \<Longrightarrow> safe b n (\<lambda>d. Some (ok, poke a bs d))"
  by (simp add: safe_def outside_store)

lemma safe_rd:
  assumes "\<And>a. safe b n (k a)"
  shows "safe b n (rd f k)"
  unfolding safe_def
proof (intro allI impI)
  fix d ok d' assume r: "rd f k d = Some (ok, d')"
  obtain a s where f: "f (strm d) = (a, s)" by (cases "f (strm d)")
  show "outside b n (dmem d) (dmem d') \<and> iter d' = iter d \<and> local_size d' = local_size d"
  proof (cases a)
    case None
    then show ?thesis using r f by (auto simp: rd_def outside_refl)
  next
    case (Some x)
    then have "k x (d\<lparr>strm := s\<rparr>) = Some (ok, d')" using r f by (simp add: rd_def)
    then show ?thesis using safeD [OF assms] by fastforce
  qed
qed

lemma safe_after_poke:
  assumes "inside b n a (length bs)" "safe b n f"
  shows "safe b n (\<lambda>d. f (poke a bs d))"
  unfolding safe_def
proof (intro allI impI)
  fix d ok d' assume "f (poke a bs d) = Some (ok, d')"
  with safeD [OF assms(2)] show "outside b n (dmem d) (dmem d') \<and> iter d' = iter d \<and> local_size d' = local_size d"
    using outside_store [OF assms(1)] outside_trans by fastforce
qed

lemma safe_substream:
  assumes "safe b n f"
  shows "safe b n (with_substream f)"
  unfolding safe_def
proof (intro allI impI)
  fix d ok d' assume r: "with_substream f d = Some (ok, d')"
  obtain x s where mk: "pb_make_string_substream (strm d) = (x, s)"
    by (cases "pb_make_string_substream (strm d)")
  show "outside b n (dmem d) (dmem d') \<and> iter d' = iter d \<and> local_size d' = local_size d"
  proof (cases x)
    case None
    then show ?thesis using r mk by (auto simp: with_substream_def outside_refl)
  next
    case (Some sub)
    then obtain st t where "f (d\<lparr>strm := sub\<rparr>) = Some (st, t)" "\<exists>u. d' = t\<lparr>strm := u\<rparr>"
      using r mk by (auto simp: with_substream_def split: option.splits prod.splits)
    then show ?thesis using safeD [OF assms] by fastforce
  qed
qed

section \<open>Field decoders\<close>

lemma safe_put_clamped:
  assumes "\<And>bs c. r = Some (bs, c) \<Longrightarrow> inside b n a (length bs)"
  shows "safe b n (put_clamped r v a)"
proof (cases r)
  case None
  then show ?thesis using safe_dfail by (simp add: put_clamped_def [abs_def])
next
  case (Some p)
  then obtain bs c where r: "r = Some (bs, c)" by (cases p) auto
  have "safe b n (\<lambda>d. (if c \<noteq> v then dfail ''integer too large'' else okay) (poke a bs d))"
    by (intro safe_after_poke assms [OF r]) (simp add: safe_dfail safe_okay)
  then show ?thesis by (simp add: r put_clamped_def [abs_def] Let_def okay_def if_distribR cong: if_cong)
qed

lemma clamp_length:
  "clamp_signed k v = Some (bs, c) \<Longrightarrow> length bs = unat k"
  "clamp_unsigned k v = Some (bs, c) \<Longrightarrow> length bs = unat k"
  by (auto simp: clamp_signed_def clamp_unsigned_def split: if_splits)

lemma safe_varints:
  assumes "inside b n a (unat (data_size f))"
  shows "safe b n (pb_dec_varint f a)" "safe b n (pb_dec_uvarint f a)" "safe b n (pb_dec_svarint f a)"
  using assms unfolding pb_dec_varint_def pb_dec_uvarint_def pb_dec_svarint_def Let_def
  by (auto intro!: safe_rd safe_put_clamped dest!: clamp_length)

lemma safe_read_to: "inside b n a (unat c) \<Longrightarrow> safe b n (read_to a c)"
  unfolding read_to_def by (intro safe_rd safe_poke) (auto intro: inside_less)
lemma unat_ucast32 [simp]: "unat (ucast (x :: u32) :: u64) = unat x"
  by (simp add: unat_ucast_up)

lemma ucast32_less: "(ucast (x :: u32) < (ucast y :: u64)) \<longleftrightarrow> x < y"
  by (simp add: word_less_nat_alt)

lemma safe_bytes:
  assumes "inside b n a (unat (data_size f))" "PB_ATYPE (ftype f) \<noteq> PB_ATYPE_POINTER"
  shows "safe b n (pb_dec_bytes w f a)"
proof -
  have "safe b n (\<lambda>d. read_to (a + 4) (ucast k) (poke a (fixed32_bytes k) d))"
    if "\<not> ucast (data_size f) < (ucast k :: u64) + 4" for k :: u32
  proof -
    have "unat ((ucast k :: u64) + 4) = unat k + 4"
      using unat_u32_lt [of k] by (subst unat_add_small) simp_all
    with that have "4 + unat k \<le> unat (data_size f)" by (simp add: word_less_nat_alt)
    with assms(1) have i: "inside b n a (4 + unat k)" by (rule inside_less)
    then have "inside b n (a + 4) (unat (ucast k :: u64))" using inside_offset [of b n a 4] by simp
    then show ?thesis using i by (intro safe_after_poke safe_read_to) (auto intro: inside_less)
  qed
  then show ?thesis
    using assms(2) unfolding pb_dec_bytes_def Let_def
    by (intro safe_rd) (auto intro!: safe_if safe_dfail)
qed

lemma safe_then_poke:
  assumes "safe b n f" "inside b n a (length bs)"
  shows "safe b n (\<lambda>d. map_option (\<lambda>(ok, d). (ok, poke a bs d)) (f d))"
  unfolding safe_def
proof (intro allI impI)
  fix d ok d' assume "map_option (\<lambda>(ok, d). (ok, poke a bs d)) (f d) = Some (ok, d')"
  then obtain t where t: "f d = Some (ok, t)" "d' = poke a bs t" by auto
  with safeD [OF assms(1) t(1)]
  show "outside b n (dmem d) (dmem d') \<and> iter d' = iter d \<and> local_size d' = local_size d"
    using assms(2) by (simp add: outside_store2)
qed

lemma safe_string:
  assumes "inside b n a (unat (data_size f))" "PB_ATYPE (ftype f) \<noteq> PB_ATYPE_POINTER"
  shows "safe b n (pb_dec_string w f a)"
proof -
  have "safe b n (\<lambda>d. map_option (\<lambda>(status, d). (status, poke (a + ucast k) [0] d)) (read_to a (ucast k) d))"
    if "\<not> (ucast (k + 1) :: u64) < ucast k" "\<not> ucast (data_size f) < (ucast (k + 1) :: u64)" for k :: u32
  proof -
    have "k \<noteq> - 1" using that(1) by (auto simp: ucast32_less word_gt_0)
    then have "k < - 1" using word_n1_ge [of k] by (simp add: less_le)
    then have "unat (k + 1) = unat k + 1" by (rule unat_inc)
    with that(2) have "unat k + 1 \<le> unat (data_size f)" by (simp add: ucast32_less word_less_nat_alt)
    with assms(1) have i: "inside b n a (unat k + 1)" by (rule inside_less)
    then have "inside b n (a + ucast k) 1" using inside_offset [of b n a "unat k" 1] by simp
    with i show ?thesis by (intro safe_then_poke safe_read_to) (auto intro: inside_less)
  qed
  then show ?thesis
    using assms(2) unfolding pb_dec_string_def Let_def
    by (intro safe_rd) (auto intro!: safe_if safe_dfail)
qed

lemma safe_fixed_length:
  "inside b n a (unat (data_size f)) \<Longrightarrow> safe b n (pb_dec_fixed_length_bytes f a)"
  unfolding pb_dec_fixed_length_bytes_def
  by (intro safe_rd safe_if safe_dfail safe_poke safe_read_to) simp_all

section \<open>The layout of a message\<close>

text \<open>The iterators a walk over the descriptors goes through.\<close>

definition walk :: "pb_field list \<Rightarrow> u64 \<Rightarrow> pb_field_iter list" where
  "walk fs dest =
     map (\<lambda>i. ((\<lambda>it. snd (pb_field_iter_next it)) ^^ i) (snd (pb_field_iter_begin fs dest)))
       [0..<length fs]"

text \<open>
  One value at an address: it has the size the descriptor says, which is enough for its type.
\<close>

definition item_ok ::
  "'s dworld \<Rightarrow> u64 \<Rightarrow> u64 \<Rightarrow> (pb_field list \<Rightarrow> u64 \<Rightarrow> bool) \<Rightarrow> pb_field \<Rightarrow> u64 \<Rightarrow> bool" where
  "item_ok w b n sub f a \<longleftrightarrow>
     (let t = PB_LTYPE (ftype f); k = unat (data_size f)
      in inside b n a k \<and> (t = PB_LTYPE_BOOL \<longrightarrow> 1 \<le> k) \<and> (t = PB_LTYPE_FIXED32 \<longrightarrow> 4 \<le> k) \<and>
         (t = PB_LTYPE_FIXED64 \<longrightarrow> 8 \<le> k) \<and>
         (t = PB_LTYPE_SUBMESSAGE \<longrightarrow>
            (case ptr f of None \<Rightarrow> True | Some i \<Rightarrow> sub (darrays w i) a)))"

definition field_ok ::
  "'s dworld \<Rightarrow> u64 \<Rightarrow> u64 \<Rightarrow> (pb_field list \<Rightarrow> u64 \<Rightarrow> bool) \<Rightarrow> pb_field_iter \<Rightarrow> bool" where
  "field_ok w b n sub it \<longleftrightarrow>
     (let f = cur it; h = PB_HTYPE (ftype f)
      in PB_ATYPE (ftype f) = PB_ATYPE_STATIC \<and> PB_LTYPE (ftype f) \<noteq> PB_LTYPE_EXTENSION \<and>
         (if h = PB_HTYPE_REPEATED
          then inside b n (pSize it) 4 \<and>
               (\<forall>i \<in> set [0..<unat (array_size f)].
                  item_ok w b n sub f (pData it + ucast (data_size f * of_nat i)))
          else item_ok w b n sub f (pData it) \<and>
               (h = PB_HTYPE_OPTIONAL \<longrightarrow> pSize it \<noteq> pData it \<longrightarrow> inside b n (pSize it) 1) \<and>
               (h = PB_HTYPE_ONEOF \<longrightarrow> inside b n (pSize it) 4)))"

fun layout_ok :: "'s dworld \<Rightarrow> u64 \<Rightarrow> u64 \<Rightarrow> nat \<Rightarrow> pb_field list \<Rightarrow> u64 \<Rightarrow> bool" where
  "layout_ok w b n 0 fs dest \<longleftrightarrow> False"
| "layout_ok w b n (Suc k) fs dest \<longleftrightarrow>
     fs \<noteq> [] \<and> fields_wf fs \<and> (\<forall>it \<in> set (walk fs dest). field_ok w b n (layout_ok w b n k) it)"
section \<open>The iterator stays on the walk\<close>

lemma walk_step:
  assumes "fields_wf fs" "i < length fs"
    "it = ((\<lambda>it. snd (pb_field_iter_next it)) ^^ i) (snd (pb_field_iter_begin fs dest))"
  shows "start it = fs" "dest_struct it = dest" "pos it = i"
proof -
  have "start it = fs \<and> dest_struct it = dest \<and> pos it = i"
    using assms(2) unfolding assms(3)
  proof (induction i)
    case (Suc i)
    let ?it = "((\<lambda>it. snd (pb_field_iter_next it)) ^^ i) (snd (pb_field_iter_begin fs dest))"
    have "start ?it = fs \<and> dest_struct ?it = dest \<and> pos ?it = i" using Suc by simp
    with next_pos [of ?it] assms(1) Suc.prems show ?case by simp
  qed simp
  then show "start it = fs" "dest_struct it = dest" "pos it = i" by simp_all
qed

lemma walk_fields:
  assumes "fields_wf fs" "it \<in> set (walk fs dest)"
  shows "start it = fs" "dest_struct it = dest" "pos it < length fs"
  using assms walk_step [OF assms(1)] by (auto simp: walk_def)

lemma walk_begin: "fs \<noteq> [] \<Longrightarrow> snd (pb_field_iter_begin fs dest) \<in> set (walk fs dest)"
  unfolding walk_def by (auto intro!: image_eqI [of _ _ 0])

lemma walk_next:
  assumes "fields_wf fs" "it \<in> set (walk fs dest)"
  shows "snd (pb_field_iter_next it) \<in> set (walk fs dest)"
proof -
  let ?next = "\<lambda>it. snd (pb_field_iter_next it)"
  obtain i where i: "i < length fs" "it = (?next ^^ i) (snd (pb_field_iter_begin fs dest))"
    using assms(2) by (auto simp: walk_def)
  note w = walk_step [OF assms(1) i]
  show ?thesis
  proof (cases "i + 1 < length fs")
    case True
    then show ?thesis unfolding walk_def i(2) by (auto intro!: image_eqI [of _ _ "Suc i"])
  next
    case False
    then have "\<not> fst (pb_field_iter_next it)" using next_pos(1) [of it] assms(1) w i(1) by simp
    then have "?next it = snd (pb_field_iter_begin fs dest)"
      using next_begin [of it] assms(1) w i(1) by simp
    moreover have "fs \<noteq> []" using i(1) by auto
    ultimately show ?thesis using walk_begin [of fs dest] by simp
  qed
qed

lemma walk_find_loop:
  "fields_wf fs \<Longrightarrow> it \<in> set (walk fs dest) \<Longrightarrow> find_loop k s t it = Some (r, it') \<Longrightarrow>
     it' \<in> set (walk fs dest)"
proof (induction k arbitrary: it)
  case (Suc k)
  then show ?case using walk_next [OF Suc.prems(1,2)] by (auto simp: Let_def split: if_splits)
qed simp

lemma walk_find:
  "fields_wf fs \<Longrightarrow> it \<in> set (walk fs dest) \<Longrightarrow> pb_field_iter_find t it = Some (r, it') \<Longrightarrow>
     it' \<in> set (walk fs dest)"
  unfolding pb_field_iter_find_def by (rule walk_find_loop)

section \<open>Default values\<close>

definition safe_mem :: "u64 \<Rightarrow> u64 \<Rightarrow> (memory \<Rightarrow> memory option) \<Rightarrow> bool" where
  "safe_mem b n f \<longleftrightarrow> (\<forall>m m'. f m = Some m' \<longrightarrow> outside b n m m')"

lemma item_inside: "item_ok w b n sub f a \<Longrightarrow> inside b n a (unat (data_size f))"
  by (simp add: item_ok_def Let_def)

lemma safe_static_default:
  assumes ok: "field_ok w b n sub it"
    and sub: "\<And>fs p. sub fs p \<Longrightarrow> safe_mem b n (msg fs p)"
  shows "safe_mem b n (static_default w msg it)"
  unfolding safe_mem_def
proof (intro allI impI)
  fix m m' assume r: "static_default w msg it m = Some m'"
  let ?f = "cur it"
  let ?h = "PB_HTYPE (ftype ?f)"
  show "outside b n m m'"
  proof (cases "?h = PB_HTYPE_REPEATED \<or> ?h = PB_HTYPE_ONEOF")
    case True
    then have "inside b n (pSize it) 4"
      using ok by (auto simp: field_ok_def Let_def htype_defs split: if_splits)
    then show ?thesis using True r by (auto simp: static_default_def Let_def intro!: outside_store)
  next
    case False
    then have item: "item_ok w b n sub ?f (pData it)"
      "?h = PB_HTYPE_OPTIONAL \<Longrightarrow> pSize it \<noteq> pData it \<Longrightarrow> inside b n (pSize it) 1"
      using ok by (auto simp: field_ok_def Let_def)
    define m1 where "m1 = (if ?h = PB_HTYPE_OPTIONAL \<and> pSize it \<noteq> pData it
      then store (pSize it) [0] m else m)"
    have m1: "outside b n m m1"
      unfolding m1_def using item(2) by (auto intro!: outside_store outside_refl)
    have "outside b n m1 m'"
    proof (cases "PB_LTYPE (ftype ?f) = PB_LTYPE_SUBMESSAGE")
      case True
      then obtain i where "msg (darrays w i) (pData it) m1 = Some m'" "sub (darrays w i) (pData it)"
        using r False item(1) by (auto simp: static_default_def m1_def item_ok_def Let_def split: option.splits)
      then show ?thesis using sub by (auto simp: safe_mem_def)
    next
      case nosub: False
      have "inside b n (pData it) (length (take (unat (data_size ?f)) xs))" for xs :: "u8 list"
        by (rule inside_less [OF item_inside [OF item(1)]]) simp
      then show ?thesis using r False nosub item_inside [OF item(1)]
        by (auto simp: static_default_def m1_def Let_def intro!: outside_store split: option.splits)
    qed
    then show ?thesis using m1 outside_trans by blast
  qed
qed

lemma safe_defaults_loop:
  assumes "fields_wf fs" "\<And>it. it \<in> set (walk fs dest) \<Longrightarrow> safe_mem b n (init it)"
  shows "it \<in> set (walk fs dest) \<Longrightarrow> safe_mem b n (defaults_loop init k it)"
proof (induction k arbitrary: it)
  case 0
  then show ?case by (simp add: safe_mem_def)
next
  case (Suc k)
  have i: "safe_mem b n (init it)" using assms(2) Suc.prems .
  have l: "safe_mem b n (defaults_loop init k (snd (pb_field_iter_next it)))"
    using Suc.IH walk_next [OF assms(1) Suc.prems] .
  show ?case
    using i l outside_trans unfolding safe_mem_def
    by (auto simp: case_prod_beta split: option.splits if_splits) blast
qed

lemma safe_set_defaults:
  "layout_ok w b n k fs dest \<Longrightarrow> safe_mem b n (pb_message_set_to_defaults w c fs dest)"
proof (induction c arbitrary: k fs dest)
  case 0
  then show ?case by (simp add: safe_mem_def)
next
  case (Suc c)
  then obtain j where k: "k = Suc j" by (cases k) auto
  let ?msg = "pb_message_set_to_defaults w c"
  have f: "safe_mem b n (pb_field_set_to_default w ?msg (Suc c) it)" if "it \<in> set (walk fs dest)" for it
  proof -
    have ok: "field_ok w b n (layout_ok w b n j) it" using Suc.prems that by (simp add: k)
    have "safe_mem b n (static_default w ?msg it)"
      using safe_static_default [OF ok Suc.IH] .
    then show ?thesis using ok by (simp add: field_ok_def Let_def safe_mem_def)
  qed
  have wf: "fields_wf fs" using Suc.prems by (simp add: k)
  show ?case
  proof (cases "fs = []")
    case True
    then show ?thesis
      by (simp add: safe_mem_def pb_field_iter_begin_def Let_def field_at_def PB_LAST_FIELD_def outside_refl)
  next
    case False
    then show ?thesis
      using safe_defaults_loop [OF wf f walk_begin [OF False]]
      by (simp add: safe_mem_def case_prod_beta outside_refl)
  qed
qed
section \<open>Releasing a static message does nothing\<close>

lemma walk_pos:
  assumes "fields_wf fs" "i < length fs"
  shows "\<exists>it \<in> set (walk fs dest). pos it = i"
proof (rule bexI)
  let ?it = "((\<lambda>it. snd (pb_field_iter_next it)) ^^ i) (snd (pb_field_iter_begin fs dest))"
  show "pos ?it = i" by (rule walk_step(3) [OF assms refl])
  show "?it \<in> set (walk fs dest)"
    unfolding walk_def set_map by (rule imageI) (simp add: assms(2))
qed

lemma walk_cur: "fields_wf fs \<Longrightarrow> it \<in> set (walk fs dest) \<Longrightarrow> cur it = fs ! pos it"
  using walk_fields [of fs it dest] by (simp add: field_at_def)

lemma release_items_noop:
  assumes "\<And>p d d'. rel p d = Some d' \<Longrightarrow> d' = d"
  shows "release_items rel step c p d = Some d' \<Longrightarrow> d' = d"
proof (induction c arbitrary: p d)
  case (Suc c)
  then obtain e where "rel p d = Some e" "release_items rel step c (p + step) e = Some d'"
    by (auto split: option.splits)
  then show ?case using Suc.IH assms by blast
qed simp

lemma release_loop_noop:
  assumes "fields_wf fs" "\<And>it d d'. it \<in> set (walk fs p) \<Longrightarrow> rel it d = Some d' \<Longrightarrow> d' = d"
  shows "it \<in> set (walk fs p) \<Longrightarrow> release_loop rel k it d = Some d' \<Longrightarrow> d' = d"
proof (induction k arbitrary: it d)
  case (Suc k)
  obtain e where e: "rel it d = Some e" using Suc.prems(2) by (auto split: option.splits)
  then have ed: "e = d" using assms(2) [OF Suc.prems(1)] by blast
  show ?case
  proof (cases "fst (pb_field_iter_next it)")
    case True
    then have "release_loop rel k (snd (pb_field_iter_next it)) d = Some d'"
      using Suc.prems(2) e ed by (simp add: case_prod_beta)
    then show ?thesis by (rule Suc.IH [OF walk_next [OF assms(1) Suc.prems(1)]])
  next
    case False
    then show ?thesis using Suc.prems(2) e ed by (simp add: case_prod_beta)
  qed
qed simp

lemma release_submessages_cases:
  assumes "release_submessages w msg it d = Some d'"
  shows "d' = d \<or> (\<exists>s k q. release_items
    (\<lambda>p d. case ptr (cur it) of None \<Rightarrow> None | Some i \<Rightarrow> msg (darrays w i) p d) s k q d = Some d')"
proof -
  let ?p = "if PB_ATYPE (ftype (cur it)) = PB_ATYPE_POINTER then load64 (dmem d) (pData it) else pData it"
  show ?thesis
  proof (cases "?p = 0")
    case True
    then have "release_submessages w msg it d = Some d"
      by (simp only: release_submessages_def Let_def True if_True simp_thms)
    with assms show ?thesis by simp
  next
    case False
    then show ?thesis
      using assms by (simp only: release_submessages_def Let_def False if_False) blast
  qed
qed

lemma release_single_noop:
  assumes ok: "field_ok w b n (layout_ok w b n j) it2" and eq: "cur it2 = cur it"
    and rel: "\<And>fs a p d d'. layout_ok w b n j fs a \<Longrightarrow> pb_release w c fs p d = Some d' \<Longrightarrow> d' = d"
    and r: "pb_release_single_field w (pb_release w c) (Suc c) it e = Some e'"
  shows "e' = e"
proof -
  let ?f = "cur it"
  have st: "PB_ATYPE (ftype ?f) = PB_ATYPE_STATIC" "PB_LTYPE (ftype ?f) \<noteq> PB_LTYPE_EXTENSION"
    using ok eq by (simp_all add: field_ok_def Let_def)
  have sub: "x' = x" if "PB_LTYPE (ftype ?f) = PB_LTYPE_SUBMESSAGE"
    "PB_HTYPE (ftype ?f) = PB_HTYPE_REPEATED \<Longrightarrow> array_size ?f \<noteq> 0" "ptr ?f = Some i"
    "pb_release w c (darrays w i) q x = Some x'" for i q x x'
  proof -
    have "\<exists>a. item_ok w b n (layout_ok w b n j) ?f a"
    proof (cases "PB_HTYPE (ftype ?f) = PB_HTYPE_REPEATED")
      case True
      with that(2) have "0 \<in> set [0..<unat (array_size ?f)]" by (simp add: unat_gt_0)
      then show ?thesis using ok eq True by (auto simp: field_ok_def Let_def)
    next
      case False
      then show ?thesis using ok eq by (auto simp: field_ok_def Let_def)
    qed
    then have "\<exists>a. layout_ok w b n j (darrays w i) a"
      using that(1,3) by (auto simp: item_ok_def Let_def)
    then show ?thesis using rel that(4) by blast
  qed
  have items: "x' = x" if rel: "release_submessages w (pb_release w c) it x = Some x'"
    and sm: "PB_LTYPE (ftype ?f) = PB_LTYPE_SUBMESSAGE" for x x'
  proof (cases "PB_HTYPE (ftype ?f) = PB_HTYPE_REPEATED \<and> array_size ?f = 0")
    case True
    then show ?thesis using rel st
      by (simp add: release_submessages_def Let_def atype_defs word_gt_0 split: if_splits)
  next
    case False
    have noop: "(case ptr ?f of None \<Rightarrow> None | Some i \<Rightarrow> pb_release w c (darrays w i) q y) = Some y' \<Longrightarrow> y' = y"
      for q y y' by (cases "ptr ?f") (simp_all, rule sub, use sm False in simp_all)
    consider "x' = x" | q s k where
        "release_items (\<lambda>p d. case ptr ?f of None \<Rightarrow> None | Some i \<Rightarrow> pb_release w c (darrays w i) p d)
           s k q x = Some x'"
      using release_submessages_cases [OF rel] by blast
    then show ?thesis by cases (simp, rule release_items_noop [OF noop])
  qed
  have "\<not> PB_ATYPE (ftype ?f) = PB_ATYPE_POINTER" using st(1) by (simp add: atype_defs)
  then consider "e' = e" | "PB_LTYPE (ftype ?f) = PB_LTYPE_SUBMESSAGE"
      "release_submessages w (pb_release w c) it e = Some e'"
    using r st(2) by (simp only: pb_release_single_field.simps Let_def split: if_splits option.splits) simp_all
  then show ?thesis by cases (simp, rule items)
qed

lemma release_noop:
  "layout_ok w b n k fs dest \<Longrightarrow> pb_release w c fs p d = Some d' \<Longrightarrow> d' = d"
proof (induction c arbitrary: k fs dest p d d')
  case (Suc c)
  then obtain j where k: "k = Suc j" by (cases k) auto
  have wf: "fields_wf fs" "fs \<noteq> []" using Suc.prems(1) by (simp_all add: k)
  have single: "e' = e" if it: "it \<in> set (walk fs p)"
    and r: "pb_release_single_field w (pb_release w c) (Suc c) it e = Some e'" for it e e'
  proof -
    obtain it2 where it2: "it2 \<in> set (walk fs dest)" "cur it2 = cur it"
      using walk_pos [OF wf(1) walk_fields(3) [OF wf(1) it], of dest] walk_cur [OF wf(1)] it by metis
    have "field_ok w b n (layout_ok w b n j) it2" using Suc.prems(1) it2(1) by (simp add: k)
    from release_single_noop [OF this it2(2) Suc.IH r] show ?thesis by simp
  qed
  let ?rel = "pb_release_single_field w (pb_release w c) (Suc c)"
  have "d' = d" if "release_loop ?rel (length fs) (snd (pb_field_iter_begin fs p)) d = Some d'"
    by (rule release_loop_noop [OF wf(1) _ walk_begin [OF wf(2)] that]) (rule single)
  then show ?case using Suc.prems(2) by (simp only: pb_release.simps case_prod_beta Let_def split: if_splits) simp_all
qed simp

end
