(* ===== verification/Pb_Inside.thy ===== *)
theory Pb_Inside
  imports Pb_Safety
begin

text \<open>
  Decoding a statically allocated message writes only inside the region its layout was checked
  against: the steps of the decoder, from the field decoders up to whole messages.
\<close>

section \<open>Values\<close>

lemma safe_choice:
  "(c \<Longrightarrow> safe b n f) \<Longrightarrow> (\<not> c \<Longrightarrow> safe b n g) \<Longrightarrow> safe b n (if c then f else g)"
  by simp

lemma safe_submessage:
  assumes sub: "\<And>fs p. sub fs p \<Longrightarrow> safe b n (noinit fs p)"
      "\<And>fs p. sub fs p \<Longrightarrow> safe b n (pb_decode_at w c noinit fs p)"
    and ok: "item_ok w b n sub f a" "PB_LTYPE (ftype f) = PB_LTYPE_SUBMESSAGE"
  shows "safe b n (pb_dec_submessage w c noinit f a)"
proof (cases "ptr f")
  case None
  then have "pb_dec_submessage w c noinit f a =
      rd pb_make_string_substream (\<lambda>_. dfail ''invalid field descriptor'')"
    by (intro ext) (simp add: pb_dec_submessage_def)
  then show ?thesis by (simp only: safe_rd [OF safe_dfail])
next
  case (Some i)
  then have s: "sub (darrays w i) a" using ok by (simp add: item_ok_def Let_def)
  have "safe b n (with_substream (if PB_HTYPE (ftype f) = PB_HTYPE_REPEATED
      then pb_decode_at w c noinit (darrays w i) a else noinit (darrays w i) a))"
    by (intro safe_substream safe_choice sub s)
  moreover have "pb_dec_submessage w c noinit f a =
      with_substream (if PB_HTYPE (ftype f) = PB_HTYPE_REPEATED
      then pb_decode_at w c noinit (darrays w i) a else noinit (darrays w i) a)"
    using Some by (intro ext) (simp add: pb_dec_submessage_def)
  ultimately show ?thesis by (simp only:)
qed

lemma item_widths:
  assumes "item_ok w b n sub f a"
  shows "PB_LTYPE (ftype f) = PB_LTYPE_BOOL \<Longrightarrow> inside b n a 1"
    "PB_LTYPE (ftype f) = PB_LTYPE_FIXED32 \<Longrightarrow> inside b n a 4"
    "PB_LTYPE (ftype f) = PB_LTYPE_FIXED64 \<Longrightarrow> inside b n a 8"
proof -
  have i: "k \<le> unat (data_size f) \<Longrightarrow> inside b n a k" for k
    using inside_less [OF item_inside [OF assms]] .
  show "PB_LTYPE (ftype f) = PB_LTYPE_BOOL \<Longrightarrow> inside b n a 1"
    "PB_LTYPE (ftype f) = PB_LTYPE_FIXED32 \<Longrightarrow> inside b n a 4"
    "PB_LTYPE (ftype f) = PB_LTYPE_FIXED64 \<Longrightarrow> inside b n a 8"
    using assms i unfolding item_ok_def Let_def by blast+
qed

lemma safe_scalars:
  assumes "item_ok w b n sub f a"
  shows "PB_LTYPE (ftype f) = PB_LTYPE_BOOL \<Longrightarrow> safe b n (dec_bool a)"
    "PB_LTYPE (ftype f) = PB_LTYPE_FIXED32 \<Longrightarrow> safe b n (pb_dec_fixed32 a)"
    "PB_LTYPE (ftype f) = PB_LTYPE_FIXED64 \<Longrightarrow> safe b n (pb_dec_fixed64 a)"
  using item_widths [OF assms] unfolding dec_bool_def pb_dec_fixed32_def pb_dec_fixed64_def
  by (auto intro!: safe_rd safe_poke)

lemma safe_field_decoder:
  assumes sub: "\<And>fs p. sub fs p \<Longrightarrow> safe b n (noinit fs p)"
      "\<And>fs p. sub fs p \<Longrightarrow> safe b n (pb_decode_at w c noinit fs p)"
    and ok: "item_ok w b n sub f a" "PB_ATYPE (ftype f) = PB_ATYPE_STATIC"
  shows "safe b n (field_decoder w c noinit f a)"
proof -
  have i: "inside b n a (unat (data_size f))" using item_inside [OF ok(1)] .
  have np: "PB_ATYPE (ftype f) \<noteq> PB_ATYPE_POINTER" using ok(2) by (simp add: atype_defs)
  show ?thesis
    unfolding field_decoder_def Let_def
    by (intro safe_choice safe_scalars [OF ok(1)] safe_varints [OF i] safe_bytes [OF i np]
        safe_string [OF i np] safe_fixed_length [OF i] safe_stuck safe_submessage [OF sub ok(1)])
qed

section \<open>Static fields\<close>

text \<open>
  What a step may do from one state: change memory in the region only, and leave the iterator on the walk.
\<close>

definition stays_on :: "u64 \<Rightarrow> u64 \<Rightarrow> pb_field_iter set \<Rightarrow> 's dstate \<Rightarrow> 's dstate \<Rightarrow> bool" where
  "stays_on b n W d d' \<longleftrightarrow> outside b n (dmem d) (dmem d') \<and> (iter d \<in> W \<longrightarrow> iter d' \<in> W)"

lemma stays_on_trans: "stays_on b n W d e \<Longrightarrow> stays_on b n W e f \<Longrightarrow> stays_on b n W d f"
  by (auto simp: stays_on_def intro: outside_trans)

lemma safe_stays_on: "safe b n f \<Longrightarrow> f d = Some (ok, d') \<Longrightarrow> stays_on b n W d d'"
  using safeD [of b n f d ok d'] by (simp add: stays_on_def)

lemma stays_on_strm [simp]:
  "stays_on b n W (d\<lparr>strm := s\<rparr>) d' = stays_on b n W d d'"
  "stays_on b n W d (d'\<lparr>strm := s\<rparr>) = stays_on b n W d d'"
  by (simp_all add: stays_on_def)

lemma stays_on_refl: "stays_on b n W d d"
  by (simp add: stays_on_def outside_refl)

lemma stays_on_dfail: "dfail m d = Some (ok, d') \<Longrightarrow> stays_on b n W d d'"
  by (auto simp: dfail_def stays_on_refl)

lemma set_size_stays:
  "inside b n (pSize (iter d)) 4 \<Longrightarrow> outside b n (dmem d) (dmem (set_size v d))"
  "iter (set_size v d) = iter d" "strm (set_size v d) = strm d"
  by (auto simp: set_size_def outside_refl intro: outside_store)

text \<open>The items of a repeated field.\<close>

lemma item_at_ok:
  assumes "field_ok w b n sub it" "PB_HTYPE (ftype (cur it)) = PB_HTYPE_REPEATED"
    "get_size d < array_size (cur it)"
  shows "item_ok w b n sub (cur it) (item_at (pData it) (cur it) d)"
proof -
  have "unat (get_size d) \<in> set [0..<unat (array_size (cur it))]"
    using assms(3) by (simp add: word_less_nat_alt)
  then have "item_ok w b n sub (cur it)
      (pData it + ucast (data_size (cur it) * of_nat (unat (get_size d))))"
    using assms(1,2) unfolding field_ok_def Let_def by (simp only: if_True)
  then show ?thesis by (simp add: item_at_def)
qed

lemma packed_stays:
  assumes ok: "field_ok w b n sub it" "PB_HTYPE (ftype (cur it)) = PB_HTYPE_REPEATED"
    and dec: "\<And>a. item_ok w b n sub (cur it) a \<Longrightarrow> safe b n (dec a)"
  shows "static_packed dec (cur it) k d = Some (r, d') \<Longrightarrow> iter d = it \<Longrightarrow>
     outside b n (dmem d) (dmem d') \<and> iter d' = it"
proof (induction k arbitrary: d)
  case (Suc k)
  have c: "inside b n (pSize it) 4" using ok by (simp add: field_ok_def Let_def)
  show ?case
  proof (cases "bytes_left (strm d) = 0 \<or> array_size (cur it) \<le> get_size d")
    case True
    then have "d' = d" using Suc.prems(1) by simp
    then show ?thesis using Suc.prems(2) by (simp add: outside_refl)
  next
    case False
    then obtain st e where e: "dec (item_at (pData it) (cur it) d) d = Some (st, e)"
      using Suc.prems by (auto split: option.splits)
    have sd: "safe b n (dec (item_at (pData it) (cur it) d))"
      using False by (intro dec item_at_ok [OF ok]) (simp add: not_le)
    have m: "outside b n (dmem d) (dmem e)" "iter e = it"
      using safeD [OF sd e] Suc.prems(2) by simp_all
    show ?thesis
    proof (cases st)
      case True
      then have s: "static_packed dec (cur it) k (set_size (get_size e + 1) e) = Some (r, d')"
        using False e Suc.prems by (simp split: if_splits)
      have "outside b n (dmem (set_size (get_size e + 1) e)) (dmem d') \<and> iter d' = it"
        by (rule Suc.IH [OF s]) (simp add: set_size_stays m(2))
      moreover have "outside b n (dmem e) (dmem (set_size (get_size e + 1) e))"
        using c m(2) by (intro set_size_stays) simp
      ultimately show ?thesis using m(1) outside_trans by blast
    next
      case st: False
      then have "d' = e" using False e Suc.prems by (simp split: if_splits)
      then show ?thesis using m by simp
    qed
  qed
qed simp
text \<open>What the decoder of submessages provides, for the layouts that \<open>sub\<close> accepts.\<close>

definition provides ::
  "'s dworld \<Rightarrow> u64 \<Rightarrow> u64 \<Rightarrow> nat \<Rightarrow> (pb_field list \<Rightarrow> u64 \<Rightarrow> 's dstep) \<Rightarrow>
     (pb_field list \<Rightarrow> u64 \<Rightarrow> bool) \<Rightarrow> bool" where
  "provides w b n c noinit sub \<longleftrightarrow>
     (\<forall>fs p. sub fs p \<longrightarrow> safe b n (noinit fs p) \<and> safe b n (pb_decode_at w c noinit fs p) \<and>
        safe_mem b n (pb_message_set_to_defaults w c fs p) \<and>
        (\<forall>q d d'. pb_release w c fs q d = Some d' \<longrightarrow> d' = d))"

lemma provides_decoder:
  assumes "provides w b n c noinit sub" "item_ok w b n sub f a" "PB_ATYPE (ftype f) = PB_ATYPE_STATIC"
  shows "safe b n (field_decoder w c noinit f a)"
  by (rule safe_field_decoder [OF _ _ assms(2,3)]) (use assms(1) in \<open>auto simp: provides_def\<close>)

lemma init_message_stays:
  assumes "provides w b n c noinit sub" "item_ok w b n sub f p"
    "PB_LTYPE (ftype f) = PB_LTYPE_SUBMESSAGE" "init_message w c f p d = Some d'"
  shows "outside b n (dmem d) (dmem d') \<and> iter d' = iter d \<and> local_size d' = local_size d"
proof -
  obtain i m where i: "ptr f = Some i" "d' = d\<lparr>dmem := m\<rparr>"
    "pb_message_set_to_defaults w c (darrays w i) p
       (store p (replicate (unat (data_size f)) 0) (dmem d)) = Some m"
    using assms(4) by (auto simp: init_message_def split: option.splits)
  have "sub (darrays w i) p" using assms(2,3) i(1) by (simp add: item_ok_def Let_def)
  then have "safe_mem b n (pb_message_set_to_defaults w c (darrays w i) p)"
    using assms(1) by (simp add: provides_def)
  then have "outside b n (store p (replicate (unat (data_size f)) 0) (dmem d)) m"
    using i(3) unfolding safe_mem_def by blast
  moreover have "outside b n (dmem d) (store p (replicate (unat (data_size f)) 0) (dmem d))"
    using item_inside [OF assms(2)] by (intro outside_store) simp
  ultimately show ?thesis using i(2) outside_trans by auto
qed

lemma packed_field_stays:
  assumes p: "provides w b n c noinit sub" and ok: "field_ok w b n sub it"
    "PB_HTYPE (ftype (cur it)) = PB_HTYPE_REPEATED"
    and r: "(case pb_make_string_substream (strm d) of
                (None, s) \<Rightarrow> Some (False, d\<lparr>strm := s\<rparr>)
              | (Some sub, s) \<Rightarrow>
                  (case static_packed (field_decoder w c noinit (cur it)) (cur it) (Suc (unat (bytes_left sub)))
                          (d\<lparr>strm := sub\<rparr>) of
                     None \<Rightarrow> None
                   | Some (status, d) \<Rightarrow>
                       if bytes_left (strm d) \<noteq> 0 then dfail ''array overflow'' (d\<lparr>strm := s\<rparr>)
                       else (case pb_close_string_substream (strm d) s of
                               (None, s) \<Rightarrow> Some (False, d\<lparr>strm := s\<rparr>)
                             | (Some _, s) \<Rightarrow> Some (status, d\<lparr>strm := s\<rparr>)))) = Some (res, d')"
    and it: "iter d = it"
  shows "outside b n (dmem d) (dmem d') \<and> iter d' = it"
proof -
  have st: "PB_ATYPE (ftype (cur it)) = PB_ATYPE_STATIC" using ok(1) by (simp add: field_ok_def Let_def)
  obtain x s where mk: "pb_make_string_substream (strm d) = (x, s)"
    by (cases "pb_make_string_substream (strm d)")
  show ?thesis
  proof (cases x)
    case None
    then show ?thesis using r mk it by (auto simp: outside_refl)
  next
    case (Some sb)
    then obtain st e where e: "static_packed (field_decoder w c noinit (cur it)) (cur it)
        (Suc (unat (bytes_left sb))) (d\<lparr>strm := sb\<rparr>) = Some (st, e)"
      using r mk by (auto split: option.splits)
    have m: "outside b n (dmem (d\<lparr>strm := sb\<rparr>)) (dmem e) \<and> iter e = it"
      by (rule packed_stays [OF ok provides_decoder [OF p _ st] e]) (simp_all add: it)
    have "dmem d' = dmem e \<and> iter d' = iter e"
      using r mk Some e by (auto simp: dfail_def split: if_splits prod.splits option.splits)
    then show ?thesis using m by simp
  qed
qed

lemma repeated_field_stays:
  assumes p: "provides w b n c noinit sub" and ok: "field_ok w b n sub it"
    "PB_HTYPE (ftype (cur it)) = PB_HTYPE_REPEATED"
    and r: "(let q = item_at (pData it) (cur it) d; k = get_size d; d = set_size (k + 1) d
             in if array_size (cur it) \<le> k then dfail ''array overflow'' d
                else field_decoder w c noinit (cur it) q d) = Some (res, d')"
    and it: "iter d = it"
  shows "outside b n (dmem d) (dmem d') \<and> iter d' = it"
proof -
  have st: "PB_ATYPE (ftype (cur it)) = PB_ATYPE_STATIC" and c: "inside b n (pSize it) 4"
    using ok by (simp_all add: field_ok_def Let_def)
  let ?e = "set_size (get_size d + 1) d"
  have e: "outside b n (dmem d) (dmem ?e)" "iter ?e = it"
    using c it by (simp_all add: set_size_stays)
  show ?thesis
  proof (cases "array_size (cur it) \<le> get_size d")
    case True
    then have "dmem d' = dmem ?e \<and> iter d' = iter ?e" using r by (auto simp: dfail_def Let_def)
    then show ?thesis using e by simp
  next
    case False
    then have item: "item_ok w b n sub (cur it) (item_at (pData it) (cur it) d)"
      by (intro item_at_ok [OF ok]) (simp add: not_le)
    have "field_decoder w c noinit (cur it) (item_at (pData it) (cur it) d) ?e = Some (res, d')"
      using r False by (simp add: Let_def)
    from safeD [OF provides_decoder [OF p item st] this] show ?thesis
      using e outside_trans by auto
  qed
qed

lemma safe_if_value: "safe b n f \<Longrightarrow> f (if c then poke a bs d else d) = Some (res, d') \<Longrightarrow>
   (c \<Longrightarrow> inside b n a (length bs)) \<Longrightarrow> outside b n (dmem d) (dmem d') \<and> iter d' = iter d"
  using safeD [of b n f "if c then poke a bs d else d" res d'] outside_store [of b n a bs "dmem d"]
  by (auto split: if_splits intro: outside_trans)

lemma static_field_stays:
  assumes p: "provides w b n c noinit sub" and ok: "field_ok w b n sub it"
    and r: "decode_static_field w c noinit wt d = Some (res, d')" and it: "iter d = it"
  shows "outside b n (dmem d) (dmem d') \<and> iter d' = it"
proof -
  let ?f = "cur it"
  let ?h = "PB_HTYPE (ftype ?f)"
  have st: "PB_ATYPE (ftype ?f) = PB_ATYPE_STATIC" using ok by (simp add: field_ok_def Let_def)
  consider (req) "?h = PB_HTYPE_REQUIRED" | (opt) "?h = PB_HTYPE_OPTIONAL"
    | (rep) "?h = PB_HTYPE_REPEATED" | (one) "?h = PB_HTYPE_ONEOF"
    | (bad) "?h \<notin> {PB_HTYPE_REQUIRED, PB_HTYPE_OPTIONAL, PB_HTYPE_REPEATED, PB_HTYPE_ONEOF}" by blast
  then show ?thesis
  proof cases
    case rep
    then show ?thesis
      using r it packed_field_stays [OF p ok rep _ it] repeated_field_stays [OF p ok rep _ it]
      unfolding decode_static_field_def by (simp add: Let_def htype_defs split: if_splits)
  next
    case bad
    then show ?thesis
      using r it by (auto simp: decode_static_field_def Let_def dfail_def outside_refl)
  next
    case req
    then have item: "item_ok w b n sub ?f (pData it)" using ok by (simp add: field_ok_def Let_def htype_defs)
    have "field_decoder w c noinit ?f (pData it) d = Some (res, d')"
      using r it req by (simp add: decode_static_field_def)
    from safeD [OF provides_decoder [OF p item st] this] show ?thesis using it by simp
  next
    case opt
    then have item: "item_ok w b n sub ?f (pData it)" "pSize it \<noteq> pData it \<Longrightarrow> inside b n (pSize it) 1"
      using ok by (simp_all add: field_ok_def Let_def htype_defs)
    have "field_decoder w c noinit ?f (pData it) (if pSize it \<noteq> pData it then poke (pSize it) [1] d else d) =
        Some (res, d')"
      using r it opt by (simp add: decode_static_field_def htype_defs)
    from safe_if_value [OF provides_decoder [OF p item(1) st] this] show ?thesis using item(2) it by simp
  next
    case one
    then have item: "item_ok w b n sub ?f (pData it)" "inside b n (pSize it) 4"
      using ok by (simp_all add: field_ok_def Let_def htype_defs)
    obtain e where e: "(if PB_LTYPE (ftype ?f) = PB_LTYPE_SUBMESSAGE \<and> load32 (dmem d) (pSize it) \<noteq> tag ?f
          then init_message w c ?f (pData it) d else Some d) = Some e"
      "field_decoder w c noinit ?f (pData it) (poke (pSize it) (fixed32_bytes (tag ?f)) e) = Some (res, d')"
      using r it one by (auto simp: decode_static_field_def Let_def htype_defs split: option.splits)
    have m: "outside b n (dmem d) (dmem e) \<and> iter e = it"
      using e(1) init_message_stays [OF p item(1)] it by (auto simp: outside_refl split: if_splits)
    have "outside b n (dmem e) (dmem d') \<and> iter d' = iter e"
      using safe_if_value [OF provides_decoder [OF p item(1) st], of True "pSize it"] e(2) item(2) by simp
    then show ?thesis using m outside_trans by auto
  qed
qed
section \<open>Fields and messages\<close>

text \<open>
  The walk of a message whose layout is checked, with the decoder for its submessages. The release
  of an old union member does nothing.
\<close>

definition walk_ok ::
  "'s dworld \<Rightarrow> u64 \<Rightarrow> u64 \<Rightarrow> (pb_field list \<Rightarrow> u64 \<Rightarrow> bool) \<Rightarrow> pb_field list \<Rightarrow> u64 \<Rightarrow> bool" where
  "walk_ok w b n sub fs dest \<longleftrightarrow>
     fields_wf fs \<and> (\<forall>it \<in> set (walk fs dest). field_ok w b n sub it)"

definition released_noop :: "'s dworld \<Rightarrow> nat \<Rightarrow> pb_field_iter set \<Rightarrow> bool" where
  "released_noop w c W \<longleftrightarrow>
     (\<forall>it \<in> W. \<forall>d d'. pb_release_single_field w (pb_release w c) (Suc c) it d = Some d' \<longrightarrow> d' = d)"

lemma union_stays:
  assumes wk: "walk_ok w b n sub fs dest" and rel: "released_noop w c (set (walk fs dest))"
    and it: "iter d \<in> set (walk fs dest)" and r: "pb_release_union_field w c d = Some (ok, d')"
  shows "dmem d' = dmem d \<and> iter d' \<in> set (walk fs dest)"
proof -
  have wf: "fields_wf fs" using wk by (simp add: walk_ok_def)
  let ?old = "load32 (dmem d) (pSize (iter d))" and ?new = "tag (cur (iter d))"
  show ?thesis
  proof (cases "?old = 0 \<or> ?old = ?new")
    case True
    then show ?thesis using r it by (auto simp: pb_release_union_field_def Let_def)
  next
    case False
    then obtain f1 i1 where f1: "pb_field_iter_find ?old (iter d) = Some (f1, i1)"
      using r by (auto simp: pb_release_union_field_def Let_def split: option.splits)
    have w1: "i1 \<in> set (walk fs dest)" by (rule walk_find [OF wf it f1])
    show ?thesis
    proof (cases f1)
      case False
      then show ?thesis using r f1 w1 \<open>\<not> (?old = 0 \<or> ?old = ?new)\<close>
        by (auto simp: pb_release_union_field_def Let_def dfail_def)
    next
      case True
      then obtain e where e: "pb_release_single_field w (pb_release w c) (Suc c) i1 (d\<lparr>iter := i1\<rparr>) = Some e"
        using r f1 \<open>\<not> (?old = 0 \<or> ?old = ?new)\<close>
        by (auto simp: pb_release_union_field_def Let_def split: option.splits)
      then have ed: "e = d\<lparr>iter := i1\<rparr>" using rel w1 unfolding released_noop_def by blast
      obtain f2 i2 where f2: "pb_field_iter_find ?new i1 = Some (f2, i2)"
        using r f1 True e \<open>\<not> (?old = 0 \<or> ?old = ?new)\<close>
        by (auto simp: pb_release_union_field_def Let_def split: option.splits)
      have w2: "i2 \<in> set (walk fs dest)" by (rule walk_find [OF wf w1 f2])
      then have "PB_ATYPE (ftype (cur i2)) \<noteq> PB_ATYPE_POINTER"
        using wk by (auto simp: walk_ok_def field_ok_def Let_def atype_defs)
      then show ?thesis using r f1 True e ed f2 w2 \<open>\<not> (?old = 0 \<or> ?old = ?new)\<close>
        by (auto simp: pb_release_union_field_def Let_def dfail_def split: bool.splits)
    qed
  qed
qed

lemma decode_field_stays:
  assumes p: "provides w b n c noinit sub" and wk: "walk_ok w b n sub fs dest"
    and rel: "released_noop w c (set (walk fs dest))" and it: "iter d \<in> set (walk fs dest)"
    and r: "decode_field w c noinit wt d = Some (ok, d')"
  shows "outside b n (dmem d) (dmem d') \<and> iter d' \<in> set (walk fs dest)"
proof -
  obtain ok1 e where e: "(if PB_HTYPE (ftype (cur (iter d))) = PB_HTYPE_ONEOF
      then pb_release_union_field w c d else okay d) = Some (ok1, e)"
    using r by (auto simp: decode_field_def rseq_def split: option.splits)
  have m: "dmem e = dmem d" "iter e \<in> set (walk fs dest)"
    using e union_stays [OF wk rel it] it by (auto simp: okay_def split: if_splits)
  have fo: "field_ok w b n sub (iter e)" using wk m(2) by (simp add: walk_ok_def)
  then have st: "PB_ATYPE (ftype (cur (iter e))) = PB_ATYPE_STATIC" by (simp add: field_ok_def Let_def)
  show ?thesis
  proof (cases ok1)
    case True
    then have "decode_static_field w c noinit wt e = Some (ok, d')"
      using r e st by (simp add: decode_field_def rseq_def)
    from static_field_stays [OF p fo this refl] show ?thesis using m by simp
  next
    case False
    then show ?thesis using r e m by (simp add: decode_field_def rseq_def outside_refl)
  qed
qed

lemma decode_known_stays:
  assumes p: "provides w b n c noinit sub" and wk: "walk_ok w b n sub fs dest"
    and rel: "released_noop w c (set (walk fs dest))" and it: "iter d \<in> set (walk fs dest)"
    and r: "decode_known w c noinit wt seen fixed d = Some (ok, seen', fixed', d')"
  shows "outside b n (dmem d) (dmem d') \<and> iter d' \<in> set (walk fs dest)"
proof -
  let ?E = "{d, d\<lparr>fixed_count_size := 0, local_size := True\<rparr>, d\<lparr>local_size := True\<rparr>}"
  have "dmem d' = dmem d \<and> iter d' = iter d \<or> (\<exists>e \<in> ?E. decode_field w c noinit wt e = Some (ok, d'))"
    using r by (auto simp: decode_known_def Let_def dfail_def split: if_splits)
  moreover have "\<forall>e \<in> ?E. dmem e = dmem d \<and> iter e = iter d" by simp
  ultimately consider (fail) "dmem d' = dmem d" "iter d' = iter d"
    | (field) e where "dmem e = dmem d" "iter e = iter d" "decode_field w c noinit wt e = Some (ok, d')"
    by blast
  then show ?thesis
  proof cases
    case fail
    then show ?thesis using it by (simp add: outside_refl)
  next
    case field
    then show ?thesis using decode_field_stays [OF p wk rel _ field(3)] it by simp
  qed
qed
lemma find_extension_walk:
  assumes "fields_wf fs"
  shows "it \<in> set (walk fs dest) \<Longrightarrow> find_extension_field k s0 mv it = Some (found, mv', it') \<Longrightarrow>
     it' \<in> set (walk fs dest) \<and> (found \<longrightarrow> PB_LTYPE (ftype (cur it')) = PB_LTYPE_EXTENSION)"
proof (induction k arbitrary: it mv)
  case (Suc k)
  then show ?case using walk_next [OF assms Suc.prems(1)] by (auto simp: Let_def split: if_splits)
qed simp

text \<open>A tag has at most 29 bits, so it never reaches the end of the range.\<close>

lemma decode_tag_small:
  assumes "pb_decode_tag s = (True, wt, t, eof, s')"
  shows "t < - 1"
proof -
  obtain temp where "t = drop_bit 3 (temp :: u32)"
    using assms by (auto simp: pb_decode_tag_def split: prod.splits option.splits if_splits)
  then have "unat t < 2 ^ 29"
    using unat_u32_lt [of temp] by (simp add: drop_bit_eq_div unat_div less_mult_imp_div_less)
  moreover have "(- 1 :: u32) = 0xFFFFFFFF" by simp
  ultimately show ?thesis by (simp only: word_less_nat_alt) simp
qed

lemma decode_unknown_stays:
  assumes wk: "walk_ok w b n sub fs dest" and it: "iter d \<in> set (walk fs dest)" and t: "t < - 1"
    and r: "decode_unknown w c noinit t wt rng d = Some (ok, rng', d')"
  shows "dmem d' = dmem d \<and> iter d' \<in> set (walk fs dest)"
proof -
  have skip: "dmem e' = dmem e \<and> iter e' = iter e"
    if "rd (pb_skip_field wt) (\<lambda>_. okay) e = Some (ok, e')" for e e' ok
    using that by (auto simp: rd_def okay_def split: prod.splits option.splits)
  show ?thesis
  proof (cases "t < rng")
    case True
    then show ?thesis using r skip it by (auto simp: decode_unknown_def Let_def)
  next
    case False
    then obtain found mv it' where f: "find_extension_field (length (start (iter d)) + 1) (pos (iter d))
        False (iter d) = Some (found, mv, it')"
      using r by (auto simp: decode_unknown_def Let_def split: option.splits)
    have wf: "fields_wf fs" using wk by (simp add: walk_ok_def)
    have w: "it' \<in> set (walk fs dest)" "found \<Longrightarrow> PB_LTYPE (ftype (cur it')) = PB_LTYPE_EXTENSION"
      using find_extension_walk [OF wf it f] by simp_all
    then have "\<not> found" using wk by (auto simp: walk_ok_def field_ok_def Let_def)
    then show ?thesis using r f False t w(1) skip by (fastforce simp: decode_unknown_def Let_def)
  qed
qed

lemma decode_loop_stays:
  assumes p: "provides w b n c noinit sub" and wk: "walk_ok w b n sub fs dest"
    and rel: "released_noop w c (set (walk fs dest))"
  shows "decode_loop w c noinit k rng seen fixed d = Some (ok, seen', fixed', d') \<Longrightarrow>
     iter d \<in> set (walk fs dest) \<Longrightarrow> outside b n (dmem d) (dmem d') \<and> iter d' \<in> set (walk fs dest)"
proof (induction k arbitrary: rng seen fixed d)
  case (Suc k)
  have wf: "fields_wf fs" using wk by (simp add: walk_ok_def)
  obtain tok wt t eof s where tag: "pb_decode_tag (strm d) = (tok, wt, t, eof, s)"
    by (cases "pb_decode_tag (strm d)") auto
  show ?case
  proof (cases "bytes_left (strm d) = 0 \<or> \<not> tok")
    case True
    then show ?thesis using Suc.prems tag by (auto simp: outside_refl split: if_splits)
  next
    case False
    then have more: "bytes_left (strm d) \<noteq> 0" "tok" by simp_all
    obtain found it where f: "pb_field_iter_find t (iter d) = Some (found, it)"
      using Suc.prems(1) tag more by (auto simp: Let_def split: option.splits)
    have w: "it \<in> set (walk fs dest)" by (rule walk_find [OF wf Suc.prems(2) f])
    let ?d = "d\<lparr>strm := s, iter := it, local_size := local_size d \<and> wanted t (cur (iter d))\<rparr>"
    have go: "\<exists>ok1 rng1 seen1 fixed1 e. outside b n (dmem d) (dmem e) \<and> iter e \<in> set (walk fs dest) \<and>
        (if ok1 then decode_loop w c noinit k rng1 seen1 fixed1 e = Some (ok, seen', fixed', d')
         else d' = e)"
    proof (cases found)
      case True
      then obtain ok1 seen1 fixed1 e where
        e: "decode_known w c noinit wt seen fixed ?d = Some (ok1, seen1, fixed1, e)"
        using Suc.prems(1) tag more f by (auto simp: Let_def split: option.splits)
      have "outside b n (dmem d) (dmem e) \<and> iter e \<in> set (walk fs dest)"
        using decode_known_stays [OF p wk rel _ e] w by simp
      moreover have "if ok1 then decode_loop w c noinit k rng seen1 fixed1 e = Some (ok, seen', fixed', d')
          else d' = e"
        using Suc.prems(1) tag more f True e by (auto simp: Let_def)
      ultimately show ?thesis by blast
    next
      case False
      then obtain ok1 rng1 e where
        e: "decode_unknown w c noinit t wt rng ?d = Some (ok1, rng1, e)"
        using Suc.prems(1) tag more f by (auto simp: Let_def split: option.splits)
      have "t < - 1" using decode_tag_small [of "strm d" wt t eof s] tag more(2) by simp
      then have "dmem e = dmem d \<and> iter e \<in> set (walk fs dest)"
        using decode_unknown_stays [OF wk _ _ e] w by simp
      moreover have "if ok1 then decode_loop w c noinit k rng1 seen fixed e = Some (ok, seen', fixed', d')
          else d' = e"
        using Suc.prems(1) tag more f False e by (auto simp: Let_def)
      ultimately show ?thesis using outside_refl by metis
    qed
    then show ?thesis using Suc.IH outside_trans by (metis (full_types))
  qed
qed simp
lemma layout_walk_ok: "layout_ok w b n (Suc j) fs dest \<Longrightarrow> walk_ok w b n (layout_ok w b n j) fs dest"
  by (simp add: walk_ok_def)

lemma safe_decode_at:
  assumes "layout_ok w b n k fs dest" "safe b n (noinit fs dest)"
  shows "safe b n (pb_decode_at w c noinit fs dest)"
  unfolding safe_def
proof (intro allI impI)
  fix d ok d' assume r: "pb_decode_at w c noinit fs dest d = Some (ok, d')"
  obtain m st e where m: "pb_message_set_to_defaults w c fs dest (dmem d) = Some m"
    and e: "noinit fs dest (d\<lparr>dmem := m\<rparr>) = Some (st, e)"
    using r by (auto simp: pb_decode_at_def split: option.splits)
  have "outside b n (dmem d) m" using safe_set_defaults [OF assms(1)] m unfolding safe_mem_def by blast
  moreover have "outside b n m (dmem e) \<and> iter e = iter d \<and> local_size e = local_size d"
    using safeD [OF assms(2) e] by simp
  moreover have "d' = e"
    using r m e release_noop [OF assms(1), of c dest e] by (auto simp: pb_decode_at_def split: if_splits)
  ultimately show "outside b n (dmem d) (dmem d') \<and> iter d' = iter d \<and> local_size d' = local_size d"
    using outside_trans by blast
qed

lemma safe_noinit: "layout_ok w b n k fs dest \<Longrightarrow> safe b n (pb_decode_noinit w c fs dest)"
proof (induction c arbitrary: k fs dest)
  case 0
  then show ?case by (simp add: safe_def)
next
  case (Suc c)
  then obtain j where k: "k = Suc j" by (cases k) auto
  let ?W = "set (walk fs dest)" and ?no = "pb_decode_noinit w c"
  have wk: "walk_ok w b n (layout_ok w b n j) fs dest" using layout_walk_ok Suc.prems k by blast
  have p: "provides w b n c ?no (layout_ok w b n j)"
    unfolding provides_def
  proof (intro allI impI conjI)
    fix fs p assume l: "layout_ok w b n j fs p"
    show s: "safe b n (?no fs p)" by (rule Suc.IH [OF l])
    show "safe b n (pb_decode_at w c ?no fs p)" by (rule safe_decode_at [OF l]) (rule s)
    show "safe_mem b n (pb_message_set_to_defaults w c fs p)" by (rule safe_set_defaults [OF l])
    show "d' = d" if "pb_release w c fs q d = Some d'" for q and d d' :: "'a dstate"
      by (rule release_noop [OF l that])
  qed
  have rel: "released_noop w c ?W"
    unfolding released_noop_def
  proof (intro ballI allI impI)
    fix it d d' assume it: "it \<in> ?W" "pb_release_single_field w (pb_release w c) (Suc c) it d = Some d'"
    have "field_ok w b n (layout_ok w b n j) it" using wk it(1) by (simp add: walk_ok_def)
    from release_single_noop [OF this refl release_noop it(2)] show "d' = d" by simp
  qed
  show ?case
    unfolding safe_def
  proof (intro allI impI)
    fix d ok d' assume r: "pb_decode_noinit w (Suc c) fs dest d = Some (ok, d')"
    let ?d = "d\<lparr>iter := snd (pb_field_iter_begin fs dest), local_size := False, fixed_count_size := 0\<rparr>"
    obtain ok1 seen fixed e where e: "decode_loop w c ?no (Suc (unat (bytes_left (strm d)))) 0 [0, 0] None ?d =
        Some (ok1, seen, fixed, e)"
      using r by (auto simp: Let_def split: option.splits)
    have "iter ?d \<in> ?W" using walk_begin [of fs dest] Suc.prems k by simp
    then have m: "outside b n (dmem d) (dmem e)" using decode_loop_stays [OF p wk rel e] by simp
    have "dmem d' = dmem e \<and> iter d' = iter d \<and> local_size d' = local_size d"
      using r e by (auto simp: Let_def dfail_def split: option.splits if_splits bool.splits)
    then show "outside b n (dmem d) (dmem d') \<and> iter d' = iter d \<and> local_size d' = local_size d"
      using m by simp
  qed
qed


text \<open>The message of two fields, in a region of twenty bytes, and an array that claims more items than fit.\<close>

definition static_world :: "unit dworld" where
  "static_world =
     \<lparr>darrays = (\<lambda>i. [PB_LAST_FIELD\<lparr>tag := 1, ftype := 0x10, data_offset := 1, size_offset := - 1, data_size := 1\<rparr>,
                      PB_LAST_FIELD\<lparr>tag := 4, ftype := 0x22, data_offset := 6, size_offset := - 4,
                        data_size := 1, array_size := 8\<rparr>]),
      defaults = (\<lambda>_. []), duser = (\<lambda>_ _ _. okay), dext_user = (\<lambda>_ _ _ _. okay),
      dext_field = (\<lambda>_. PB_LAST_FIELD), place = (\<lambda>k n. 0)\<rparr>"

definition static_fields :: "pb_field list" where
  "static_fields =
     [PB_LAST_FIELD\<lparr>tag := 1, ftype := 0x01, data_size := 4\<rparr>,
      PB_LAST_FIELD\<lparr>tag := 2, ftype := 0x08, data_size := 16, ptr := Some 1\<rparr>]"

definition fresh_state :: "u8 list \<Rightarrow> unit dstate" where
  "fresh_state bs =
     \<lparr>strm = pb_istream_from_buffer bs (of_nat (length bs)), dmem = (\<lambda>_. 255), blocks = (\<lambda>_. 0),
      allocs = 0, iter = snd (pb_field_iter_begin [] 0), local_size = False, fixed_count_size = 0\<rparr>"

lemma static_layout: "layout_ok static_world 4096 20 2 static_fields 4096"
  by code_simp
definition overlong :: "u8 list" where
  "overlong = [8, 1, 18, 12, 34, 10, 7, 9, 1, 1, 1, 1, 1, 1, 1, 1]"

lemma overlong_returns: "\<not> Option.is_none (pb_decode static_world 3 static_fields 4096 (fresh_state overlong))"
  by code_simp


text \<open>
  Property C37: the defaults write past a short array. For a static repeated field without a counter, setting the defaults
  writes four zero bytes at the start of the array, whatever its size: with an array of fewer than
  four bytes the bytes that follow it are cleared, and at the end of a message these belong to someone else.
\<close>

theorem defaults_overrun:
  assumes "PB_ATYPE (ftype f) = PB_ATYPE_STATIC" and "PB_HTYPE (ftype f) = PB_HTYPE_REPEATED"
    and "PB_LTYPE (ftype f) \<noteq> PB_LTYPE_EXTENSION" and "tag f \<noteq> 0" and "size_offset f = 0"
    and "dest \<noteq> 0"
  shows "pb_message_set_to_defaults w (Suc c) [f] dest m =
     Some (store (dest + ucast (data_offset f)) [0, 0, 0, 0] m)"
  using assms
  by (simp add: pb_field_iter_begin_def pb_field_iter_next_def Let_def field_at_def PB_LAST_FIELD_def
      static_default_def htype_defs fixed32_bytes_def)

text \<open>One byte of array at address 4096, three bytes of something else behind it.\<close>

theorem defaults_overrun_witness:
  "map_option (\<lambda>m. load m 4096 5)
     (pb_message_set_to_defaults static_world 1
        [PB_LAST_FIELD\<lparr>tag := 1, ftype := 0x22, data_size := 1, array_size := 1\<rparr>] 4096 (\<lambda>_. 255)) =
   Some [0, 0, 0, 0, 255]"
proof -
  let ?f = "PB_LAST_FIELD\<lparr>tag := 1, ftype := 0x22, data_size := 1, array_size := 1\<rparr>"
  have "pb_message_set_to_defaults static_world (Suc 0) [?f] 4096 (\<lambda>_. 255) =
      Some (store 4096 [0, 0, 0, 0] (\<lambda>_. 255))"
    using defaults_overrun [of ?f 4096 static_world 0 "\<lambda>_. 255"]
    by (simp add: PB_LAST_FIELD_def PB_ATYPE_def PB_HTYPE_def PB_LTYPE_def atype_defs htype_defs ltype_defs)
  moreover have "load (store 4096 [0, 0, 0, 0] (\<lambda>_. 255)) 4096 5 = [0, 0, 0, 0, 255]" by code_simp
  ultimately show ?thesis by simp
qed

end
