(* ===== verification/Pb_Required.thy ===== *)
theory Pb_Required
  imports Pb_Safety
begin

text \<open>
  How the decoder counts the required fields of a message, and what that means for an empty
  input.
\<close>

section \<open>The iterator as a type\<close>

text \<open>
  Property C34: the iterator never leaves its array. An iterator that stands on an entry of a well-formed descriptor array, with the
  addresses the walk computes for that entry, stays such an iterator under \<open>pb_field_iter_next\<close> and
  under any search, which always returns.
\<close>

theorem iterator_typed:
  assumes "fields_wf fs" and "it \<in> set (walk fs dest)"
  shows "pos it < length fs \<and> dest_struct it = dest \<and>
     snd (pb_field_iter_next it) \<in> set (walk fs dest) \<and>
     (\<exists>r it'. pb_field_iter_find t it = Some (r, it') \<and> it' \<in> set (walk fs dest))"
proof -
  note f = walk_fields [OF assms]
  have "length (ahead (length fs) (pos it) (pos it)) < length fs + 1"
    using f(3) by (simp add: ahead.simps)
  then obtain r it' where "pb_field_iter_find t it = Some (r, it')"
    using find_loop_searches [of it "pos it" "length fs + 1" t] assms(1) f
    unfolding pb_field_iter_find_def by auto
  then show ?thesis using walk_find [OF assms] walk_next [OF assms] f by blast
qed

theorem iterator_typed_witness:
  "pos (snd (pb_field_iter_next (snd (pb_field_iter_begin two_fields 4096)))) < 2 \<and>
   snd (pb_field_iter_next (snd (pb_field_iter_begin two_fields 4096))) \<in> set (walk two_fields 4096)"
proof -
  have "fields_wf two_fields" by code_simp
  moreover have "snd (pb_field_iter_begin two_fields 4096) \<in> set (walk two_fields 4096)"
    by (rule walk_begin) (simp add: two_fields_def)
  ultimately have "snd (pb_field_iter_next (snd (pb_field_iter_begin two_fields 4096))) \<in> set (walk two_fields 4096)"
    using iterator_typed [of two_fields "snd (pb_field_iter_begin two_fields 4096)" 4096 0] by blast
  moreover from this have "pos (snd (pb_field_iter_next (snd (pb_field_iter_begin two_fields 4096)))) < length two_fields"
    using iterator_typed [of two_fields _ 4096 0] \<open>fields_wf two_fields\<close> by blast
  ultimately show ?thesis by (simp add: two_fields_def)
qed

section \<open>Counting required fields\<close>

definition required :: "pb_field \<Rightarrow> bool" where
  "required f \<longleftrightarrow> PB_HTYPE (ftype f) = PB_HTYPE_REQUIRED"

definition required_before :: "nat \<Rightarrow> pb_field list \<Rightarrow> nat" where
  "required_before i fs = length (filter required (take i fs))"

lemma next_required:
  assumes "fields_wf (start it)" "pos it + 1 < length (start it)"
  shows "required_field_index (snd (pb_field_iter_next it)) =
    required_field_index it + (if required (cur it) then 1 else 0)"
  using assms tag_field_at [OF assms(1)]
  by (auto simp: pb_field_iter_next_def Let_def required_def htype_defs)

lemma walk_required:
  assumes "fields_wf fs" "i < length fs"
    "it = ((\<lambda>it. snd (pb_field_iter_next it)) ^^ i) (snd (pb_field_iter_begin fs dest))"
  shows "required_field_index it = of_nat (required_before i fs)"
  using assms(2) unfolding assms(3)
proof (induction i)
  case 0
  then show ?case by (simp add: required_before_def pb_field_iter_begin_def Let_def)
next
  case (Suc i)
  let ?it = "((\<lambda>it. snd (pb_field_iter_next it)) ^^ i) (snd (pb_field_iter_begin fs dest))"
  have i: "i < length fs" using Suc.prems by simp
  note f = walk_step [OF assms(1) i refl, of dest]
  have c: "cur ?it = fs ! i" using f i by (simp add: field_at_def)
  have "required_before (Suc i) fs = required_before i fs + (if required (fs ! i) then 1 else 0)"
    using i by (simp add: required_before_def take_Suc_conv_app_nth)
  then show ?case
    using next_required [of ?it] Suc.IH [OF i] assms(1) f Suc.prems c by simp
qed

lemma last_field_walk:
  assumes wf: "fields_wf fs" and "i < length fs" "length fs - i \<le> k"
  shows "last_field k (((\<lambda>it. snd (pb_field_iter_next it)) ^^ i) (snd (pb_field_iter_begin fs dest))) =
    Some (of_nat (required_before (length fs - 1) fs), ftype (fs ! (length fs - 1)),
      snd (pb_field_iter_begin fs dest))"
  using assms(2,3)
proof (induction k arbitrary: i)
  case (Suc k)
  let ?next = "\<lambda>it. snd (pb_field_iter_next it)"
  let ?it = "(?next ^^ i) (snd (pb_field_iter_begin fs dest))"
  note f = walk_step [OF wf Suc.prems(1) refl, of dest]
  have n: "fst (pb_field_iter_next ?it) \<longleftrightarrow> i + 1 < length fs"
    using next_pos(1) [of ?it] wf f Suc.prems(1) by simp
  show ?case
  proof (cases "i + 1 < length fs")
    case True
    then have "last_field k ((?next ^^ Suc i) (snd (pb_field_iter_begin fs dest))) =
        Some (of_nat (required_before (length fs - 1) fs), ftype (fs ! (length fs - 1)),
          snd (pb_field_iter_begin fs dest))"
      using Suc.prems by (intro Suc.IH) simp_all
    then show ?thesis using n True by (simp add: case_prod_beta Let_def)
  next
    case False
    then have i: "i = length fs - 1" using Suc.prems(1) by simp
    have b: "?next ?it = snd (pb_field_iter_begin fs dest)"
      using next_begin [of ?it] wf f Suc.prems(1) n False by simp
    have "cur ?it = fs ! i" using f Suc.prems(1) by (simp add: field_at_def)
    then show ?thesis
      using n False b walk_required [OF wf Suc.prems(1) refl, of dest] i
      by (simp add: case_prod_beta Let_def)
  qed
qed simp

lemma required_count_begin:
  assumes wf: "fields_wf fs" "fs \<noteq> []" and small: "length fs < 2 ^ 32"
  shows "required_count (snd (pb_field_iter_begin fs dest)) =
    Some (of_nat (min 64 (length (filter required fs))))"
proof -
  let ?b = "snd (pb_field_iter_begin fs dest)" and ?n = "length fs - 1"
  let ?c = "length (filter required fs)"
  have n: "?n < length fs" using wf(2) by (cases fs) simp_all
  have l: "last_field (length (start ?b) + 1) ?b =
      Some (of_nat (required_before ?n fs), ftype (fs ! ?n), ?b)"
    using last_field_walk [OF wf(1), of 0 "length fs + 1" dest] wf(2) by simp
  have "fs = take ?n fs @ [fs ! ?n]" using n by (metis Suc_pred' length_greater_0_conv take_Suc_conv_app_nth take_all order_refl wf(2))
  then have "?c = length (filter required (take ?n fs @ [fs ! ?n]))" by simp
  then have c: "?c = required_before ?n fs + (if required (fs ! ?n) then 1 else 0)"
    by (simp add: required_before_def)
  have "tag (cur ?b) \<noteq> 0" using tag_field_at [OF wf(1), of 0] wf(2) by simp
  then have r: "(if PB_HTYPE (ftype (fs ! ?n)) = PB_HTYPE_REQUIRED \<and> tag (cur ?b) \<noteq> 0
      then of_nat (required_before ?n fs) + 1 else of_nat (required_before ?n fs)) = (of_nat ?c :: u32)"
    using c by (simp add: required_def)
  have "?c < 2 ^ 32" using le_less_trans [OF length_filter_le small] .
  then have u: "unat (of_nat ?c :: u32) = ?c" by (rule unat_u32_of_nat)
  have m: "(if PB_MAX_REQUIRED_FIELDS < (of_nat ?c :: u32) then PB_MAX_REQUIRED_FIELDS else of_nat ?c) =
      of_nat (min 64 ?c)"
    using u by (auto simp: PB_MAX_REQUIRED_FIELDS_def word_less_nat_alt min_def)
  show ?thesis unfolding required_count_def l using r m by (simp only: option.case prod.case Let_def)
qed

lemma all_seen_none:
  assumes "k \<le> 64"
  shows "all_seen (of_nat k) [0, 0] \<longleftrightarrow> k = 0"
proof -
  have "\<forall>k \<in> set [0..<65]. all_seen (of_nat k) [0, 0] \<longleftrightarrow> k = 0" by code_simp
  then show ?thesis using assms by simp
qed

text \<open>
  Property C35: an empty input is a message exactly when nothing is required. Decoding from a stream without bytes
  returns, succeeds if and only if no field of the message is required, and says so when it fails.
\<close>

theorem empty_input_needs_required:
  assumes "bytes_left (strm d) = 0" and "fields_wf fs" and "fs \<noteq> []" and "length fs < 2 ^ 32"
    and "i_errmsg (strm d) = None"
  shows "\<exists>d'. pb_decode_noinit w (Suc c) fs dest d = Some (\<not> list_ex required fs, d') \<and>
     i_errmsg (strm d') = (if list_ex required fs then Some ''missing required field'' else None)"
proof -
  let ?k = "min 64 (length (filter required fs))"
  have ex: "list_ex required fs \<longleftrightarrow> ?k \<noteq> 0"
    by (cases "filter required fs") (auto simp: list_ex_iff filter_empty_conv filter_eq_Cons_iff)
  obtain k where k: "k \<le> 64" "list_ex required fs \<longleftrightarrow> k \<noteq> 0"
    "required_count (snd (pb_field_iter_begin fs dest)) = Some (of_nat k)"
    using ex required_count_begin [OF assms(2-4), of dest] by (metis min.cobounded1)
  show ?thesis
    using assms(1,5) k(3) all_seen_none [OF k(1)] unfolding k(2)
    by (auto simp: Let_def dfail_def ifail_def)
qed

theorem empty_input_needs_required_witness:
  "\<exists>d'. pb_decode_noinit \<lparr>darrays = (\<lambda>_. []), defaults = (\<lambda>_. []), duser = (\<lambda>_ _ _. okay),
        dext_user = (\<lambda>_ _ _ _. okay), dext_field = (\<lambda>_. PB_LAST_FIELD), place = (\<lambda>k n. 0)\<rparr>
      1 two_fields 4096
      \<lparr>strm = pb_istream_from_buffer [] 0 :: unit istream, dmem = (\<lambda>_. 0), blocks = (\<lambda>_. 0), allocs = 0,
       iter = snd (pb_field_iter_begin [] 0), local_size = False, fixed_count_size = 0\<rparr> =
      Some (False, d')"
proof -
  let ?d = "\<lparr>strm = pb_istream_from_buffer [] 0 :: unit istream, dmem = (\<lambda>_. 0), blocks = (\<lambda>_. 0), allocs = 0,
       iter = snd (pb_field_iter_begin [] 0), local_size = False, fixed_count_size = 0\<rparr>"
  have "list_ex required two_fields" "fields_wf two_fields" by code_simp+
  then show ?thesis
    using empty_input_needs_required [of ?d two_fields _ 0 4096]
    by (auto simp: pb_istream_from_buffer_def two_fields_def)
qed

end
