(* ===== verification/Key_Order.thy ===== *)
theory Key_Order
  imports Main
begin

text \<open>
  A three-way comparison that orders keys totally, the contract that LevelDB's tables, memtables and skip lists have with
  their comparators, and what it says of sorted lists. Keys that compare equal need not be equal.
\<close>

lemma find_append: "find P (xs @ ys) = (case find P xs of None \<Rightarrow> find P ys | Some x \<Rightarrow> Some x)"
  by (induction xs) simp_all

locale key_order =
  fixes cmp :: "'k \<Rightarrow> 'k \<Rightarrow> int"
  assumes compare_sym: "0 < cmp a b \<longleftrightarrow> cmp b a < 0"
    and compare_trans: "cmp a b \<le> 0 \<Longrightarrow> cmp b d \<le> 0 \<Longrightarrow> cmp a d \<le> 0"
begin

lemma compare_zero_sym: "cmp a b = 0 \<longleftrightarrow> cmp b a = 0"
  using compare_sym [of a b] compare_sym [of b a] by linarith

lemma compare_refl: "cmp a a = 0"
  using compare_sym [of a a] by linarith

lemma compare_less_le_trans: "cmp a b < 0 \<Longrightarrow> cmp b d \<le> 0 \<Longrightarrow> cmp a d < 0"
  using compare_trans [of a b d] compare_trans [of b d a] compare_zero_sym [of d a] compare_sym [of b a]
    compare_zero_sym [of a d] by (metis less_le linorder_not_less order_less_imp_le)

lemma compare_le_less_trans: "cmp a b \<le> 0 \<Longrightarrow> cmp b d < 0 \<Longrightarrow> cmp a d < 0"
  using compare_trans [of a b d] compare_trans [of d a b] compare_zero_sym [of a d] compare_sym [of d b]
  by (metis less_le linorder_not_less order_less_imp_le)

lemma compare_zero_trans: "cmp a b = 0 \<Longrightarrow> cmp b d = 0 \<Longrightarrow> cmp a d = 0"
  using compare_trans [of a b d] compare_trans [of d b a] compare_zero_sym [of a b] compare_zero_sym [of b d]
    compare_sym [of a d] compare_sym [of d a] by linarith

lemma compare_not_less: "\<not> cmp a b < 0 \<longleftrightarrow> cmp b a \<le> 0"
  using compare_sym [of b a] by linarith

text \<open>Elements ordered by their keys: the ones before a target are a prefix.\<close>

lemma sorted_dropWhile:
  assumes "sorted_wrt (\<lambda>a b. cmp (k a) (k b) < 0) xs" and "a \<in> set (dropWhile (\<lambda>a. cmp (k a) t < 0) xs)"
  shows "\<not> cmp (k a) t < 0"
  using assms
proof (induction xs)
  case (Cons x xs)
  show ?case
  proof (cases "cmp (k x) t < 0")
    case False
    then have "a = x \<or> cmp (k x) (k a) < 0" using Cons.prems by auto
    with False show ?thesis using compare_less_le_trans [of "k x" "k a" t] by auto
  qed (use Cons in simp)
qed simp

lemma sorted_insert:
  assumes "sorted_wrt (\<lambda>a b. cmp (k a) (k b) < 0) xs" and "\<And>a. a \<in> set xs \<Longrightarrow> cmp t (k a) \<noteq> 0" and "k x = t"
  shows "sorted_wrt (\<lambda>a b. cmp (k a) (k b) < 0)
    (takeWhile (\<lambda>a. cmp (k a) t < 0) xs @ x # dropWhile (\<lambda>a. cmp (k a) t < 0) xs)"
proof -
  let ?P = "\<lambda>a. cmp (k a) t < 0"
  have "sorted_wrt (\<lambda>a b. cmp (k a) (k b) < 0) (takeWhile ?P xs @ dropWhile ?P xs)"
    using assms(1) by (simp only: takeWhile_dropWhile_id)
  then have "sorted_wrt (\<lambda>a b. cmp (k a) (k b) < 0) (takeWhile ?P xs)" "sorted_wrt (\<lambda>a b. cmp (k a) (k b) < 0) (dropWhile ?P xs)"
    "\<forall>a\<in>set (takeWhile ?P xs). \<forall>b\<in>set (dropWhile ?P xs). cmp (k a) (k b) < 0"
    unfolding sorted_wrt_append by blast+
  moreover have "cmp t (k a) < 0" if "a \<in> set (dropWhile ?P xs)" for a
    using sorted_dropWhile [OF assms(1) that] assms(2) [OF set_dropWhileD [OF that]] compare_sym [of t "k a"] by linarith
  ultimately show ?thesis
    using assms(3) by (auto simp: sorted_wrt_append dest: set_takeWhileD)
qed

end

end
