(* ===== verification/Ldb_Skip.thy ===== *)
theory Ldb_Skip
  imports Rock_Prelude Key_Order "HOL-Library.Multiset"
begin

text \<open>
  The skip list of LevelDB's memtable (\<^verbatim>\<open>db/skiplist.h\<close>) and the generator that draws its heights (\<^verbatim>\<open>util/random.h\<close>).
  Nodes live in an arena that only grows; a node is its index in it and the head is node 0. The three searches of the
  list share their shape, the locale \<open>level_search\<close>: along a level while a test holds, then down.
\<close>

section \<open>Random numbers\<close>

definition random_init :: "u32 \<Rightarrow> u32" where
  "random_init s =
     (let seed = s AND 0x7fffffff in if seed = 0 \<or> seed = 2147483647 then 1 else seed)"

definition random_Next :: "u32 \<Rightarrow> u32" where
  "random_Next seed =
     (let M = 2147483647 :: u64; product = ucast seed * 16807 :: u64;
          seed' = ucast (drop_bit 31 product + (product AND M)) :: u32
      in if ucast M < seed' then seed' - ucast M else seed')"

section \<open>The list\<close>

record 'k skip_node =
  node_key :: 'k
  links :: "nat option list"

record 'k skip_list =
  arena :: "'k skip_node list"
  max_height :: nat
  rnd_seed :: u32

abbreviation (input) head :: nat where "head \<equiv> 0"

definition kMaxHeight :: nat where "kMaxHeight = 12"

text \<open>A link read past the height of its node is whatever lies there; the invariant excludes it.\<close>

definition Next :: "'k skip_list \<Rightarrow> nat \<Rightarrow> nat \<Rightarrow> nat option" where
  "Next sl x n = links (arena sl ! x) ! n"

definition SetNext :: "'k skip_list \<Rightarrow> nat \<Rightarrow> nat \<Rightarrow> nat option \<Rightarrow> 'k skip_list" where
  "SetNext sl x n y =
     sl\<lparr>arena := (arena sl)[x := (arena sl ! x)\<lparr>links := (links (arena sl ! x))[n := y]\<rparr>]\<rparr>"

text \<open>A new node's links are not initialised: \<open>junk\<close> is what the arena's memory holds.\<close>

definition NewNode :: "nat \<Rightarrow> 'k skip_list \<Rightarrow> 'k \<Rightarrow> nat \<Rightarrow> 'k skip_list \<times> nat" where
  "NewNode junk sl key height =
     (sl\<lparr>arena := arena sl @ [\<lparr>node_key = key, links = replicate height (Some junk)\<rparr>]\<rparr>, length (arena sl))"

primrec clear_links :: "nat \<Rightarrow> 'k skip_list \<Rightarrow> 'k skip_list" where
  "clear_links 0 sl = sl"
| "clear_links (Suc i) sl = SetNext (clear_links i sl) head i None"

definition skip_list_new :: "nat \<Rightarrow> 'k \<Rightarrow> 'k skip_list" where
  "skip_list_new junk any_key =
     clear_links kMaxHeight
       (fst (NewNode junk \<lparr>arena = [], max_height = 1, rnd_seed = random_init 0xdeadbeef\<rparr> any_key kMaxHeight))"

text \<open>The loop of \<^verbatim>\<open>RandomHeight\<close>, and the generator it leaves.\<close>

function random_height_loop :: "nat \<Rightarrow> u32 \<Rightarrow> nat \<times> u32" where
  "random_height_loop height rnd =
     (if height < kMaxHeight
      then let rnd' = random_Next rnd
           in if rnd' mod 4 = 0 then random_height_loop (height + 1) rnd' else (height, rnd')
      else (height, rnd))"
  by pat_completeness auto
termination by (relation "measure (\<lambda>(height, _). kMaxHeight - height)") auto

definition RandomHeight :: "'k skip_list \<Rightarrow> nat \<times> 'k skip_list" where
  "RandomHeight sl = (case random_height_loop 1 (rnd_seed sl) of (height, rnd) \<Rightarrow> (height, sl\<lparr>rnd_seed := rnd\<rparr>))"

section \<open>Searching\<close>

definition KeyIsAfterNode :: "('k \<Rightarrow> 'k \<Rightarrow> int) \<Rightarrow> 'k skip_list \<Rightarrow> 'k \<Rightarrow> nat option \<Rightarrow> bool" where
  "KeyIsAfterNode cmp sl key n = (case n of None \<Rightarrow> False | Some a \<Rightarrow> cmp (node_key (arena sl ! a)) key < 0)"

text \<open>
  The loops, from node \<open>x\<close> at \<open>level\<close>. \<open>prev\<close> is the array the caller passed, if it passed one.
\<close>

partial_function (option) geq_loop ::
  "('k \<Rightarrow> 'k \<Rightarrow> int) \<Rightarrow> 'k skip_list \<Rightarrow> 'k \<Rightarrow> nat \<Rightarrow> nat \<Rightarrow> nat list option \<Rightarrow> (nat option \<times> nat list option) option"
  where
  "geq_loop cmp sl key x level prev =
     (let next = Next sl x level
      in if KeyIsAfterNode cmp sl key next then geq_loop cmp sl key (the next) level prev
         else let prev' = map_option (\<lambda>p. p[level := x]) prev
              in if level = 0 then Some (next, prev') else geq_loop cmp sl key x (level - 1) prev')"

definition FindGreaterOrEqual ::
  "('k \<Rightarrow> 'k \<Rightarrow> int) \<Rightarrow> 'k skip_list \<Rightarrow> 'k \<Rightarrow> nat list option \<Rightarrow> (nat option \<times> nat list option) option" where
  "FindGreaterOrEqual cmp sl key prev = geq_loop cmp sl key head (max_height sl - 1) prev"

partial_function (option) less_loop :: "('k \<Rightarrow> 'k \<Rightarrow> int) \<Rightarrow> 'k skip_list \<Rightarrow> 'k \<Rightarrow> nat \<Rightarrow> nat \<Rightarrow> nat option" where
  "less_loop cmp sl key x level =
     (let next = Next sl x level
      in if next = None \<or> 0 \<le> cmp (node_key (arena sl ! the next)) key
         then if level = 0 then Some x else less_loop cmp sl key x (level - 1)
         else less_loop cmp sl key (the next) level)"

definition FindLessThan :: "('k \<Rightarrow> 'k \<Rightarrow> int) \<Rightarrow> 'k skip_list \<Rightarrow> 'k \<Rightarrow> nat option" where
  "FindLessThan cmp sl key = less_loop cmp sl key head (max_height sl - 1)"

partial_function (option) last_loop :: "'k skip_list \<Rightarrow> nat \<Rightarrow> nat \<Rightarrow> nat option" where
  "last_loop sl x level =
     (let next = Next sl x level
      in if next = None then if level = 0 then Some x else last_loop sl x (level - 1)
         else last_loop sl (the next) level)"

definition FindLast :: "'k skip_list \<Rightarrow> nat option" where
  "FindLast sl = last_loop sl head (max_height sl - 1)"

definition Contains :: "('k \<Rightarrow> 'k \<Rightarrow> int) \<Rightarrow> 'k skip_list \<Rightarrow> 'k \<Rightarrow> bool option" where
  "Contains cmp sl key =
     Option.bind (FindGreaterOrEqual cmp sl key None)
       (\<lambda>(x, _). Some (case x of None \<Rightarrow> False | Some a \<Rightarrow> cmp key (node_key (arena sl ! a)) = 0))"

declare geq_loop.simps [code] less_loop.simps [code] last_loop.simps [code]

section \<open>Insertion\<close>

text \<open>
  Linking is a sequence of single stores; \<^verbatim>\<open>Insert\<close> runs them in this order. The array \<open>prev\<close> starts with whatever the
  stack holds.
\<close>

definition link_level :: "nat \<Rightarrow> nat list \<Rightarrow> nat \<Rightarrow> 'k skip_list \<Rightarrow> 'k skip_list" where
  "link_level x prev i sl =
     (let sl' = SetNext sl x i (Next sl (prev ! i) i) in SetNext sl' (prev ! i) i (Some x))"

definition link_levels :: "nat \<Rightarrow> nat list \<Rightarrow> nat \<Rightarrow> 'k skip_list \<Rightarrow> 'k skip_list" where
  "link_levels x prev height sl = foldl (\<lambda>s i. link_level x prev i s) sl [0..<height]"

definition raise_height :: "nat \<Rightarrow> 'k skip_list \<Rightarrow> nat list \<Rightarrow> 'k skip_list \<times> nat list" where
  "raise_height height sl prev =
     (if max_height sl < height
      then (sl\<lparr>max_height := height\<rparr>, foldl (\<lambda>p i. p[i := head]) prev [max_height sl..<height])
      else (sl, prev))"

definition Insert :: "nat \<Rightarrow> ('k \<Rightarrow> 'k \<Rightarrow> int) \<Rightarrow> 'k \<Rightarrow> 'k skip_list \<Rightarrow> 'k skip_list option" where
  "Insert junk cmp key sl =
     Option.bind (FindGreaterOrEqual cmp sl key (Some (replicate kMaxHeight junk)))
       (\<lambda>(_, prev0).
          let (height, sl1) = RandomHeight sl;
              (sl2, prev) = raise_height height sl1 (the prev0);
              (sl3, x) = NewNode junk sl2 key height
          in Some (link_levels x prev height sl3))"

section \<open>Iterators\<close>

text \<open>An iterator is its node, if it stands on one.\<close>

definition iter_Valid :: "nat option \<Rightarrow> bool" where
  "iter_Valid it \<longleftrightarrow> it \<noteq> None"

definition iter_key :: "'k skip_list \<Rightarrow> nat \<Rightarrow> 'k" where
  "iter_key sl a = node_key (arena sl ! a)"

definition iter_Next :: "'k skip_list \<Rightarrow> nat \<Rightarrow> nat option" where
  "iter_Next sl a = Next sl a 0"

definition iter_Prev :: "('k \<Rightarrow> 'k \<Rightarrow> int) \<Rightarrow> 'k skip_list \<Rightarrow> nat \<Rightarrow> nat option option" where
  "iter_Prev cmp sl a =
     Option.bind (FindLessThan cmp sl (node_key (arena sl ! a))) (\<lambda>x. Some (if x = head then None else Some x))"

definition iter_Seek :: "('k \<Rightarrow> 'k \<Rightarrow> int) \<Rightarrow> 'k skip_list \<Rightarrow> 'k \<Rightarrow> nat option option" where
  "iter_Seek cmp sl key = Option.bind (FindGreaterOrEqual cmp sl key None) (\<lambda>(x, _). Some x)"

definition iter_SeekToFirst :: "'k skip_list \<Rightarrow> nat option" where
  "iter_SeekToFirst sl = Next sl head 0"

definition iter_SeekToLast :: "'k skip_list \<Rightarrow> nat option option" where
  "iter_SeekToLast sl = Option.bind (FindLast sl) (\<lambda>x. Some (if x = head then None else Some x))"

section \<open>Links\<close>

definition node_height :: "'k skip_list \<Rightarrow> nat \<Rightarrow> nat" where
  "node_height sl a = length (links (arena sl ! a))"

text \<open>\<open>path h x xs\<close>: following \<open>h\<close> from \<open>x\<close> meets the nodes \<open>xs\<close> and ends.\<close>

primrec path :: "(nat \<Rightarrow> nat option) \<Rightarrow> nat \<Rightarrow> nat list \<Rightarrow> bool" where
  "path h x [] \<longleftrightarrow> h x = None"
| "path h x (y # ys) \<longleftrightarrow> h x = Some y \<and> path h y ys"

lemma path_append: "path h x (xs @ ys) \<Longrightarrow> path h (last (x # xs)) ys"
  by (induction xs arbitrary: x) auto

lemma path_cong: "path h x xs \<Longrightarrow> (\<And>a. a \<in> set (x # xs) \<Longrightarrow> h' a = h a) \<Longrightarrow> path h' x xs"
  by (induction xs arbitrary: x) auto

lemma path_unique: "path h x xs \<Longrightarrow> path h x ys \<Longrightarrow> xs = ys"
proof (induction xs arbitrary: x ys)
  case Nil
  then show ?case by (cases ys) auto
next
  case (Cons a xs)
  then show ?case by (cases ys) auto
qed

lemma path_insert:
  assumes "path h y (as @ bs)" and "distinct (y # as @ bs)" and "x \<notin> set (y # as @ bs)"
    and "h' (last (y # as)) = Some x" and "h' x = h (last (y # as))"
    and "\<And>a. a \<noteq> x \<Longrightarrow> a \<noteq> last (y # as) \<Longrightarrow> h' a = h a"
  shows "path h' y (as @ x # bs)"
  using assms
proof (induction as arbitrary: y)
  case Nil
  have "path h' x bs"
  proof (cases bs)
    case (Cons b bs')
    have "path h b bs'" and "h y = Some b" using Nil.prems(1) Cons by simp_all
    moreover have "h' a = h a" if "a \<in> set (b # bs')" for a
      using that Nil.prems(2, 3) Cons by (intro Nil.prems(6)) auto
    ultimately show ?thesis
      using Nil.prems(5) Cons path_cong [of h b bs' h'] by simp
  qed (use Nil in simp)
  then show ?case using Nil.prems(4) by simp
next
  case (Cons c as)
  have "path h' c (as @ x # bs)"
    using Cons.prems by (intro Cons.IH) (auto split: if_splits)
  moreover have "h' y = Some c"
  proof -
    have "last (c # as) \<in> set (c # as)" by (rule last_in_set) simp
    then have "h' y = h y" using Cons.prems(2, 3) by (intro Cons.prems(6)) auto
    then show ?thesis using Cons.prems(1) by simp
  qed
  ultimately show ?case by simp
qed

named_theorems skip_simps

lemma SetNext_fields [skip_simps]:
  "length (arena (SetNext sl x n y)) = length (arena sl)"
  "max_height (SetNext sl x n y) = max_height sl"
  "rnd_seed (SetNext sl x n y) = rnd_seed sl"
  "x < length (arena sl) \<Longrightarrow> iter_key (SetNext sl x n y) a = iter_key sl a"
  "x < length (arena sl) \<Longrightarrow> node_height (SetNext sl x n y) a = node_height sl a"
  by (cases "a = x"; simp add: SetNext_def iter_key_def node_height_def)+

lemma Next_SetNext [skip_simps]:
  "x < length (arena sl) \<Longrightarrow> n < node_height sl x \<Longrightarrow>
     Next (SetNext sl x n y) a m = (if a = x \<and> m = n then y else Next sl a m)"
  by (auto simp: Next_def SetNext_def node_height_def nth_list_update)

lemma link_level_fields [skip_simps]:
  assumes "x < length (arena sl)" and "prev ! i < length (arena sl)"
  shows "length (arena (link_level x prev i sl)) = length (arena sl)"
    "max_height (link_level x prev i sl) = max_height sl"
    "rnd_seed (link_level x prev i sl) = rnd_seed sl"
    "iter_key (link_level x prev i sl) a = iter_key sl a"
    "node_height (link_level x prev i sl) a = node_height sl a"
  using assms by (simp_all add: link_level_def Let_def skip_simps)

lemma Next_link_level:
  assumes "x < length (arena sl)" "i < node_height sl x" "prev ! i < length (arena sl)" "i < node_height sl (prev ! i)"
    and "prev ! i \<noteq> x"
  shows "Next (link_level x prev i sl) a m =
    (if m \<noteq> i then Next sl a m else if a = prev ! i then Some x else if a = x then Next sl (prev ! i) i else Next sl a m)"
  using assms by (auto simp: link_level_def Let_def skip_simps)

section \<open>Searches\<close>

text \<open>
  A search goes along level \<open>level\<close> while \<open>advance\<close> holds of the next node, then visits its node and goes down.
\<close>

locale level_search =
  fixes links_at :: "nat \<Rightarrow> nat \<Rightarrow> nat option"
    and advance :: "nat \<Rightarrow> bool"
    and visit :: "nat \<Rightarrow> nat \<Rightarrow> 'acc \<Rightarrow> 'acc"
    and finish :: "nat \<Rightarrow> 'acc \<Rightarrow> 'r"
    and search :: "nat \<Rightarrow> nat \<Rightarrow> 'acc \<Rightarrow> 'r option"
  assumes step_on: "links_at level x = Some y \<Longrightarrow> advance y \<Longrightarrow> search x level acc = search y level acc"
    and step_down: "pred_option (Not \<circ> advance) (links_at level x) \<Longrightarrow>
      search x level acc = (if level = 0 then Some (finish x (visit x level acc)) else search x (level - 1) (visit x level acc))"
begin

primrec trail :: "(nat \<Rightarrow> nat list) \<Rightarrow> nat \<Rightarrow> 'acc \<Rightarrow> 'acc" where
  "trail as 0 acc = visit (last (head # as 0)) 0 acc"
| "trail as (Suc i) acc = trail as i (visit (last (head # as (Suc i))) (Suc i) acc)"

lemma walk:
  assumes "path (links_at i) x (as @ bs)" and "\<And>a. a \<in> set as \<Longrightarrow> advance a" and "\<And>b. b \<in> set bs \<Longrightarrow> \<not> advance b"
  shows "search x i acc = (let z = last (x # as) in if i = 0 then Some (finish z (visit z i acc)) else search z (i - 1) (visit z i acc))"
  using assms
proof (induction as arbitrary: x)
  case Nil
  then show ?case by (cases bs) (simp_all add: step_down)
next
  case (Cons a as)
  then have "search x i acc = search a i acc" by (intro step_on) simp_all
  then show ?case using Cons by (auto simp: Let_def)
qed

lemma split_path:
  assumes "path h head (as @ bs)" and "x \<in> insert head (set as)"
  obtains vs where "path h x (vs @ bs)" "set vs \<subseteq> set as" "last (x # vs) = last (head # as)"
proof (cases "x = head")
  case True
  then show ?thesis using assms(1) that [of as] by simp
next
  case False
  then obtain us vs where as: "as = us @ x # vs" using assms(2) by (meson insertE split_list)
  then have "path h (last (head # us @ [x])) (vs @ bs)"
    using path_append [of h head "us @ [x]" "vs @ bs"] assms(1) by simp
  then show ?thesis using that [of vs] as by auto
qed

theorem search_ends:
  assumes "\<And>i. i \<le> n \<Longrightarrow> path (links_at i) head (as i @ bs i)"
    and "\<And>i a. i \<le> n \<Longrightarrow> a \<in> set (as i) \<Longrightarrow> advance a" and "\<And>i b. i \<le> n \<Longrightarrow> b \<in> set (bs i) \<Longrightarrow> \<not> advance b"
    and "\<And>i. i < n \<Longrightarrow> set (as (Suc i)) \<subseteq> set (as i)" and "x \<in> insert head (set (as n))"
  shows "search x n acc = Some (finish (last (head # as 0)) (trail as n acc))"
  using assms
proof (induction n arbitrary: x acc)
  case 0
  obtain vs where "path (links_at 0) x (vs @ bs 0)" "set vs \<subseteq> set (as 0)" "last (x # vs) = last (head # as 0)"
    using split_path [of "links_at 0" "as 0" "bs 0" x] 0 by blast
  then have "search x 0 acc = (let z = last (head # as 0) in Some (finish z (visit z 0 acc)))"
    using 0(2, 3) by (subst walk [of 0 x vs "bs 0"]) auto
  then show ?case by (simp add: Let_def)
next
  case (Suc n)
  obtain vs where vs: "path (links_at (Suc n)) x (vs @ bs (Suc n))" "set vs \<subseteq> set (as (Suc n))"
    "last (x # vs) = last (head # as (Suc n))"
    using split_path [of "links_at (Suc n)" "as (Suc n)" "bs (Suc n)" x] Suc.prems by blast
  let ?z = "last (head # as (Suc n))"
  have "set (as (Suc n)) \<subseteq> set (as n)" using Suc.prems(4) by blast
  moreover have "?z \<in> set (head # as (Suc n))" by (rule last_in_set) simp
  ultimately have z: "?z \<in> insert head (set (as n))" by auto
  have "search x (Suc n) acc = (let z = ?z in if Suc n = 0 then Some (finish z (visit z (Suc n) acc))
      else search z (Suc n - 1) (visit z (Suc n) acc))"
    unfolding vs(3) [symmetric] by (rule walk [OF vs(1)]) (use vs(2) Suc.prems(2, 3) in blast)+
  then have "search x (Suc n) acc = search ?z n (visit ?z (Suc n) acc)" by (simp add: Let_def)
  also have "\<dots> = Some (finish (last (head # as 0)) (trail as n (visit ?z (Suc n) acc)))"
  proof (rule Suc.IH [OF _ _ _ _ z])
    fix i assume "i \<le> n"
    then have i: "i \<le> Suc n" by simp
    show "path (links_at i) head (as i @ bs i)" by (rule Suc.prems(1) [OF i])
    show "\<And>a. a \<in> set (as i) \<Longrightarrow> advance a" by (rule Suc.prems(2) [OF i])
    show "\<And>b. b \<in> set (bs i) \<Longrightarrow> \<not> advance b" by (rule Suc.prems(3) [OF i])
  qed (simp add: Suc.prems(4))
  finally show ?case by simp
qed

end

definition geq_test :: "('k \<Rightarrow> 'k \<Rightarrow> int) \<Rightarrow> 'k skip_list \<Rightarrow> 'k \<Rightarrow> nat \<Rightarrow> bool" where
  "geq_test cmp sl key a \<longleftrightarrow> cmp (iter_key sl a) key < 0"

lemma geq_test_eq: "geq_test cmp sl key = (\<lambda>a. cmp (iter_key sl a) key < 0)"
  by (rule ext) (simp add: geq_test_def)

interpretation geq: level_search "\<lambda>i x. Next sl x i" "geq_test cmp sl key" "\<lambda>x i. map_option (\<lambda>p. p[i := x])"
  "\<lambda>x prev. (Next sl x 0, prev)" "geq_loop cmp sl key" for cmp :: "'k \<Rightarrow> 'k \<Rightarrow> int" and sl key
proof (unfold_locales, goal_cases)
  case (1 level x y acc)
  then show ?case by (subst geq_loop.simps) (simp add: KeyIsAfterNode_def geq_test_def iter_key_def)
next
  case (2 level x acc)
  then show ?case
    by (subst geq_loop.simps) (auto simp: KeyIsAfterNode_def geq_test_def iter_key_def Let_def split: option.splits)
qed

interpretation less: level_search "\<lambda>i x. Next sl x i" "geq_test cmp sl key" "\<lambda>x i acc. acc" "\<lambda>x acc. x"
  "\<lambda>x i acc. less_loop cmp sl key x i" for cmp :: "'k \<Rightarrow> 'k \<Rightarrow> int" and sl key
proof (unfold_locales, goal_cases)
  case (1 level x y acc)
  then show ?case by (subst less_loop.simps) (simp add: geq_test_def iter_key_def)
next
  case (2 level x acc)
  then show ?case
    by (subst less_loop.simps) (auto simp: geq_test_def iter_key_def Let_def split: option.splits)
qed

interpretation final: level_search "\<lambda>i x. Next sl x i" "\<lambda>_. True" "\<lambda>x i acc. acc" "\<lambda>x acc. x"
  "\<lambda>x i acc. last_loop sl x i" for sl :: "'k skip_list"
proof (unfold_locales, goal_cases)
  case (1 level x y acc)
  then show ?case by (subst last_loop.simps) simp
next
  case (2 level x acc)
  then show ?case by (subst last_loop.simps) (auto simp: Let_def split: option.splits)
qed

section \<open>The invariant\<close>

text \<open>\<open>xs\<close> are the nodes of the list in order; level \<open>i\<close> links those that are higher than \<open>i\<close>.\<close>

definition level_nodes :: "'k skip_list \<Rightarrow> nat list \<Rightarrow> nat \<Rightarrow> nat list" where
  "level_nodes sl xs i = filter (\<lambda>a. i < node_height sl a) xs"

definition skip_inv :: "('k \<Rightarrow> 'k \<Rightarrow> int) \<Rightarrow> 'k skip_list \<Rightarrow> nat list \<Rightarrow> bool" where
  "skip_inv cmp sl xs \<longleftrightarrow>
     (\<forall>i<kMaxHeight. path (\<lambda>x. Next sl x i) head (level_nodes sl xs i))
     \<and> head < length (arena sl) \<and> node_height sl head = kMaxHeight
     \<and> (\<forall>a\<in>set xs. a \<noteq> head \<and> a < length (arena sl) \<and> 0 < node_height sl a \<and> node_height sl a \<le> max_height sl)
     \<and> 0 < max_height sl \<and> max_height sl \<le> kMaxHeight
     \<and> sorted_wrt (\<lambda>a b. cmp (iter_key sl a) (iter_key sl b) < 0) xs"

definition hd_option :: "'a list \<Rightarrow> 'a option" where
  "hd_option xs = (case xs of [] \<Rightarrow> None | x # _ \<Rightarrow> Some x)"

lemma skip_inv_node: "skip_inv cmp sl xs \<Longrightarrow> a \<in> set xs \<Longrightarrow> a \<noteq> head \<and> a < length (arena sl) \<and> 0 < node_height sl a"
  by (simp add: skip_inv_def)

lemma skip_inv_sorted: "skip_inv cmp sl xs \<Longrightarrow> sorted_wrt (\<lambda>a b. cmp (iter_key sl a) (iter_key sl b) < 0) xs"
  by (simp add: skip_inv_def)

lemma path_hd: "path h x xs \<Longrightarrow> h x = hd_option xs"
  by (cases xs) (simp_all add: hd_option_def)

lemma level_nodes_append [simp]: "level_nodes sl (xs @ ys) i = level_nodes sl xs i @ level_nodes sl ys i"
  by (simp add: level_nodes_def)

lemma level_nodes_0: "(\<And>a. a \<in> set xs \<Longrightarrow> 0 < node_height sl a) \<Longrightarrow> level_nodes sl xs 0 = xs"
  by (simp add: level_nodes_def)

lemma skip_inv_path:
  assumes "skip_inv cmp sl xs"
  shows "path (\<lambda>x. Next sl x 0) head xs"
proof -
  have "path (\<lambda>x. Next sl x 0) head (level_nodes sl xs 0)"
    using assms by (simp add: skip_inv_def kMaxHeight_def)
  also have "level_nodes sl xs 0 = xs"
    using skip_inv_node [OF assms] by (intro level_nodes_0) blast
  finally show ?thesis .
qed

lemma level_nodes_split:
  "level_nodes sl xs i = level_nodes sl (takeWhile P xs) i @ level_nodes sl (dropWhile P xs) i"
  by (simp only: level_nodes_append [symmetric] takeWhile_dropWhile_id)

lemma prev_trail:
  obtains p' where "level_search.trail (\<lambda>x i. map_option (\<lambda>p. p[i := x])) as n (Some p) = Some p'" "length p' = length p"
    "\<And>i. i < length p \<Longrightarrow> p' ! i = (if i \<le> n then last (head # as i) else p ! i)"
proof (induction n arbitrary: p thesis)
  case 0
  show ?case
    by (rule 0 [of "p[0 := last (head # as 0)]"]) (auto simp: geq.trail.simps nth_list_update)
next
  case (Suc n)
  from Suc.IH [of "p[Suc n := last (head # as (Suc n))]"] obtain p' where p':
    "level_search.trail (\<lambda>x i. map_option (\<lambda>p. p[i := x])) as n (Some (p[Suc n := last (head # as (Suc n))])) = Some p'"
    "length p' = length p"
    "\<And>i. i < length p \<Longrightarrow> p' ! i = (if i \<le> n then last (head # as i) else p[Suc n := last (head # as (Suc n))] ! i)"
    by (metis length_list_update)
  show ?case
  proof (rule Suc.prems [of p'])
    show "level_search.trail (\<lambda>x i. map_option (\<lambda>p. p[i := x])) as (Suc n) (Some p) = Some p'"
      using p'(1) by (simp add: geq.trail.simps)
    show "\<And>i. i < length p \<Longrightarrow> p' ! i = (if i \<le> Suc n then last (head # as i) else p ! i)"
      using p'(3) by (auto simp: nth_list_update le_Suc_eq)
  qed (rule p'(2))
qed

lemma prev_trail_None: "level_search.trail (\<lambda>x i. map_option (\<lambda>p. p[i := x])) as n None = None"
  by (induction n) (simp_all add: geq.trail.simps)

context key_order
begin

lemma inv_search:
  fixes key :: 'k
  assumes "skip_inv cmp sl xs" and "n < kMaxHeight"
  defines "as \<equiv> level_nodes sl (takeWhile (geq_test cmp sl key) xs)"
    and "bs \<equiv> level_nodes sl (dropWhile (geq_test cmp sl key) xs)"
  shows "\<And>i. i \<le> n \<Longrightarrow> path (\<lambda>x. Next sl x i) head (as i @ bs i)"
    and "\<And>i a. a \<in> set (as i) \<Longrightarrow> geq_test cmp sl key a" and "\<And>i b. b \<in> set (bs i) \<Longrightarrow> \<not> geq_test cmp sl key b"
    and "\<And>i. set (as (Suc i)) \<subseteq> set (as i)" and "as 0 = takeWhile (geq_test cmp sl key) xs"
    and "bs 0 = dropWhile (geq_test cmp sl key) xs"
proof -
  show "\<And>i. i \<le> n \<Longrightarrow> path (\<lambda>x. Next sl x i) head (as i @ bs i)"
    using assms(1, 2) by (simp add: skip_inv_def as_def bs_def flip: level_nodes_split)
  show "\<And>i a. a \<in> set (as i) \<Longrightarrow> geq_test cmp sl key a"
    by (auto simp: as_def level_nodes_def dest: set_takeWhileD)
  show "\<And>i b. b \<in> set (bs i) \<Longrightarrow> \<not> geq_test cmp sl key b"
  proof -
    fix i b assume "b \<in> set (bs i)"
    then have b: "b \<in> set (dropWhile (\<lambda>a. cmp (iter_key sl a) key < 0) xs)"
      by (simp add: bs_def level_nodes_def geq_test_eq)
    show "\<not> geq_test cmp sl key b"
      using assms(1) sorted_dropWhile [OF _ b] by (simp add: skip_inv_def geq_test_def)
  qed
  show "\<And>i. set (as (Suc i)) \<subseteq> set (as i)"
    by (auto simp: as_def level_nodes_def)
  show "as 0 = takeWhile (geq_test cmp sl key) xs"
    unfolding as_def by (rule level_nodes_0) (use assms(1) in \<open>auto simp: skip_inv_def dest: set_takeWhileD\<close>)
  show "bs 0 = dropWhile (geq_test cmp sl key) xs"
    unfolding bs_def by (rule level_nodes_0) (use assms(1) in \<open>auto simp: skip_inv_def dest: set_dropWhileD\<close>)
qed

lemma geq_loop_finds:
  assumes "skip_inv cmp sl xs" and "n < kMaxHeight"
  shows "geq_loop cmp sl key head n prev =
    Some (hd_option (dropWhile (geq_test cmp sl key) xs),
          level_search.trail (\<lambda>x i. map_option (\<lambda>p. p[i := x])) (level_nodes sl (takeWhile (geq_test cmp sl key) xs)) n prev)"
proof -
  note s = inv_search [OF assms, where key = key]
  have "geq_loop cmp sl key head n prev =
    Some (Next sl (last (head # level_nodes sl (takeWhile (geq_test cmp sl key) xs) 0)) 0,
          level_search.trail (\<lambda>x i. map_option (\<lambda>p. p[i := x])) (level_nodes sl (takeWhile (geq_test cmp sl key) xs)) n prev)"
    by (rule geq.search_ends [of n sl _ "level_nodes sl (dropWhile (geq_test cmp sl key) xs)"])
       (use s in \<open>blast+\<close>)
  then show ?thesis
    using path_hd [OF path_append [OF s(1) [of 0]]] by (simp only: s(5, 6) le0)
qed

lemma FindGreaterOrEqual_finds:
  assumes "skip_inv cmp sl xs"
  shows "FindGreaterOrEqual cmp sl key None = Some (hd_option (dropWhile (geq_test cmp sl key) xs), None)"
    and "length p = kMaxHeight \<Longrightarrow> \<exists>p'. FindGreaterOrEqual cmp sl key (Some p) = Some (hd_option (dropWhile (geq_test cmp sl key) xs), Some p')
      \<and> length p' = kMaxHeight
      \<and> (\<forall>i<max_height sl. p' ! i = last (head # level_nodes sl (takeWhile (geq_test cmp sl key) xs) i))"
proof -
  have m: "max_height sl - 1 < kMaxHeight" "0 < max_height sl" "max_height sl \<le> kMaxHeight" using assms by (auto simp: skip_inv_def)
  show "FindGreaterOrEqual cmp sl key None = Some (hd_option (dropWhile (geq_test cmp sl key) xs), None)"
    unfolding FindGreaterOrEqual_def geq_loop_finds [OF assms m(1)] prev_trail_None ..
  assume len: "length p = kMaxHeight"
  from prev_trail [of "level_nodes sl (takeWhile (geq_test cmp sl key) xs)" "max_height sl - 1" p]
  obtain p' where "level_search.trail (\<lambda>x i. map_option (\<lambda>p. p[i := x]))
      (level_nodes sl (takeWhile (geq_test cmp sl key) xs)) (max_height sl - 1) (Some p) = Some p'"
    "length p' = length p"
    "\<And>i. i < length p \<Longrightarrow> p' ! i = (if i \<le> max_height sl - 1
       then last (head # level_nodes sl (takeWhile (geq_test cmp sl key) xs) i) else p ! i)" by metis
  then show "\<exists>p'. FindGreaterOrEqual cmp sl key (Some p) = Some (hd_option (dropWhile (geq_test cmp sl key) xs), Some p')
      \<and> length p' = kMaxHeight
      \<and> (\<forall>i<max_height sl. p' ! i = last (head # level_nodes sl (takeWhile (geq_test cmp sl key) xs) i))"
    unfolding FindGreaterOrEqual_def geq_loop_finds [OF assms m(1)] using m len by (intro exI [of _ p']) auto
qed

lemma FindLessThan_finds:
  assumes "skip_inv cmp sl xs"
  shows "FindLessThan cmp sl key = Some (last (head # takeWhile (geq_test cmp sl key) xs))"
proof -
  have m: "max_height sl - 1 < kMaxHeight" using assms by (auto simp: skip_inv_def)
  note s = inv_search [OF assms m, where key = key]
  have "less_loop cmp sl key head (max_height sl - 1) =
      Some (last (head # level_nodes sl (takeWhile (geq_test cmp sl key) xs) 0))"
    by (rule less.search_ends [of "max_height sl - 1" sl _ "level_nodes sl (dropWhile (geq_test cmp sl key) xs)" cmp key])
       (use s in \<open>blast+\<close>)
  then show ?thesis by (simp only: FindLessThan_def s(5))
qed

lemma FindLast_finds:
  assumes "skip_inv cmp sl xs"
  shows "FindLast sl = Some (last (head # xs))"
proof -
  have m: "max_height sl - 1 < kMaxHeight" using assms by (auto simp: skip_inv_def)
  have "last_loop sl head (max_height sl - 1) = Some (last (head # level_nodes sl xs 0))"
    by (rule final.search_ends [of "max_height sl - 1" sl "level_nodes sl xs" "\<lambda>_. []"])
       (use assms m in \<open>auto simp: skip_inv_def level_nodes_def\<close>)
  also have "level_nodes sl xs 0 = xs" by (rule level_nodes_0) (use assms in \<open>auto simp: skip_inv_def\<close>)
  finally show ?thesis by (simp only: FindLast_def)
qed

end

section \<open>Insertion keeps the invariant\<close>

declare random_height_loop.simps [simp del]

lemma random_height_bounds:
  "1 \<le> height \<Longrightarrow> height \<le> kMaxHeight \<Longrightarrow> random_height_loop height rnd = (h, rnd') \<Longrightarrow> 1 \<le> h \<and> h \<le> kMaxHeight"
proof (induction height rnd rule: random_height_loop.induct)
  case (1 height rnd)
  show ?case
    using 1 by (subst (asm) random_height_loop.simps) (auto simp: Let_def split: if_splits)
qed

lemma RandomHeight_bounds:
  obtains h r where "RandomHeight sl = (h, sl\<lparr>rnd_seed := r\<rparr>)" "1 \<le> h" "h \<le> kMaxHeight"
  using random_height_bounds [of 1 "rnd_seed sl"]
  by (cases "random_height_loop 1 (rnd_seed sl)") (auto simp: RandomHeight_def kMaxHeight_def)

lemma raise_height_prev:
  assumes "length prev = kMaxHeight" and "height \<le> kMaxHeight"
    and "\<And>i. i < max_height sl \<Longrightarrow> prev ! i = last (head # as i)" and "\<And>i. max_height sl \<le> i \<Longrightarrow> as i = []"
  obtains prev' where "raise_height height sl prev = (sl\<lparr>max_height := max (max_height sl) height\<rparr>, prev')"
    "\<And>i. i < height \<Longrightarrow> prev' ! i = last (head # as i)"
proof -
  have fill: "length (foldl (\<lambda>p i. p[i := head]) prev [m..<n]) = length prev \<and>
      (\<forall>i<length prev. foldl (\<lambda>p i. p[i := head]) prev [m..<n] ! i = (if m \<le> i \<and> i < n then head else prev ! i))"
    if "n \<le> length prev" for m n
    using that by (induction n) (auto simp: nth_list_update)
  show thesis
  proof (cases "max_height sl < height")
    case True
    show ?thesis
    proof (rule that)
      show "raise_height height sl prev = (sl\<lparr>max_height := max (max_height sl) height\<rparr>,
          foldl (\<lambda>p i. p[i := head]) prev [max_height sl..<height])"
        using True by (simp add: raise_height_def)
      fix i assume "i < height"
      then show "foldl (\<lambda>p i. p[i := head]) prev [max_height sl..<height] ! i = last (head # as i)"
        using fill [of height "max_height sl"] assms by auto
    qed
  next
    case False
    show ?thesis
      by (rule that [of prev]) (use False assms(3) in \<open>auto simp: raise_height_def max_def\<close>)
  qed
qed

text \<open>\<open>linked\<close>: the levels below \<open>k\<close> have the new node \<open>x\<close>, the others do not have it yet.\<close>

definition linked :: "'k skip_list \<Rightarrow> (nat \<Rightarrow> nat list) \<Rightarrow> (nat \<Rightarrow> nat list) \<Rightarrow> nat \<Rightarrow> nat \<Rightarrow> bool" where
  "linked sl as bs x k \<longleftrightarrow>
     (\<forall>i<kMaxHeight.
        path (\<lambda>a. Next sl a i) head (if i < k then as i @ x # bs i else as i @ bs i)
        \<and> distinct (head # as i @ bs i) \<and> x \<notin> set (head # as i @ bs i)
        \<and> (\<forall>a\<in>set (head # as i @ bs i). a < length (arena sl) \<and> i < node_height sl a))
     \<and> x < length (arena sl)"

lemma linked_level:
  assumes "linked sl as bs x k" and "k < node_height sl x" and "k < kMaxHeight" and "prev ! k = last (head # as k)"
  shows "linked (link_level x prev k sl) as bs x (Suc k)"
proof -
  have at: "path (\<lambda>a. Next sl a i) head (if i < k then as i @ x # bs i else as i @ bs i)"
      "distinct (head # as i @ bs i)" "x \<notin> set (head # as i @ bs i)"
      "\<forall>a\<in>set (head # as i @ bs i). a < length (arena sl) \<and> i < node_height sl a" if "i < kMaxHeight" for i
    using assms(1) that unfolding linked_def by blast+
  have x: "x < length (arena sl)" using assms(1) by (simp add: linked_def)
  have "prev ! k \<in> set (head # as k)" unfolding assms(4) by (rule last_in_set) simp
  then have p: "prev ! k \<in> set (head # as k @ bs k)" by auto
  then have p': "prev ! k < length (arena sl)" "k < node_height sl (prev ! k)" "prev ! k \<noteq> x"
    using at(3, 4) [OF assms(3)] by blast+
  note N = Next_link_level [OF x assms(2) p'(1, 2, 3)]
  note F = link_level_fields [OF x p'(1)]
  have "path (\<lambda>a. Next (link_level x prev k sl) a i) head (if i < Suc k then as i @ x # bs i else as i @ bs i)"
    if i: "i < kMaxHeight" for i
  proof (cases "i = k")
    case True
    have "path (\<lambda>a. Next (link_level x prev k sl) a k) head (as k @ x # bs k)"
    proof (rule path_insert)
      show "path (\<lambda>a. Next sl a k) head (as k @ bs k)" using at(1) [OF assms(3)] by simp
    qed (use at(2, 3) [OF assms(3)] p'(3) in \<open>simp_all only: assms(4) [symmetric] N, simp_all\<close>)
    then show ?thesis by (simp add: True)
  next
    case False
    then show ?thesis using at(1) [OF i] by (auto simp: N less_Suc_eq)
  qed
  then show ?thesis
    using at(2-4) x unfolding linked_def F by blast
qed

lemma linked_levels:
  assumes "linked sl as bs x 0" and "k \<le> node_height sl x" and "k \<le> kMaxHeight"
    and "\<And>i. i < k \<Longrightarrow> prev ! i = last (head # as i)"
  shows "linked (link_levels x prev k sl) as bs x k"
    and "length (arena (link_levels x prev k sl)) = length (arena sl)"
    and "max_height (link_levels x prev k sl) = max_height sl"
    and "iter_key (link_levels x prev k sl) a = iter_key sl a"
    and "node_height (link_levels x prev k sl) a = node_height sl a"
  using assms(2-)
proof (induction k arbitrary: a)
  case 0
  {
    case 1 then show ?case using assms(1) by (simp add: link_levels_def)
  next
    case 2 then show ?case by (simp add: link_levels_def)
  next
    case 3 then show ?case by (simp add: link_levels_def)
  next
    case 4 then show ?case by (simp add: link_levels_def)
  next
    case 5 then show ?case by (simp add: link_levels_def)
  }
next
  case (Suc k)
  let ?s = "link_levels x prev k sl"
  have unf: "link_levels x prev (Suc k) sl = link_level x prev k ?s" by (simp add: link_levels_def)
  have IH: "linked ?s as bs x k" "length (arena ?s) = length (arena sl)" "max_height ?s = max_height sl"
    "\<And>a. iter_key ?s a = iter_key sl a" "\<And>a. node_height ?s a = node_height sl a"
    if "Suc k \<le> node_height sl x" "Suc k \<le> kMaxHeight" "\<And>i. i < Suc k \<Longrightarrow> prev ! i = last (head # as i)"
    using Suc.IH that by simp_all
  have p: "prev ! k < length (arena sl)" if "Suc k \<le> kMaxHeight" "\<And>i. i < Suc k \<Longrightarrow> prev ! i = last (head # as i)"
  proof -
    have "prev ! k \<in> set (head # as k)" unfolding that(2) [OF lessI] by (rule last_in_set) simp
    then show ?thesis using assms(1) that(1) unfolding linked_def by (auto simp: Suc_le_eq)
  qed
  have x: "x < length (arena sl)" using assms(1) by (simp add: linked_def)
  {
    case 1
    then show ?case unfolding unf using IH by (intro linked_level) simp_all
  next
    case 2
    then show ?case using IH(2) p x by (simp add: unf skip_simps)
  next
    case 3
    then show ?case using IH(2, 3) p x by (simp add: unf skip_simps)
  next
    case 4
    then show ?case using IH(2, 4) p x by (simp add: unf skip_simps)
  next
    case 5
    then show ?case using IH(2, 5) p x by (simp add: unf skip_simps)
  }
qed

lemma NewNode_fields:
  assumes "NewNode junk sl key height = (sl', x)"
  shows "x = length (arena sl)" "length (arena sl') = Suc (length (arena sl))" "max_height sl' = max_height sl"
    "rnd_seed sl' = rnd_seed sl" "iter_key sl' x = key" "node_height sl' x = height"
    "a < length (arena sl) \<Longrightarrow> iter_key sl' a = iter_key sl a"
    "a < length (arena sl) \<Longrightarrow> node_height sl' a = node_height sl a"
    "a < length (arena sl) \<Longrightarrow> Next sl' a i = Next sl a i"
  using assms by (auto simp: NewNode_def iter_key_def node_height_def Next_def nth_append)

text \<open>What a list shows of itself: its keys in order. Two lists with the same nodes show the same.\<close>

definition represents :: "('k \<Rightarrow> 'k \<Rightarrow> int) \<Rightarrow> 'k skip_list \<Rightarrow> 'k list \<Rightarrow> bool" where
  "represents cmp sl ks \<longleftrightarrow> (\<exists>xs. skip_inv cmp sl xs \<and> ks = map (iter_key sl) xs)"

definition insert_sorted_key :: "('k \<Rightarrow> 'k \<Rightarrow> int) \<Rightarrow> 'k \<Rightarrow> 'k list \<Rightarrow> 'k list" where
  "insert_sorted_key cmp key ks = takeWhile (\<lambda>k. cmp k key < 0) ks @ key # dropWhile (\<lambda>k. cmp k key < 0) ks"

lemma linked_start:
  assumes "skip_inv cmp sl (ys @ zs)" and "x = length (arena sl)" and "x < length (arena sl')"
    and "\<And>a i. a < length (arena sl) \<Longrightarrow> Next sl' a i = Next sl a i"
    and "\<And>a. a < length (arena sl) \<Longrightarrow> node_height sl' a = node_height sl a"
    and "distinct (ys @ zs)"
  shows "linked sl' (level_nodes sl ys) (level_nodes sl zs) x 0"
proof -
  have inside: "a < length (arena sl)" if "a \<in> set (head # level_nodes sl ys i @ level_nodes sl zs i)" for a i
    using that assms(1) by (auto simp: skip_inv_def level_nodes_def)
  have "path (\<lambda>a. Next sl' a i) head (level_nodes sl ys i @ level_nodes sl zs i)" if "i < kMaxHeight" for i
  proof (rule path_cong)
    show "path (\<lambda>a. Next sl a i) head (level_nodes sl ys i @ level_nodes sl zs i)"
      using assms(1) that by (simp add: skip_inv_def)
  qed (use inside assms(4) in blast)
  moreover have "distinct (head # level_nodes sl ys i @ level_nodes sl zs i)" for i
    using assms(1, 6) by (auto simp: skip_inv_def level_nodes_def)
  moreover have "x \<notin> set (head # level_nodes sl ys i @ level_nodes sl zs i)" for i
    using inside assms(2) by blast
  moreover have "a < length (arena sl') \<and> i < node_height sl' a"
    if "a \<in> set (head # level_nodes sl ys i @ level_nodes sl zs i)" "i < kMaxHeight" for a i
    using that inside [OF that(1)] assms(1-3) assms(5) [of a]
    by (auto simp: skip_inv_def level_nodes_def)
  ultimately show ?thesis using assms(3) unfolding linked_def by simp
qed

lemma linked_end:
  assumes "linked sl (level_nodes sl ys) (level_nodes sl zs) x (node_height sl x)"
  shows "\<forall>i<kMaxHeight. path (\<lambda>a. Next sl a i) head (level_nodes sl (ys @ x # zs) i)"
proof (intro allI impI)
  fix i assume "i < kMaxHeight"
  then have "path (\<lambda>a. Next sl a i) head
      (if i < node_height sl x then level_nodes sl ys i @ x # level_nodes sl zs i else level_nodes sl ys i @ level_nodes sl zs i)"
    using assms by (simp add: linked_def)
  then show "path (\<lambda>a. Next sl a i) head (level_nodes sl (ys @ x # zs) i)"
    by (simp add: level_nodes_def split: if_splits)
qed

lemma level_nodes_cong: "(\<And>a. a \<in> set xs \<Longrightarrow> node_height sl' a = node_height sl a) \<Longrightarrow> level_nodes sl' xs = level_nodes sl xs"
  by (rule ext) (auto simp: level_nodes_def intro: filter_cong)

context key_order
begin

lemma skip_inv_distinct: "skip_inv cmp sl xs \<Longrightarrow> distinct xs"
proof -
  assume "skip_inv cmp sl xs"
  then have "sorted_wrt (\<lambda>a b. cmp (iter_key sl a) (iter_key sl b) < 0) xs" by (simp add: skip_inv_def)
  then show ?thesis
    by (induction xs) (auto simp: compare_refl)
qed

lemma Insert_inv:
  assumes inv: "skip_inv cmp sl xs" and new: "\<And>a. a \<in> set xs \<Longrightarrow> cmp key (iter_key sl a) \<noteq> 0"
  obtains sl' where "Insert junk cmp key sl = Some sl'"
    "skip_inv cmp sl' (takeWhile (geq_test cmp sl key) xs @ length (arena sl) # dropWhile (geq_test cmp sl key) xs)"
    "iter_key sl' (length (arena sl)) = key" "\<And>a. a \<in> set xs \<Longrightarrow> iter_key sl' a = iter_key sl a"
proof -
  let ?ys = "takeWhile (geq_test cmp sl key) xs" and ?zs = "dropWhile (geq_test cmp sl key) xs" and ?x = "length (arena sl)"
  have "\<exists>p'. FindGreaterOrEqual cmp sl key (Some (replicate kMaxHeight junk)) = Some (hd_option ?zs, Some p')
      \<and> length p' = kMaxHeight \<and> (\<forall>i<max_height sl. p' ! i = last (head # level_nodes sl ?ys i))"
    by (rule FindGreaterOrEqual_finds(2) [OF inv]) simp
  then obtain p where p: "FindGreaterOrEqual cmp sl key (Some (replicate kMaxHeight junk)) = Some (hd_option ?zs, Some p)"
    "length p = kMaxHeight" "\<And>i. i < max_height sl \<Longrightarrow> p ! i = last (head # level_nodes sl ?ys i)"
    by blast
  obtain h r where h: "RandomHeight sl = (h, sl\<lparr>rnd_seed := r\<rparr>)" "1 \<le> h" "h \<le> kMaxHeight"
    by (rule RandomHeight_bounds)
  let ?sl1 = "sl\<lparr>rnd_seed := r\<rparr>"
  have mem: "a \<noteq> head \<and> a < length (arena sl) \<and> 0 < node_height sl a \<and> node_height sl a \<le> max_height sl" if "a \<in> set xs" for a
    using inv that by (simp add: skip_inv_def)
  have "level_nodes sl ?ys i = []" if "max_height sl \<le> i" for i
    using mem that by (fastforce simp: level_nodes_def filter_empty_conv dest: set_takeWhileD)
  then obtain q where q: "raise_height h ?sl1 p = (?sl1\<lparr>max_height := max (max_height sl) h\<rparr>, q)"
    "\<And>i. i < h \<Longrightarrow> q ! i = last (head # level_nodes sl ?ys i)"
    using raise_height_prev [of p h ?sl1 "level_nodes sl ?ys"] p(2, 3) h(3) by auto
  let ?sl2 = "?sl1\<lparr>max_height := max (max_height sl) h\<rparr>"
  define sl3 where "sl3 = fst (NewNode junk ?sl2 key h)"
  have n: "NewNode junk ?sl2 key h = (sl3, ?x)" by (simp add: sl3_def NewNode_def)
  note N = NewNode_fields [OF n]
  define sl' where "sl' = link_levels ?x q h sl3"
  have ins: "Insert junk cmp key sl = Some sl'"
    by (simp add: Insert_def p(1) h(1) q(1) n sl'_def)
  have same: "Next ?sl2 a i = Next sl a i" "node_height ?sl2 a = node_height sl a" "iter_key ?sl2 a = iter_key sl a" for a i
    by (simp_all add: Next_def node_height_def iter_key_def)
  have inv': "skip_inv cmp sl (?ys @ ?zs)" and dist: "distinct (?ys @ ?zs)"
    using inv skip_inv_distinct [OF inv] by (simp_all only: takeWhile_dropWhile_id)
  have start: "linked sl3 (level_nodes sl ?ys) (level_nodes sl ?zs) ?x 0"
  proof (rule linked_start [OF inv' refl _ _ _ dist])
    show "?x < length (arena sl3)" unfolding N(2) by simp
    show "\<And>a i. a < ?x \<Longrightarrow> Next sl3 a i = Next sl a i" using N(9) same(1) by simp
    show "\<And>a. a < ?x \<Longrightarrow> node_height sl3 a = node_height sl a" using N(8) same(2) by simp
  qed
  have hx: "node_height sl3 ?x = h" by (rule N(6))
  have L: "linked sl' (level_nodes sl ?ys) (level_nodes sl ?zs) ?x h" "length (arena sl') = Suc ?x"
    "max_height sl' = max (max_height sl) h" "\<And>a. iter_key sl' a = iter_key sl3 a" "\<And>a. node_height sl' a = node_height sl3 a"
    using linked_levels [OF start, of h q] q(2) hx h(3) N(2, 3) by (simp_all add: sl'_def)
  have old: "iter_key sl' a = iter_key sl a" "node_height sl' a = node_height sl a" if "a < ?x" for a
    using L(4, 5) N(7, 8) same that by simp_all
  have key: "iter_key sl' ?x = key" "node_height sl' ?x = h" using L(4, 5) N(5, 6) by simp_all
  have lists: "level_nodes sl' ?ys = level_nodes sl ?ys" "level_nodes sl' ?zs = level_nodes sl ?zs"
    using mem old(2) by (auto intro!: level_nodes_cong dest: set_takeWhileD set_dropWhileD)
  have sorted: "sorted_wrt (\<lambda>a b. cmp (iter_key sl' a) (iter_key sl' b) < 0) (?ys @ ?x # ?zs)"
  proof -
    have "sorted_wrt (\<lambda>a b. cmp (iter_key sl' a) (iter_key sl' b) < 0) xs"
      using inv mem old(1) by (auto simp: skip_inv_def intro: sorted_wrt_mono_rel [rotated])
    moreover have "geq_test cmp sl' key a = geq_test cmp sl key a" if "a \<in> set xs" for a
      using old(1) mem [OF that] by (simp add: geq_test_def)
    then have "takeWhile (geq_test cmp sl' key) xs = ?ys" "dropWhile (geq_test cmp sl' key) xs = ?zs"
      by (auto intro: takeWhile_cong dropWhile_cong)
    ultimately show ?thesis
      using sorted_insert [of "iter_key sl'" xs key ?x] new old(1) mem key(1) by (simp add: geq_test_eq)
  qed
  have "skip_inv cmp sl' (?ys @ ?x # ?zs)"
    unfolding skip_inv_def
  proof (intro conjI)
    show "\<forall>i<kMaxHeight. path (\<lambda>a. Next sl' a i) head (level_nodes sl' (?ys @ ?x # ?zs) i)"
      by (rule linked_end) (use L(1) lists key(2) in simp)
    show "head < length (arena sl')" using L(2) by simp
    show "node_height sl' head = kMaxHeight" using old(2) [of head] inv by (simp add: skip_inv_def)
    show "\<forall>a\<in>set (?ys @ ?x # ?zs). a \<noteq> head \<and> a < length (arena sl') \<and> 0 < node_height sl' a \<and> node_height sl' a \<le> max_height sl'"
    proof
      fix a assume "a \<in> set (?ys @ ?x # ?zs)"
      then have "a = ?x \<or> a \<in> set xs" by (auto dest: set_takeWhileD set_dropWhileD)
      then show "a \<noteq> head \<and> a < length (arena sl') \<and> 0 < node_height sl' a \<and> node_height sl' a \<le> max_height sl'"
        using mem [of a] old(2) [of a] key(2) L(2, 3) h(2) inv by (auto simp: skip_inv_def)
    qed
  qed (use L(3) h inv sorted in \<open>simp_all add: skip_inv_def\<close>)
  then show ?thesis using that [OF ins] key(1) old(1) mem by blast
qed

lemma Insert_represents:
  assumes "represents cmp sl ks" and "\<And>k. k \<in> set ks \<Longrightarrow> cmp key k \<noteq> 0"
  obtains sl' where "Insert junk cmp key sl = Some sl'" "represents cmp sl' (insert_sorted_key cmp key ks)"
proof -
  from assms(1) obtain xs where xs: "skip_inv cmp sl xs" "ks = map (iter_key sl) xs" by (auto simp: represents_def)
  have new: "\<And>a. a \<in> set xs \<Longrightarrow> cmp key (iter_key sl a) \<noteq> 0" using assms(2) xs(2) by simp
  obtain sl' where sl': "Insert junk cmp key sl = Some sl'"
    "skip_inv cmp sl' (takeWhile (geq_test cmp sl key) xs @ length (arena sl) # dropWhile (geq_test cmp sl key) xs)"
    "iter_key sl' (length (arena sl)) = key" "\<And>a. a \<in> set xs \<Longrightarrow> iter_key sl' a = iter_key sl a"
    using Insert_inv [OF xs(1) new] by blast
  have "insert_sorted_key cmp key ks =
      map (iter_key sl') (takeWhile (geq_test cmp sl key) xs @ length (arena sl) # dropWhile (geq_test cmp sl key) xs)"
    using sl'(3, 4) by (auto simp: insert_sorted_key_def xs(2) geq_test_eq takeWhile_map dropWhile_map comp_def
        dest: set_takeWhileD set_dropWhileD)
  then have "represents cmp sl' (insert_sorted_key cmp key ks)"
    using sl'(2) unfolding represents_def by blast
  then show ?thesis by (rule that [OF sl'(1)])
qed

end

section \<open>The empty list, and every list\<close>

lemma clear_links_fields:
  assumes "arena sl \<noteq> []" and "n \<le> node_height sl head"
  shows "length (arena (clear_links n sl)) = length (arena sl)" "max_height (clear_links n sl) = max_height sl"
    "node_height (clear_links n sl) a = node_height sl a"
    "i < n \<Longrightarrow> Next (clear_links n sl) head i = None"
  using assms by (induction n arbitrary: i a) (auto simp: skip_simps less_Suc_eq)

lemma skip_inv_new: "skip_inv cmp (skip_list_new junk any_key) []"
proof -
  let ?s = "fst (NewNode junk \<lparr>arena = [], max_height = 1, rnd_seed = random_init 0xdeadbeef\<rparr> any_key kMaxHeight)"
  have "arena ?s \<noteq> []" "node_height ?s head = kMaxHeight" "max_height ?s = 1"
    by (simp_all add: NewNode_def node_height_def)
  then show ?thesis
    using clear_links_fields [of ?s kMaxHeight]
    by (simp add: skip_inv_def skip_list_new_def level_nodes_def) (simp add: kMaxHeight_def)
qed

text \<open>Every list a program can build, with the keys that were inserted, the latest first.\<close>

inductive skip_reach :: "('k \<Rightarrow> 'k \<Rightarrow> int) \<Rightarrow> 'k skip_list \<Rightarrow> 'k list \<Rightarrow> bool" for cmp where
  new: "skip_reach cmp (skip_list_new junk any_key) []"
| insert: "skip_reach cmp sl ks \<Longrightarrow> \<forall>k\<in>set ks. cmp key k \<noteq> 0 \<Longrightarrow> Insert junk cmp key sl = Some sl' \<Longrightarrow>
    skip_reach cmp sl' (key # ks)"

context key_order
begin

lemma skip_reach_inv: "skip_reach cmp sl ks \<Longrightarrow> \<exists>xs. skip_inv cmp sl xs \<and> mset (map (iter_key sl) xs) = mset ks"
proof (induction rule: skip_reach.induct)
  case (new junk any_key)
  show ?case using skip_inv_new by fastforce
next
  case (insert sl ks key junk sl')
  then obtain xs where xs: "skip_inv cmp sl xs" "mset (map (iter_key sl) xs) = mset ks" by blast
  have "set (map (iter_key sl) xs) = set ks" using xs(2) by (rule mset_eq_setD)
  then have "\<And>a. a \<in> set xs \<Longrightarrow> cmp key (iter_key sl a) \<noteq> 0" using insert.hyps(2) by auto
  then obtain s where s: "Insert junk cmp key sl = Some s"
    "skip_inv cmp s (takeWhile (geq_test cmp sl key) xs @ length (arena sl) # dropWhile (geq_test cmp sl key) xs)"
    "iter_key s (length (arena sl)) = key" "\<And>a. a \<in> set xs \<Longrightarrow> iter_key s a = iter_key sl a"
    using Insert_inv [OF xs(1)] by blast
  have "mset (map (iter_key s) (takeWhile (geq_test cmp sl key) xs @ length (arena sl) # dropWhile (geq_test cmp sl key) xs))
      = add_mset key (mset (map (iter_key s) (takeWhile (geq_test cmp sl key) xs @ dropWhile (geq_test cmp sl key) xs)))"
    unfolding map_append mset_append using s(3) by simp
  also have "map (iter_key s) (takeWhile (geq_test cmp sl key) xs @ dropWhile (geq_test cmp sl key) xs) = map (iter_key sl) xs"
    using s(4) by (simp only: takeWhile_dropWhile_id) (auto intro: map_cong)
  finally show ?case using s(1, 2) insert.hyps(3) xs(2) by auto
qed

lemma find_dropWhile: "hd_option (dropWhile (geq_test cmp sl key) xs) = find (\<lambda>a. 0 \<le> cmp (iter_key sl a) key) xs"
  by (induction xs) (auto simp: geq_test_def hd_option_def)

lemma Seek_finds: "skip_inv cmp sl xs \<Longrightarrow> iter_Seek cmp sl key = Some (find (\<lambda>a. 0 \<le> cmp (iter_key sl a) key) xs)"
  by (simp add: iter_Seek_def FindGreaterOrEqual_finds(1) find_dropWhile)

lemma Contains_iff:
  assumes "skip_inv cmp sl xs"
  shows "Contains cmp sl key = Some (\<exists>a\<in>set xs. cmp key (iter_key sl a) = 0)"
proof (cases "dropWhile (geq_test cmp sl key) xs")
  case Nil
  then have "\<forall>a\<in>set xs. cmp (iter_key sl a) key < 0" by (simp add: dropWhile_eq_Nil_conv geq_test_def)
  then have "\<not> (\<exists>a\<in>set xs. cmp key (iter_key sl a) = 0)" using compare_zero_sym by force
  then show ?thesis by (simp add: Contains_def FindGreaterOrEqual_finds(1) [OF assms] Nil hd_option_def)
next
  case (Cons b bs)
  have sorted: "sorted_wrt (\<lambda>a b. cmp (iter_key sl a) (iter_key sl b) < 0) xs" using assms by (simp add: skip_inv_def)
  have xs: "xs = takeWhile (geq_test cmp sl key) xs @ b # bs" using takeWhile_dropWhile_id [of "geq_test cmp sl key" xs] Cons by simp
  have later: "\<forall>a\<in>set bs. cmp (iter_key sl b) (iter_key sl a) < 0"
    using sorted xs by (metis sorted_wrt.simps(2) sorted_wrt_append)
  have b: "\<not> cmp (iter_key sl b) key < 0"
    using sorted_dropWhile [OF sorted, of b key] Cons by (simp add: geq_test_eq)
  have "cmp key (iter_key sl a) \<noteq> 0" if "a \<in> set (takeWhile (geq_test cmp sl key) xs)" for a
    using set_takeWhileD [OF that] compare_zero_sym [of key "iter_key sl a"] by (auto simp: geq_test_def)
  moreover have "cmp key (iter_key sl a) < 0" if "a \<in> set bs" for a
    using compare_le_less_trans [of key "iter_key sl b" "iter_key sl a"] later that b compare_not_less by blast
  ultimately have "(\<exists>a\<in>set xs. cmp key (iter_key sl a) = 0) \<longleftrightarrow> cmp key (iter_key sl b) = 0"
    by (subst xs) fastforce
  then show ?thesis by (simp add: Contains_def FindGreaterOrEqual_finds(1) [OF assms] Cons hd_option_def iter_key_def)
qed

lemma iterator_moves:
  assumes inv: "skip_inv cmp sl (us @ a # vs)"
  shows "iter_Next sl a = hd_option vs" and "iter_Prev cmp sl a = Some (if us = [] then None else Some (last us))"
proof -
  have "path (\<lambda>x. Next sl x 0) head ((us @ [a]) @ vs)"
    using skip_inv_path [OF inv] by simp
  from path_hd [OF path_append [OF this]] show "iter_Next sl a = hd_option vs" by (simp add: iter_Next_def)
  have "takeWhile (geq_test cmp sl (iter_key sl a)) (us @ a # vs) = us"
    using skip_inv_sorted [OF inv] by (subst takeWhile_append2) (auto simp: sorted_wrt_append geq_test_def compare_refl)
  then have found: "FindLessThan cmp sl (iter_key sl a) = Some (last (head # us))"
    using FindLessThan_finds [OF inv, of "iter_key sl a"] by simp
  show "iter_Prev cmp sl a = Some (if us = [] then None else Some (last us))"
  proof (cases "us = []")
    case False
    then have "last us \<noteq> head" using skip_inv_node [OF inv, of "last us"] by simp
    then show ?thesis using False found by (simp add: iter_Prev_def iter_key_def)
  qed (use found in \<open>simp add: iter_Prev_def iter_key_def\<close>)
qed

lemma iterator_ends:
  assumes inv: "skip_inv cmp sl xs"
  shows "iter_SeekToFirst sl = hd_option xs" and "iter_SeekToLast sl = Some (if xs = [] then None else Some (last xs))"
proof -
  from path_hd [OF skip_inv_path [OF inv]] show "iter_SeekToFirst sl = hd_option xs" by (simp add: iter_SeekToFirst_def)
  show "iter_SeekToLast sl = Some (if xs = [] then None else Some (last xs))"
  proof (cases "xs = []")
    case False
    then have "last xs \<noteq> head" using skip_inv_node [OF inv, of "last xs"] by simp
    then show ?thesis using False by (simp add: iter_SeekToLast_def FindLast_finds [OF inv])
  qed (simp add: iter_SeekToLast_def FindLast_finds [OF inv])
qed

end

text \<open>
  Property C14: the skip list is a sorted set. After any insertions of keys that do not compare equal, whatever the
  arena and the stack held before, the list's nodes hold exactly the inserted keys in ascending order; \<^verbatim>\<open>Contains\<close> and \<^verbatim>\<open>Seek\<close>
  return and answer as on that list; \<^verbatim>\<open>SeekToFirst\<close>, \<^verbatim>\<open>SeekToLast\<close>, \<^verbatim>\<open>Next\<close> and \<^verbatim>\<open>Prev\<close> walk it in both directions; and a
  further \<^verbatim>\<open>Insert\<close> returns.
\<close>

theorem skip_list_refines:
  assumes "key_order cmp" and "skip_reach cmp sl inserted"
  shows "\<exists>xs. mset (map (iter_key sl) xs) = mset inserted
     \<and> sorted_wrt (\<lambda>a b. cmp (iter_key sl a) (iter_key sl b) < 0) xs
     \<and> (\<forall>key. Contains cmp sl key = Some (\<exists>k\<in>set inserted. cmp key k = 0))
     \<and> (\<forall>key. iter_Seek cmp sl key = Some (find (\<lambda>a. 0 \<le> cmp (iter_key sl a) key) xs))
     \<and> iter_SeekToFirst sl = hd_option xs \<and> iter_SeekToLast sl = Some (if xs = [] then None else Some (last xs))
     \<and> (\<forall>us a vs. xs = us @ a # vs \<longrightarrow> iter_Next sl a = hd_option vs
          \<and> iter_Prev cmp sl a = Some (if us = [] then None else Some (last us)))
     \<and> (\<forall>key junk. (\<forall>k\<in>set inserted. cmp key k \<noteq> 0) \<longrightarrow> Insert junk cmp key sl \<noteq> None)"
proof -
  obtain xs where xs: "skip_inv cmp sl xs" "mset (map (iter_key sl) xs) = mset inserted"
    using key_order.skip_reach_inv [OF assms] by blast
  have keys: "set inserted = iter_key sl ` set xs" using mset_eq_setD [OF xs(2)] by simp
  have "\<forall>key. Contains cmp sl key = Some (\<exists>k\<in>set inserted. cmp key k = 0)"
    by (simp add: key_order.Contains_iff [OF assms(1) xs(1)] keys)
  moreover have "\<forall>us a vs. xs = us @ a # vs \<longrightarrow> iter_Next sl a = hd_option vs
      \<and> iter_Prev cmp sl a = Some (if us = [] then None else Some (last us))"
    using key_order.iterator_moves [OF assms(1)] xs(1) by blast
  moreover have "Insert junk cmp key sl \<noteq> None" if "\<forall>k\<in>set inserted. cmp key k \<noteq> 0" for key junk
    by (rule key_order.Insert_inv [OF assms(1) xs(1), of key junk]) (use that keys in auto)
  ultimately show ?thesis
    using xs(2) skip_inv_sorted [OF xs(1)] key_order.Seek_finds [OF assms(1) xs(1)] key_order.iterator_ends [OF assms(1) xs(1)]
    by blast
qed

definition int_compare :: "int \<Rightarrow> int \<Rightarrow> int" where
  "int_compare a b = a - b"

interpretation int_order: key_order int_compare
  by unfold_locales (auto simp: int_compare_def)

definition demo_list :: "int list \<Rightarrow> int skip_list option" where
  "demo_list keys = foldl (\<lambda>sl k. Option.bind sl (Insert 77 int_compare k)) (Some (skip_list_new 77 0)) keys"

lemma demo_reach: "demo_list keys = Some sl \<Longrightarrow> distinct keys \<Longrightarrow> skip_reach int_compare sl (rev keys)"
proof (induction keys arbitrary: sl rule: rev_induct)
  case Nil
  then show ?case by (auto simp: demo_list_def intro: skip_reach.new)
next
  case (snoc k keys)
  then obtain s where "demo_list keys = Some s" "Insert 77 int_compare k s = Some sl"
    by (auto simp: demo_list_def bind_eq_Some_conv)
  moreover have "\<forall>k'\<in>set (rev keys). int_compare k k' \<noteq> 0" using snoc.prems(2) by (auto simp: int_compare_def)
  ultimately show ?case using snoc.IH [of s] snoc.prems(2) skip_reach.insert [of int_compare s "rev keys" k 77 sl] by simp
qed

theorem skip_list_refines_witness:
  "\<exists>sl. demo_list [5, 3, 9] = Some sl \<and> Contains int_compare sl 9 = Some True \<and> Contains int_compare sl 4 = Some False"
proof -
  have "demo_list [5, 3, 9] \<noteq> None" by code_simp
  then obtain sl where sl: "demo_list [5, 3, 9] = Some sl" by blast
  then have "skip_reach int_compare sl (rev [5, 3, 9])" by (rule demo_reach) simp
  from skip_list_refines [OF int_order.key_order_axioms this] sl show ?thesis by (auto simp: int_compare_def)
qed

section \<open>The generator\<close>

text \<open>\<^verbatim>\<open>Random::Next\<close> multiplies modulo \<open>2\<^sup>3\<^sup>1 - 1\<close> without a division, and never leaves the good seeds.\<close>

lemma mersenne_reduce:
  fixes p :: nat
  shows "(p div 2 ^ 31 + p mod 2 ^ 31) mod (2 ^ 31 - 1) = p mod (2 ^ 31 - 1)"
proof -
  have "p = (p div 2 ^ 31) * (2 ^ 31 - 1) + (p div 2 ^ 31 + p mod 2 ^ 31)"
    using div_mult_mod_eq [of p "2 ^ 31"] by simp
  then show ?thesis by (metis mod_mult_self3)
qed

lemma product_not_multiple:
  fixes s :: nat
  assumes "0 < s" and "s < 2147483647"
  shows "s * 16807 mod 2147483647 \<noteq> 0"
proof
  assume "s * 16807 mod 2147483647 = 0"
  then have "2147483647 dvd s * 16807" by (rule mod_0_imp_dvd)
  moreover have "coprime (2147483647::nat) 16807"
  proof (rule coprimeI)
    fix c :: nat assume c: "c dvd 2147483647" "c dvd 16807"
    show "is_unit c"
      using dvd_diff_nat [OF dvd_mult [OF c(1), of 5790] dvd_mult [OF c(2), of 739806647]] by simp
  qed
  ultimately have "2147483647 dvd s" by (simp add: coprime_dvd_mult_left_iff)
  then show False using assms by (auto dest: dvd_imp_le)
qed

lemma random_Next_lehmer:
  assumes "0 < seed" and "seed < 2147483647"
  shows "unat (random_Next seed) = unat seed * 16807 mod 2147483647"
    and "0 < random_Next seed" and "random_Next seed < 2147483647"
proof -
  let ?p = "unat seed * 16807"
  define w where "w = (ucast seed * 16807 :: u64)"
  define q where "q = ?p div 2 ^ 31 + ?p mod 2 ^ 31"
  define r where "r = (ucast (drop_bit 31 w + (w AND 2147483647)) :: u32)"
  have s: "0 < unat seed" "unat seed < 2147483647" using assms by (simp_all add: word_less_nat_alt unat_gt_0)
  have w: "unat w = ?p" using s by (simp add: w_def unat_word_ariths unat_ucast_up)
  have "?p div 2 ^ 31 \<le> 16807" using s by simp
  moreover have "?p mod 2 ^ 31 < 2 ^ 31" by simp
  ultimately have q: "q < 2 ^ 31 + 16807" unfolding q_def by linarith
  have "(2147483647 :: u64) = mask 31" by (simp add: mask_eq_exp_minus_1)
  then have "w AND 2147483647 = take_bit 31 w" by (simp only: take_bit_eq_mask)
  then have "unat (w AND 2147483647) = ?p mod 2 ^ 31"
    using w by (simp add: take_bit_eq_mod unat_mod)
  moreover have "unat (drop_bit 31 w) = ?p div 2 ^ 31"
    using w by (simp add: drop_bit_eq_div unat_div)
  ultimately have "unat (drop_bit 31 w + (w AND 2147483647)) = q"
    using q by (subst unat_add_lem [THEN iffD1]) (simp_all add: q_def)
  then have r: "unat r = q" using q by (simp add: r_def unat_ucast_down)
  have m: "q mod 2147483647 = ?p mod 2147483647" using mersenne_reduce [of ?p] by (simp add: q_def)
  moreover have "?p mod 2147483647 \<noteq> 0" using product_not_multiple s by simp
  ultimately have q0: "q mod 2147483647 \<noteq> 0" by simp
  have "random_Next seed = (if 2147483647 < r then r - 2147483647 else r)"
    by (simp add: random_Next_def w_def r_def Let_def)
  then have "unat (random_Next seed) = (if 2147483647 < q then q - 2147483647 else q)"
    using r by (simp add: word_less_nat_alt unat_sub word_le_nat_alt)
  also have "\<dots> = q mod 2147483647"
  proof (cases "2147483647 < q")
    case True
    then show ?thesis using q le_mod_geq [of 2147483647 q] by simp
  next
    case False
    then have "q \<noteq> 2147483647" using q0 by auto
    then show ?thesis using False by simp
  qed
  finally have u: "unat (random_Next seed) = q mod 2147483647" .
  then show "unat (random_Next seed) = unat seed * 16807 mod 2147483647" by (simp add: m)
  show "0 < random_Next seed" using u q0 by (simp add: word_less_nat_alt)
  show "random_Next seed < 2147483647" using u by (simp add: word_less_nat_alt)
qed

end
