(* ===== verification/Ldb_Readers.thy ===== *)
theory Ldb_Readers
  imports Ldb_Skip
begin

text \<open>
  Reading a skip list while it is written (\<^verbatim>\<open>db/skiplist.h\<close>: reads need no lock, writes are synchronised among themselves).
  \<^verbatim>\<open>Insert\<close> is split into its stores to shared memory and the loop of \<^verbatim>\<open>FindGreaterOrEqual\<close> into its rounds, and
  the two are interleaved step by step. Every store of a link has release and every load acquire semantics in the code, so that a
  reader that sees a link sees the node behind it: steps act on one shared list. That loads of links return the latest
  value is an assumption of the model; loads of the height may be stale.
\<close>

section \<open>The stores of an insertion\<close>

datatype 'k store =
    RaiseHeight nat
  | AllocateNode nat 'k nat
  | CopyLink nat
  | Publish nat

primrec run_store :: "nat \<Rightarrow> nat list \<Rightarrow> 'k store \<Rightarrow> 'k skip_list \<Rightarrow> 'k skip_list" where
  "run_store x prev (RaiseHeight h) sl = sl\<lparr>max_height := h\<rparr>"
| "run_store x prev (AllocateNode junk key h) sl = fst (NewNode junk sl key h)"
| "run_store x prev (CopyLink i) sl = SetNext sl x i (Next sl (prev ! i) i)"
| "run_store x prev (Publish i) sl = SetNext sl (prev ! i) i (Some x)"

definition link_stores :: "nat \<Rightarrow> nat \<Rightarrow> 'k store list" where
  "link_stores k height = concat (map (\<lambda>i. [CopyLink i, Publish i]) [k..<height])"

text \<open>What \<^verbatim>\<open>Insert\<close> does before its first store: search, draw a height, find the predecessors.\<close>

definition begin_insert ::
  "nat \<Rightarrow> ('k \<Rightarrow> 'k \<Rightarrow> int) \<Rightarrow> 'k \<Rightarrow> 'k skip_list \<Rightarrow> ('k skip_list \<times> 'k store list \<times> nat \<times> nat list) option" where
  "begin_insert junk cmp key sl =
     Option.bind (FindGreaterOrEqual cmp sl key (Some (replicate kMaxHeight junk)))
       (\<lambda>(_, prev0).
          let (height, sl1) = RandomHeight sl;
              prev = snd (raise_height height sl1 (the prev0))
          in Some (sl1, (if max_height sl1 < height then [RaiseHeight height] else [])
               @ AllocateNode junk key height # link_stores 0 height, length (arena sl1), prev))"

section \<open>The rounds of a search\<close>

datatype reader =
    At nat nat
  | Found "nat option"

text \<open>\<open>h\<close> is the height the search loaded: the load is relaxed and may return an earlier, smaller one.\<close>

definition begin_seek :: "nat \<Rightarrow> reader" where
  "begin_seek h = At head (h - 1)"

primrec search_step :: "('k \<Rightarrow> 'k \<Rightarrow> int) \<Rightarrow> 'k \<Rightarrow> 'k skip_list \<Rightarrow> reader \<Rightarrow> reader" where
  "search_step cmp key sl (At x level) =
     (let next = Next sl x level
      in if KeyIsAfterNode cmp sl key next then At (the next) level
         else if level = 0 then Found next else At x (level - 1))"
| "search_step cmp key sl (Found n) = Found n"

section \<open>Interleavings\<close>

record 'k shared =
  the_list :: "'k skip_list"
  pending :: "'k store list"
  new_node :: nat
  new_prev :: "nat list"
  completed :: "'k list"
  running :: "'k option"
  reading :: reader

datatype 'k action =
    BeginInsert nat 'k
  | Store
  | BeginSeek nat
  | Read

definition act :: "('k \<Rightarrow> 'k \<Rightarrow> int) \<Rightarrow> 'k \<Rightarrow> 'k action \<Rightarrow> 'k shared \<Rightarrow> 'k shared option" where
  "act cmp target a c =
     (case a of
        BeginInsert junk key \<Rightarrow>
          if pending c \<noteq> [] \<or> (\<exists>k\<in>set (completed c). cmp key k = 0) then None
          else map_option (\<lambda>(sl, ws, x, prev). c\<lparr>the_list := sl, pending := ws, new_node := x, new_prev := prev, running := Some key\<rparr>)
                 (begin_insert junk cmp key (the_list c))
      | Store \<Rightarrow>
          (case pending c of
             [] \<Rightarrow> None
           | w # ws \<Rightarrow>
               let c' = c\<lparr>the_list := run_store (new_node c) (new_prev c) w (the_list c), pending := ws\<rparr>
               in Some (if ws = [] then c'\<lparr>completed := the (running c) # completed c, running := None\<rparr> else c'))
      | BeginSeek h \<Rightarrow>
          if 0 < h \<and> h \<le> max_height (the_list c) then Some (c\<lparr>reading := begin_seek h\<rparr>) else None
      | Read \<Rightarrow> Some (c\<lparr>reading := search_step cmp target (the_list c) (reading c)\<rparr>))"

inductive conc_reach :: "('k \<Rightarrow> 'k \<Rightarrow> int) \<Rightarrow> 'k \<Rightarrow> 'k shared \<Rightarrow> bool" for cmp target where
  start: "conc_reach cmp target
    \<lparr>the_list = skip_list_new junk any_key, pending = [], new_node = 0, new_prev = [], completed = [], running = None,
     reading = Found None\<rparr>"
| step: "conc_reach cmp target c \<Longrightarrow> act cmp target a c = Some c' \<Longrightarrow> conc_reach cmp target c'"

text \<open>Without a reader the stores, run to the end, are \<^verbatim>\<open>Insert\<close>.\<close>

lemma link_stores_Cons: "k < h \<Longrightarrow> link_stores k h = CopyLink k # Publish k # link_stores (Suc k) h"
  by (simp add: link_stores_def upt_conv_Cons)

lemma link_stores_end [simp]: "link_stores h h = []"
  by (simp add: link_stores_def)

lemma run_link_stores:
  "foldl (\<lambda>s w. run_store x prev w s) sl (link_stores 0 h) = link_levels x prev h sl"
  by (induction h) (simp_all add: link_stores_def link_levels_def link_level_def Let_def)

lemma Insert_stores:
  "Insert junk cmp key sl =
     map_option (\<lambda>(sl1, ws, x, prev). foldl (\<lambda>s w. run_store x prev w s) sl1 ws) (begin_insert junk cmp key sl)"
  by (auto simp: Insert_def begin_insert_def raise_height_def NewNode_def run_link_stores Let_def RandomHeight_def
      split: prod.splits Option.bind_splits)

section \<open>What holds between two stores\<close>

text \<open>\<open>midway\<close>: the new node \<open>x\<close> belongs between \<open>ys\<close> and \<open>zs\<close> and is linked on the levels below \<open>k\<close>.\<close>

definition midway :: "('k \<Rightarrow> 'k \<Rightarrow> int) \<Rightarrow> 'k skip_list \<Rightarrow> nat list \<Rightarrow> nat list \<Rightarrow> nat \<Rightarrow> nat list \<Rightarrow> nat \<Rightarrow> bool" where
  "midway cmp sl ys zs x prev k \<longleftrightarrow>
     linked sl (level_nodes sl ys) (level_nodes sl zs) x k
     \<and> x \<noteq> head \<and> node_height sl head = kMaxHeight
     \<and> (\<forall>a\<in>set (ys @ x # zs). a \<noteq> head \<and> a < length (arena sl) \<and> 0 < node_height sl a \<and> node_height sl a \<le> max_height sl)
     \<and> max_height sl \<le> kMaxHeight
     \<and> (\<forall>i<node_height sl x. prev ! i = last (head # level_nodes sl ys i))
     \<and> sorted_wrt (\<lambda>a b. cmp (iter_key sl a) (iter_key sl b) < 0) (ys @ x # zs)"

text \<open>\<open>ready\<close>: the search is over and nothing is stored yet.\<close>

definition ready :: "('k \<Rightarrow> 'k \<Rightarrow> int) \<Rightarrow> 'k skip_list \<Rightarrow> nat list \<Rightarrow> nat list \<Rightarrow> nat \<Rightarrow> nat list \<Rightarrow> 'k \<Rightarrow> nat \<Rightarrow> bool" where
  "ready cmp sl ys zs x prev key h \<longleftrightarrow>
     skip_inv cmp sl (ys @ zs) \<and> distinct (ys @ zs) \<and> x = length (arena sl) \<and> 1 \<le> h \<and> h \<le> kMaxHeight
     \<and> (\<forall>i<h. prev ! i = last (head # level_nodes sl ys i))
     \<and> (\<forall>a\<in>set ys. cmp (iter_key sl a) key < 0) \<and> (\<forall>a\<in>set zs. cmp key (iter_key sl a) < 0)"

inductive phase :: "('k \<Rightarrow> 'k \<Rightarrow> int) \<Rightarrow> 'k skip_list \<Rightarrow> 'k store list \<Rightarrow> nat \<Rightarrow> nat list \<Rightarrow> 'k list \<Rightarrow> 'k option \<Rightarrow> bool"
  for cmp where
  idle: "skip_inv cmp sl xs \<Longrightarrow> mset (map (iter_key sl) xs) = mset kept \<Longrightarrow> phase cmp sl [] x prev kept None"
| raise: "ready cmp sl ys zs x prev key h \<Longrightarrow> mset (map (iter_key sl) (ys @ zs)) = mset kept \<Longrightarrow> max_height sl < h \<Longrightarrow>
    phase cmp sl (RaiseHeight h # AllocateNode junk key h # link_stores 0 h) x prev kept (Some key)"
| allocate: "ready cmp sl ys zs x prev key h \<Longrightarrow> mset (map (iter_key sl) (ys @ zs)) = mset kept \<Longrightarrow> h \<le> max_height sl \<Longrightarrow>
    phase cmp sl (AllocateNode junk key h # link_stores 0 h) x prev kept (Some key)"
| copy: "midway cmp sl ys zs x prev k \<Longrightarrow> k < node_height sl x \<Longrightarrow> iter_key sl x = key \<Longrightarrow>
    mset (map (iter_key sl) (ys @ zs)) = mset kept \<Longrightarrow>
    phase cmp sl (link_stores k (node_height sl x)) x prev kept (Some key)"
| publish: "midway cmp sl ys zs x prev k \<Longrightarrow> k < node_height sl x \<Longrightarrow> iter_key sl x = key \<Longrightarrow>
    mset (map (iter_key sl) (ys @ zs)) = mset kept \<Longrightarrow>
    phase cmp (SetNext sl x k (Next sl (prev ! k) k)) (Publish k # link_stores (Suc k) (node_height sl x)) x prev kept (Some key)"

lemma midway_level:
  assumes m: "midway cmp sl ys zs x prev k" and k: "k < node_height sl x"
  shows "midway cmp (link_level x prev k sl) ys zs x prev (Suc k)"
    and "iter_key (link_level x prev k sl) a = iter_key sl a" and "node_height (link_level x prev k sl) a = node_height sl a"
    and "length (arena (link_level x prev k sl)) = length (arena sl)"
proof -
  have l: "linked sl (level_nodes sl ys) (level_nodes sl zs) x k" and x: "x < length (arena sl)" and k12: "k < kMaxHeight"
    and p: "prev ! k = last (head # level_nodes sl ys k)"
    using m k unfolding midway_def by (auto simp: linked_def intro: less_le_trans)
  have "prev ! k \<in> set (head # level_nodes sl ys k)" unfolding p by (rule last_in_set) simp
  then have pk: "prev ! k < length (arena sl)" using l k12 unfolding linked_def by auto
  note F = link_level_fields [of x sl prev k, OF x pk]
  show key: "\<And>a. iter_key (link_level x prev k sl) a = iter_key sl a" by (rule F)
  show "node_height (link_level x prev k sl) a = node_height sl a" by (rule F)
  show "length (arena (link_level x prev k sl)) = length (arena sl)" by (rule F)
  have same: "level_nodes (link_level x prev k sl) us = level_nodes sl us" for us by (rule level_nodes_cong) (rule F)
  have "linked (link_level x prev k sl) (level_nodes sl ys) (level_nodes sl zs) x (Suc k)"
    by (rule linked_level [where prev = prev and k = k, OF l k k12 p])
  then show "midway cmp (link_level x prev k sl) ys zs x prev (Suc k)"
    using m unfolding midway_def F same by blast
qed

lemma midway_end:
  assumes m: "midway cmp sl ys zs x prev (node_height sl x)"
  shows "skip_inv cmp sl (ys @ x # zs)"
proof -
  have "linked sl (level_nodes sl ys) (level_nodes sl zs) x (node_height sl x)" using m by (simp add: midway_def)
  then have "\<forall>i<kMaxHeight. path (\<lambda>a. Next sl a i) head (level_nodes sl (ys @ x # zs) i)" by (rule linked_end)
  moreover have "\<forall>a\<in>set (ys @ x # zs). a \<noteq> head \<and> a < length (arena sl) \<and> 0 < node_height sl a \<and> node_height sl a \<le> max_height sl"
    "sorted_wrt (\<lambda>a b. cmp (iter_key sl a) (iter_key sl b) < 0) (ys @ x # zs)" "max_height sl \<le> kMaxHeight"
    "node_height sl head = kMaxHeight"
    using m by (simp_all add: midway_def)
  moreover from this have "0 < max_height sl" "head < length (arena sl)" by auto
  ultimately show ?thesis unfolding skip_inv_def by blast
qed

lemma ready_allocate:
  fixes junk :: nat
  assumes r: "ready cmp sl ys zs x prev key h" and h: "h \<le> max_height sl"
  defines "sl' \<equiv> fst (NewNode junk sl key h)"
  shows "midway cmp sl' ys zs x prev 0" and "node_height sl' x = h" and "iter_key sl' x = key"
    and "a < length (arena sl) \<Longrightarrow> iter_key sl' a = iter_key sl a"
    and "a < length (arena sl) \<Longrightarrow> Next sl' a i = Next sl a i"
    and "a < length (arena sl) \<Longrightarrow> node_height sl' a = node_height sl a" and "length (arena sl') = Suc (length (arena sl))"
    and "max_height sl' = max_height sl"
proof -
  have inv: "skip_inv cmp sl (ys @ zs)" and dist: "distinct (ys @ zs)" and x: "x = length (arena sl)" and h': "1 \<le> h" "h \<le> kMaxHeight"
    using r by (simp_all add: ready_def)
  have "NewNode junk sl key h = (sl', x)" by (simp add: sl'_def x NewNode_def)
  note N = NewNode_fields [OF this]
  show "node_height sl' x = h" "iter_key sl' x = key" by (rule N)+
  show "a < length (arena sl) \<Longrightarrow> iter_key sl' a = iter_key sl a" by (rule N)
  show "a < length (arena sl) \<Longrightarrow> Next sl' a i = Next sl a i" by (rule N)
  show "a < length (arena sl) \<Longrightarrow> node_height sl' a = node_height sl a" by (rule N)
  show "length (arena sl') = Suc (length (arena sl))" "max_height sl' = max_height sl" by (rule N)+
  have node: "a \<noteq> head \<and> a < length (arena sl) \<and> 0 < node_height sl a \<and> node_height sl a \<le> max_height sl" if "a \<in> set (ys @ zs)" for a
    using inv that by (simp add: skip_inv_def)
  have lists: "level_nodes sl' ys = level_nodes sl ys" "level_nodes sl' zs = level_nodes sl zs"
    using node N(8) by (auto intro!: level_nodes_cong)
  have "linked sl' (level_nodes sl ys) (level_nodes sl zs) x 0"
    by (rule linked_start [OF inv x _ _ _ dist]) (use N(2, 8, 9) x in simp_all)
  moreover have "sorted_wrt (\<lambda>a b. cmp (iter_key sl' a) (iter_key sl' b) < 0) (ys @ x # zs)"
  proof -
    have "sorted_wrt (\<lambda>a b. cmp (iter_key sl' a) (iter_key sl' b) < 0) (ys @ zs)"
      by (rule sorted_wrt_mono_rel [OF _ skip_inv_sorted [OF inv]]) (use node N(7) in auto)
    then show ?thesis using r node N(5, 7) by (auto simp: sorted_wrt_append ready_def)
  qed
  moreover have "\<forall>a\<in>set (ys @ x # zs). a \<noteq> head \<and> a < length (arena sl') \<and> 0 < node_height sl' a \<and> node_height sl' a \<le> max_height sl'"
  proof
    fix a assume "a \<in> set (ys @ x # zs)"
    then have "a = x \<or> a \<in> set (ys @ zs)" by auto
    moreover have "head < x" using inv x by (simp add: skip_inv_def)
    ultimately show "a \<noteq> head \<and> a < length (arena sl') \<and> 0 < node_height sl' a \<and> node_height sl' a \<le> max_height sl'"
      using node [of a] N(2, 3, 6) N(8) [of a] h h'(1) x by auto
  qed
  moreover have "node_height sl' head = kMaxHeight" "max_height sl' \<le> kMaxHeight"
    using inv N(3) N(8) [of head] by (simp_all add: skip_inv_def)
  moreover have "\<forall>i<h. prev ! i = last (head # level_nodes sl ys i)" using r by (simp add: ready_def)
  ultimately show "midway cmp sl' ys zs x prev 0"
    unfolding midway_def lists N(6) by auto
qed

lemma ready_raise:
  assumes "ready cmp sl ys zs x prev key h" and "max_height sl < h"
  shows "ready cmp (sl\<lparr>max_height := h\<rparr>) ys zs x prev key h"
proof -
  have same: "Next (sl\<lparr>max_height := h\<rparr>) = Next sl" "node_height (sl\<lparr>max_height := h\<rparr>) = node_height sl"
    "iter_key (sl\<lparr>max_height := h\<rparr>) = iter_key sl" "level_nodes (sl\<lparr>max_height := h\<rparr>) = level_nodes sl"
    by (intro ext; simp add: Next_def node_height_def iter_key_def level_nodes_def)+
  have "\<forall>a\<in>set (ys @ zs). node_height sl a \<le> h"
    using assms by (auto simp: ready_def skip_inv_def intro: order.trans [OF _ less_imp_le])
  then show ?thesis
    using assms unfolding ready_def skip_inv_def same by auto
qed

lemma midway_done:
  assumes "midway cmp sl ys zs x prev k" and "k \<le> node_height sl x" and "iter_key sl x = key"
    and "mset (map (iter_key sl) (ys @ zs)) = mset kept"
  shows "if k < node_height sl x then phase cmp sl (link_stores k (node_height sl x)) x prev kept (Some key)
    else phase cmp sl [] x prev (key # kept) None"
proof (cases "k < node_height sl x")
  case True
  then show ?thesis using phase.copy [OF assms(1) True assms(3, 4)] by simp
next
  case False
  then have "skip_inv cmp sl (ys @ x # zs)" using assms(1, 2) midway_end by simp
  then show ?thesis using False assms(3, 4) phase.idle [of cmp sl "ys @ x # zs" "key # kept"] by simp
qed

lemma link_stores_Nil: "link_stores k h = [] \<longleftrightarrow> h \<le> k"
  by (cases "k < h") (simp add: link_stores_Cons, simp add: link_stores_def)

lemma store_keeps_phase:
  assumes "phase cmp sl (w # ws) x prev kept cur"
  shows "phase cmp (run_store x prev w sl) ws x prev (if ws = [] then the cur # kept else kept) (if ws = [] then None else cur)"
  using assms
proof cases
  case (raise ys zs key h junk)
  have "iter_key (sl\<lparr>max_height := h\<rparr>) = iter_key sl" by (rule ext) (simp add: iter_key_def)
  then have "mset (map (iter_key (sl\<lparr>max_height := h\<rparr>)) (ys @ zs)) = mset kept" using raise(5) by (simp only:)
  from phase.allocate [OF ready_raise [OF raise(4, 6)] this, of junk] show ?thesis by (simp add: raise(1-3))
next
  case (allocate ys zs key h junk)
  note A = ready_allocate [OF allocate(4, 6), where junk = junk]
  have h: "0 < h" using allocate(4) by (simp add: ready_def)
  have nodes: "a < length (arena sl)" if "a \<in> set (ys @ zs)" for a
    using allocate(4) that unfolding ready_def skip_inv_def by blast
  have "map (iter_key (fst (NewNode junk sl key h))) (ys @ zs) = map (iter_key sl) (ys @ zs)"
    using A(4) nodes by (intro map_cong refl) blast
  then have "mset (map (iter_key (fst (NewNode junk sl key h))) (ys @ zs)) = mset kept" using allocate(5) by (simp only:)
  from midway_done [OF A(1) _ A(3) this]
  have "phase cmp (fst (NewNode junk sl key h)) (link_stores 0 h) x prev kept (Some key)" using h by (simp add: A(2))
  then show ?thesis using h by (simp add: allocate(1-3) link_stores_Nil)
next
  case (copy ys zs k key)
  from copy(1) [unfolded link_stores_Cons [OF copy(4)]]
  have "w = CopyLink k" "ws = Publish k # link_stores (Suc k) (node_height sl x)" by simp_all
  then show ?thesis using phase.publish [OF copy(3-6)] by (simp add: copy(2))
next
  case (publish s ys zs k key)
  have l: "run_store x prev w sl = link_level x prev k s" by (simp add: publish(1, 2) link_level_def Let_def)
  note M = midway_level [OF publish(5, 6)]
  have "iter_key (link_level x prev k s) = iter_key s" by (rule ext) (rule M(2))
  then have kept: "mset (map (iter_key (link_level x prev k s)) (ys @ zs)) = mset kept" using publish(8) by (simp only:)
  have "if Suc k < node_height s x then phase cmp (link_level x prev k s) ws x prev kept (Some key)
      else phase cmp (link_level x prev k s) [] x prev (key # kept) None"
    using midway_done [OF M(1) _ _ kept, of key, unfolded M(3)] publish(6, 7) by (simp add: M(2) publish(3))
  moreover have "ws = [] \<longleftrightarrow> \<not> Suc k < node_height s x" by (simp add: publish(3) link_stores_Nil not_less)
  ultimately show ?thesis unfolding l by (simp add: publish(4) split: if_splits)
qed

lemma phase_idle:
  assumes "phase cmp sl [] x prev kept cur"
  shows "\<exists>xs. skip_inv cmp sl xs \<and> mset (map (iter_key sl) xs) = mset kept"
  using assms
proof cases
  case (copy ys zs k key)
  then show ?thesis by (simp add: link_stores_Cons)
qed blast

section \<open>What a reader sees\<close>

definition levels :: "('k \<Rightarrow> 'k \<Rightarrow> int) \<Rightarrow> 'k skip_list \<Rightarrow> (nat \<Rightarrow> nat list) \<Rightarrow> bool" where
  "levels cmp sl L \<longleftrightarrow>
     (\<forall>i<kMaxHeight. path (\<lambda>a. Next sl a i) head (L i)
        \<and> sorted_wrt (\<lambda>a b. cmp (iter_key sl a) (iter_key sl b) < 0) (L i)
        \<and> (\<forall>a\<in>set (head # L i). a < length (arena sl) \<and> i < node_height sl a))
     \<and> (\<forall>i. set (L (Suc i)) \<subseteq> set (L i)) \<and> 0 < max_height sl \<and> max_height sl \<le> kMaxHeight"

lemma skip_inv_levels:
  assumes "skip_inv cmp sl xs" shows "levels cmp sl (level_nodes sl xs)"
  using assms by (auto simp: levels_def skip_inv_def level_nodes_def intro!: sorted_wrt_filter)

text \<open>Levels are linked from the bottom, so a node on a level is on every level below.\<close>

definition midway_nodes :: "'k skip_list \<Rightarrow> nat list \<Rightarrow> nat list \<Rightarrow> nat \<Rightarrow> nat \<Rightarrow> nat \<Rightarrow> nat list" where
  "midway_nodes sl ys zs x k i = (if i < k then level_nodes sl ys i @ x # level_nodes sl zs i else level_nodes sl ys i @ level_nodes sl zs i)"

lemma midway_levels:
  assumes m: "midway cmp sl ys zs x prev k" and k: "k \<le> node_height sl x"
  shows "levels cmp sl (midway_nodes sl ys zs x k)"
proof -
  have l: "linked sl (level_nodes sl ys) (level_nodes sl zs) x k" using m by (simp add: midway_def)
  have "path (\<lambda>a. Next sl a i) head (midway_nodes sl ys zs x k i)" if "i < kMaxHeight" for i
    using l that by (simp add: linked_def midway_nodes_def)
  moreover have "sorted_wrt (\<lambda>a b. cmp (iter_key sl a) (iter_key sl b) < 0) (midway_nodes sl ys zs x k i)" for i
  proof -
    have "sorted_wrt (\<lambda>a b. cmp (iter_key sl a) (iter_key sl b) < 0) (ys @ x # zs)" using m by (simp add: midway_def)
    then show ?thesis
      by (auto simp: midway_nodes_def level_nodes_def sorted_wrt_append intro!: sorted_wrt_filter)
  qed
  moreover have "a < length (arena sl) \<and> i < node_height sl a"
    if "a \<in> set (head # midway_nodes sl ys zs x k i)" "i < kMaxHeight" for a i
  proof (cases "a = x \<and> i < k")
    case True
    then show ?thesis using m k by (simp add: midway_def)
  next
    case False
    then have "a \<in> set (head # level_nodes sl ys i @ level_nodes sl zs i)"
      using that(1) by (auto simp: midway_nodes_def split: if_splits)
    then show ?thesis using l that(2) unfolding linked_def by blast
  qed
  moreover have "set (midway_nodes sl ys zs x k (Suc i)) \<subseteq> set (midway_nodes sl ys zs x k i)" for i
    by (auto simp: midway_nodes_def level_nodes_def)
  moreover have "0 < max_height sl" "max_height sl \<le> kMaxHeight" using m by (auto simp: midway_def)
  ultimately show ?thesis unfolding levels_def by blast
qed

lemma copied_levels:
  assumes m: "midway cmp sl ys zs x prev k" and k: "k < node_height sl x" and L: "L = midway_nodes sl ys zs x k"
  shows "levels cmp (SetNext sl x k y) L"
proof -
  have x: "x < length (arena sl)" "k < kMaxHeight" using m k by (auto simp: midway_def intro: less_le_trans)
  have lv: "levels cmp sl L" unfolding L by (rule midway_levels [OF m]) (use k in simp)
  have "path (\<lambda>a. Next (SetNext sl x k y) a i) head (L i)" if "i < kMaxHeight" for i
  proof (rule path_cong)
    show "path (\<lambda>a. Next sl a i) head (L i)" using lv that by (simp add: levels_def)
    fix a assume a: "a \<in> set (head # L i)"
    have "x \<notin> set (head # L k)"
      using m x(2) by (simp add: L midway_nodes_def midway_def linked_def)
    then show "Next (SetNext sl x k y) a i = Next sl a i" using a by (auto simp: Next_SetNext [OF x(1) k])
  qed
  then show ?thesis using lv x(1) by (simp add: levels_def SetNext_fields)
qed

lemma phase_levels:
  assumes "phase cmp sl ws x prev kept cur"
  obtains L where "levels cmp sl L"
    "mset (map (iter_key sl) (L 0)) = mset kept \<or> (\<exists>key. cur = Some key \<and> mset (map (iter_key sl) (L 0)) = mset (key # kept))"
  using assms
proof cases
  case (idle xs)
  have "level_nodes sl xs 0 = xs" by (rule level_nodes_0) (use skip_inv_node [OF idle(3)] in blast)
  then show thesis using that [OF skip_inv_levels [OF idle(3)]] idle(4) by simp
next
  case (raise ys zs key h junk)
  have inv: "skip_inv cmp sl (ys @ zs)" using raise by (simp add: ready_def)
  have "level_nodes sl (ys @ zs) 0 = ys @ zs" by (rule level_nodes_0) (use skip_inv_node [OF inv] in blast)
  then show thesis using that [OF skip_inv_levels [OF inv]] raise by simp
next
  case (allocate ys zs key h junk)
  have inv: "skip_inv cmp sl (ys @ zs)" using allocate by (simp add: ready_def)
  have "level_nodes sl (ys @ zs) 0 = ys @ zs" by (rule level_nodes_0) (use skip_inv_node [OF inv] in blast)
  then show thesis using that [OF skip_inv_levels [OF inv]] allocate by simp
next
  case (copy ys zs k key)
  have "level_nodes sl ys 0 = ys" "level_nodes sl zs 0 = zs" using copy(3) by (auto simp: midway_def intro!: level_nodes_0)
  then have "mset (map (iter_key sl) (midway_nodes sl ys zs x k 0)) = (if 0 < k then mset (key # kept) else mset kept)"
    using copy(5, 6) by (simp add: midway_nodes_def)
  then show thesis
    using that [OF midway_levels [OF copy(3) less_imp_le [OF copy(4)]]] copy(2) by (metis (no_types))
next
  case (publish s ys zs k key)
  have x: "x < length (arena s)" using publish(4) by (simp add: midway_def)
  have "level_nodes s ys 0 = ys" "level_nodes s zs 0 = zs" using publish(4) by (auto simp: midway_def intro!: level_nodes_0)
  then have "mset (map (iter_key s) (midway_nodes s ys zs x k 0)) = (if 0 < k then mset (key # kept) else mset kept)"
    using publish(6, 7) by (simp add: midway_nodes_def)
  moreover have "iter_key sl = iter_key s" by (rule ext) (simp add: publish(1) SetNext_fields x)
  ultimately have "mset (map (iter_key sl) (midway_nodes s ys zs x k 0)) = (if 0 < k then mset (key # kept) else mset kept)"
    by (simp only:)
  then show thesis
    using that [of "midway_nodes s ys zs x k"] copied_levels [OF publish(4, 5) refl] publish(1, 3) by (metis (no_types))
qed

lemma levels_unique: "levels cmp sl L \<Longrightarrow> levels cmp sl L' \<Longrightarrow> i < kMaxHeight \<Longrightarrow> L i = L' i"
  unfolding levels_def by (blast intro: path_unique)

text \<open>A store only adds nodes to the levels, and changes no key.\<close>

lemma store_grows:
  assumes "phase cmp sl (w # ws) x prev kept cur" and "levels cmp sl L"
  obtains L' where "levels cmp (run_store x prev w sl) L'" "\<And>i. i < kMaxHeight \<Longrightarrow> set (L i) \<subseteq> set (L' i)"
    "\<And>a. a < length (arena sl) \<Longrightarrow> iter_key (run_store x prev w sl) a = iter_key sl a"
  using assms(1)
proof cases
  case (raise ys zs key h junk)
  have same: "Next (sl\<lparr>max_height := h\<rparr>) = Next sl" "node_height (sl\<lparr>max_height := h\<rparr>) = node_height sl"
    "iter_key (sl\<lparr>max_height := h\<rparr>) = iter_key sl"
    by (intro ext; simp add: Next_def node_height_def iter_key_def)+
  have "levels cmp (sl\<lparr>max_height := h\<rparr>) L"
    using assms(2) raise(4) unfolding levels_def same by (auto simp: ready_def)
  then show thesis by (intro that [of L]) (simp_all add: raise(1) same)
next
  case (allocate ys zs key h junk)
  note A = ready_allocate [OF allocate(4, 6), where junk = junk]
  have inv: "skip_inv cmp sl (ys @ zs)" using allocate(4) by (simp add: ready_def)
  have "level_nodes (fst (NewNode junk sl key h)) ys = level_nodes sl ys" "level_nodes (fst (NewNode junk sl key h)) zs = level_nodes sl zs"
    using skip_inv_node [OF inv] by (auto intro!: level_nodes_cong A(6))
  then have "midway_nodes (fst (NewNode junk sl key h)) ys zs x 0 i = level_nodes sl (ys @ zs) i" for i
    by (simp add: midway_nodes_def)
  then have same: "i < kMaxHeight \<Longrightarrow> L i = midway_nodes (fst (NewNode junk sl key h)) ys zs x 0 i" for i
    using levels_unique [OF assms(2) skip_inv_levels [OF inv]] by simp
  have lv: "levels cmp (fst (NewNode junk sl key h)) (midway_nodes (fst (NewNode junk sl key h)) ys zs x 0)"
    by (rule midway_levels [OF A(1)]) simp
  show thesis
    by (rule that [of "midway_nodes (fst (NewNode junk sl key h)) ys zs x 0"]) (use lv A(4) same in \<open>simp_all add: allocate(1)\<close>)
next
  case (copy ys zs k key)
  from copy(1) [unfolded link_stores_Cons [OF copy(4)]] have w: "w = CopyLink k" by simp
  have x: "x < length (arena sl)" using copy(3) by (simp add: midway_def)
  have same: "i < kMaxHeight \<Longrightarrow> L i = midway_nodes sl ys zs x k i" for i
    by (rule levels_unique [OF assms(2) midway_levels [OF copy(3)]]) (use copy(4) in simp_all)
  show thesis
    by (rule that [of "midway_nodes sl ys zs x k"])
       (use copied_levels [OF copy(3, 4) refl] same x in \<open>simp_all add: w SetNext_fields\<close>)
next
  case (publish s ys zs k key)
  have x: "x < length (arena s)" using publish(5) by (simp add: midway_def)
  have l: "run_store x prev w sl = link_level x prev k s" by (simp add: publish(1, 2) link_level_def Let_def)
  note M = midway_level [OF publish(5, 6)]
  have same: "i < kMaxHeight \<Longrightarrow> L i = midway_nodes s ys zs x k i" for i
    by (rule levels_unique [OF assms(2)]) (use copied_levels [OF publish(5, 6) refl] publish(1) in simp_all)
  have nodes: "level_nodes (link_level x prev k s) us = level_nodes s us" for us by (rule level_nodes_cong) (rule M(3))
  have keys: "iter_key (run_store x prev w sl) a = iter_key sl a" for a
    by (simp only: l M(2)) (simp add: publish(1) SetNext_fields x)
  have lv: "levels cmp (run_store x prev w sl) (midway_nodes (link_level x prev k s) ys zs x (Suc k))"
    unfolding l by (rule midway_levels [OF M(1)]) (use publish(6) in \<open>simp add: M(3)\<close>)
  show thesis
  proof (rule that [OF lv _ keys])
    fix i assume "i < kMaxHeight"
    from same [OF this] show "set (L i) \<subseteq> set (midway_nodes (link_level x prev k s) ys zs x (Suc k) i)"
      by (auto simp: midway_nodes_def nodes)
  qed
qed

definition reader_ok :: "('k \<Rightarrow> 'k \<Rightarrow> int) \<Rightarrow> 'k \<Rightarrow> 'k skip_list \<Rightarrow> reader \<Rightarrow> bool" where
  "reader_ok cmp target sl r \<longleftrightarrow>
     (case r of Found n \<Rightarrow> True
      | At x level \<Rightarrow> level < kMaxHeight
          \<and> (\<exists>L. levels cmp sl L \<and> (x = head \<or> x \<in> set (L level) \<and> geq_test cmp sl target x)))"

lemma path_member_next:
  "path h x xs \<Longrightarrow> a = x \<or> a \<in> set xs \<Longrightarrow> h a = Some b \<Longrightarrow> b \<in> set xs"
proof (induction xs arbitrary: x)
  case (Cons y ys)
  then show ?case by auto
qed auto

lemma KeyIsAfterNode_test: "KeyIsAfterNode cmp sl key n = (case n of None \<Rightarrow> False | Some a \<Rightarrow> geq_test cmp sl key a)"
  by (simp add: KeyIsAfterNode_def geq_test_def iter_key_def split: option.split)

lemma search_step_ok:
  assumes "reader_ok cmp target sl r" and "levels cmp sl L0"
  shows "reader_ok cmp target sl (search_step cmp target sl r)"
proof (cases r)
  case (At x level)
  then obtain L where L: "level < kMaxHeight" "levels cmp sl L" "x = head \<or> x \<in> set (L level) \<and> geq_test cmp sl target x"
    using assms(1) by (auto simp: reader_ok_def)
  have path: "path (\<lambda>a. Next sl a level) head (L level)" using L(1, 2) by (simp add: levels_def)
  show ?thesis
  proof (cases "KeyIsAfterNode cmp sl target (Next sl x level)")
    case True
    then obtain y where y: "Next sl x level = Some y" "geq_test cmp sl target y" by (auto simp: KeyIsAfterNode_test split: option.splits)
    have "y \<in> set (L level)" by (rule path_member_next [OF path, of x y]) (use L(3) y(1) in auto)
    then show ?thesis using L(1, 2) True y by (auto simp: At reader_ok_def)
  next
    case False
    have "set (L level) \<subseteq> set (L (level - 1))" using L(2) by (cases level) (simp_all add: levels_def)
    then show ?thesis using L False by (auto simp: At reader_ok_def)
  qed
qed (use assms in simp)

lemma store_keeps_reader:
  assumes "reader_ok cmp target sl r" and "phase cmp sl (w # ws) x prev kept cur"
  shows "reader_ok cmp target (run_store x prev w sl) r"
proof (cases r)
  case (At y level)
  then obtain L where L: "level < kMaxHeight" "levels cmp sl L" "y = head \<or> y \<in> set (L level) \<and> geq_test cmp sl target y"
    using assms(1) by (auto simp: reader_ok_def)
  obtain L' where L': "levels cmp (run_store x prev w sl) L'" "\<And>i. i < kMaxHeight \<Longrightarrow> set (L i) \<subseteq> set (L' i)"
    "\<And>a. a < length (arena sl) \<Longrightarrow> iter_key (run_store x prev w sl) a = iter_key sl a"
    by (rule store_grows [OF assms(2) L(2)]) blast
  have "y \<in> set (L level) \<Longrightarrow> y < length (arena sl)" using L(1, 2) by (simp add: levels_def)
  then have "y = head \<or> y \<in> set (L' level) \<and> geq_test cmp (run_store x prev w sl) target y"
    using L(3) L'(2) [OF L(1)] L'(3) [of y] by (auto simp: geq_test_def)
  then show ?thesis using L(1) L'(1) by (auto simp: At reader_ok_def)
qed (simp add: reader_ok_def)

context key_order
begin

lemma begin_insert_phase:
  assumes inv: "skip_inv cmp sl xs" and keys: "mset (map (iter_key sl) xs) = mset kept"
    and new: "\<forall>k\<in>set kept. cmp key k \<noteq> 0" and b: "begin_insert junk cmp key sl = Some (sl1, ws, x, prev)"
  shows "phase cmp sl1 ws x prev kept (Some key)" and "\<exists>r. sl1 = sl\<lparr>rnd_seed := r\<rparr>"
proof -
  let ?ys = "takeWhile (geq_test cmp sl key) xs" and ?zs = "dropWhile (geq_test cmp sl key) xs"
  have "\<exists>p'. FindGreaterOrEqual cmp sl key (Some (replicate kMaxHeight junk)) = Some (hd_option ?zs, Some p')
      \<and> length p' = kMaxHeight \<and> (\<forall>i<max_height sl. p' ! i = last (head # level_nodes sl ?ys i))"
    by (rule FindGreaterOrEqual_finds(2) [OF inv]) simp
  then obtain p where p: "FindGreaterOrEqual cmp sl key (Some (replicate kMaxHeight junk)) = Some (hd_option ?zs, Some p)"
    "length p = kMaxHeight" "\<And>i. i < max_height sl \<Longrightarrow> p ! i = last (head # level_nodes sl ?ys i)"
    by blast
  obtain h r where h: "RandomHeight sl = (h, sl\<lparr>rnd_seed := r\<rparr>)" "1 \<le> h" "h \<le> kMaxHeight"
    by (rule RandomHeight_bounds)
  have "level_nodes sl ?ys i = []" if "max_height sl \<le> i" for i
    using inv that by (fastforce simp: skip_inv_def level_nodes_def filter_empty_conv dest: set_takeWhileD)
  then obtain q where q: "raise_height h (sl\<lparr>rnd_seed := r\<rparr>) p = (sl\<lparr>rnd_seed := r, max_height := max (max_height sl) h\<rparr>, q)"
    "\<And>i. i < h \<Longrightarrow> q ! i = last (head # level_nodes sl ?ys i)"
    using raise_height_prev [of p h "sl\<lparr>rnd_seed := r\<rparr>" "level_nodes sl ?ys"] p(2, 3) h(3) by auto
  have eqs: "sl1 = sl\<lparr>rnd_seed := r\<rparr>" "x = length (arena sl)" "prev = q"
    "ws = (if max_height sl < h then [RaiseHeight h] else []) @ AllocateNode junk key h # link_stores 0 h"
    using b by (simp_all add: begin_insert_def p(1) h(1) q(1) split: if_splits)
  then show "\<exists>r. sl1 = sl\<lparr>rnd_seed := r\<rparr>" by blast
  have same: "Next (sl\<lparr>rnd_seed := r\<rparr>) = Next sl" "node_height (sl\<lparr>rnd_seed := r\<rparr>) = node_height sl"
    "iter_key (sl\<lparr>rnd_seed := r\<rparr>) = iter_key sl" "level_nodes (sl\<lparr>rnd_seed := r\<rparr>) = level_nodes sl"
    by (intro ext; simp add: Next_def node_height_def iter_key_def level_nodes_def)+
  have "set (map (iter_key sl) xs) = set kept" using keys by (rule mset_eq_setD)
  then have new': "a \<in> set xs \<Longrightarrow> cmp key (iter_key sl a) \<noteq> 0" for a using new by auto
  have "cmp key (iter_key sl a) < 0" if "a \<in> set ?zs" for a
    using sorted_dropWhile [OF skip_inv_sorted [OF inv], of a key] that new' [OF set_dropWhileD [OF that]]
      compare_sym [of key "iter_key sl a"] by (simp add: geq_test_eq)
  moreover have "cmp (iter_key sl a) key < 0" if "a \<in> set ?ys" for a
    using set_takeWhileD [OF that] by (simp add: geq_test_def)
  moreover have "skip_inv cmp (sl\<lparr>rnd_seed := r\<rparr>) (?ys @ ?zs)" "distinct (?ys @ ?zs)"
    using inv skip_inv_distinct [OF inv] unfolding takeWhile_dropWhile_id skip_inv_def same by simp_all
  ultimately have ready: "ready cmp sl1 ?ys ?zs x prev key h"
    unfolding ready_def eqs same using h q(2) by simp
  have kept: "mset (map (iter_key sl1) (?ys @ ?zs)) = mset kept"
    unfolding eqs(1) same takeWhile_dropWhile_id by (rule keys)
  show "phase cmp sl1 ws x prev kept (Some key)"
    using phase.raise [OF ready kept] phase.allocate [OF ready kept] by (cases "max_height sl < h") (simp_all add: eqs)
qed

lemma conc_invariant:
  "conc_reach cmp target c \<Longrightarrow>
     phase cmp (the_list c) (pending c) (new_node c) (new_prev c) (completed c) (running c)
     \<and> reader_ok cmp target (the_list c) (reading c)"
proof (induction rule: conc_reach.induct)
  case (start junk any_key)
  have "phase cmp (skip_list_new junk any_key) [] 0 [] [] None" by (rule phase.idle [OF skip_inv_new]) simp
  then show ?case by (simp add: reader_ok_def)
next
  case (step c a c')
  then have ph: "phase cmp (the_list c) (pending c) (new_node c) (new_prev c) (completed c) (running c)"
    and rd: "reader_ok cmp target (the_list c) (reading c)" by simp_all
  show ?case
  proof (cases a)
    case (BeginInsert junk key)
    then obtain sl ws x prev where c': "pending c = []" "\<forall>k\<in>set (completed c). cmp key k \<noteq> 0"
      "begin_insert junk cmp key (the_list c) = Some (sl, ws, x, prev)"
      "c' = c\<lparr>the_list := sl, pending := ws, new_node := x, new_prev := prev, running := Some key\<rparr>"
      using step.hyps(2) by (auto simp: act_def split: if_splits)
    from ph c'(1) obtain xs where xs: "skip_inv cmp (the_list c) xs" "mset (map (iter_key (the_list c)) xs) = mset (completed c)"
      using phase_idle [of cmp "the_list c"] by fastforce
    note B = begin_insert_phase [OF xs c'(2, 3)]
    then obtain r where "sl = (the_list c)\<lparr>rnd_seed := r\<rparr>" by blast
    then have "Next sl = Next (the_list c)" "node_height sl = node_height (the_list c)" "iter_key sl = iter_key (the_list c)"
      "length (arena sl) = length (arena (the_list c))" "max_height sl = max_height (the_list c)"
      "geq_test cmp sl = geq_test cmp (the_list c)"
      by (simp_all add: fun_eq_iff Next_def node_height_def iter_key_def geq_test_def)
    then have "levels cmp sl = levels cmp (the_list c)" "geq_test cmp sl = geq_test cmp (the_list c)"
      by (simp_all add: fun_eq_iff levels_def)
    then have "reader_ok cmp target sl (reading c)"
      using rd by (simp only: reader_ok_def)
    then show ?thesis using B(1) by (simp add: c'(4))
  next
    case Store
    then obtain w ws where w: "pending c = w # ws" using step.hyps(2) by (auto simp: act_def split: list.splits)
    show ?thesis
      using store_keeps_phase [OF ph [unfolded w]] store_keeps_reader [OF rd ph [unfolded w]] step.hyps(2)
      by (auto simp: act_def Store w Let_def split: if_splits)
  next
    case (BeginSeek h)
    obtain L where L: "levels cmp (the_list c) L" using phase_levels [OF ph] by blast
    have "0 < h \<and> h \<le> max_height (the_list c)" using step.hyps(2) by (auto simp: act_def BeginSeek split: if_splits)
    moreover from this L have "h - 1 < kMaxHeight" by (auto simp: levels_def)
    ultimately show ?thesis using L ph step.hyps(2) by (auto simp: act_def BeginSeek begin_seek_def reader_ok_def)
  next
    case Read
    obtain L where "levels cmp (the_list c) L" using phase_levels [OF ph] by blast
    then show ?thesis using ph step.hyps(2) search_step_ok [OF rd] by (auto simp: act_def Read)
  qed
qed

lemma path_before:
  assumes "path h head xs" and "sorted_wrt (\<lambda>a b. cmp (iter_key sl a) (iter_key sl b) < 0) xs"
    and "x = head \<or> x \<in> set xs \<and> geq_test cmp sl target x" and "\<not> KeyIsAfterNode cmp sl target (h x)"
  shows "h x = hd_option (dropWhile (geq_test cmp sl target) xs)"
proof (cases "x = head")
  case True
  then have "h x = hd_option xs" using path_hd [OF assms(1)] by simp
  then show ?thesis using assms(4) by (cases xs) (simp_all add: hd_option_def KeyIsAfterNode_test)
next
  case False
  then obtain us vs where xs: "xs = us @ x # vs" using assms(3) by (meson split_list)
  have x: "geq_test cmp sl target x" using False assms(3) by simp
  have "h x = hd_option vs" using path_hd [OF path_append [of h head "us @ [x]" vs]] assms(1) by (simp add: xs)
  moreover have "\<forall>a\<in>set us. geq_test cmp sl target a"
    using assms(2) x compare_less_le_trans [of _ "iter_key sl x" target] by (auto simp: xs sorted_wrt_append geq_test_def)
  then have "dropWhile (geq_test cmp sl target) xs = dropWhile (geq_test cmp sl target) vs"
    using x by (simp add: xs)
  ultimately show ?thesis
    using assms(4) by (simp only:) (cases vs; simp add: hd_option_def KeyIsAfterNode_test)
qed

end

text \<open>
  Property C7: readers need no lock. However the stores of insertions and the rounds of a search are interleaved, a search
  only stands on nodes whose link at its level is initialised, and the node it returns is the first one whose key is not
  smaller than the target in a sorted list that holds, at that moment, every key whose insertion has completed and at
  most the one being inserted besides.
\<close>

theorem concurrent_search_linearizable:
  assumes "key_order cmp" and "conc_reach cmp target c" and "reading c = At x level"
  shows "x < length (arena (the_list c)) \<and> level < length (links (arena (the_list c) ! x))
     \<and> (\<forall>n. search_step cmp target (the_list c) (reading c) = Found n \<longrightarrow>
          (\<exists>xs. path (\<lambda>a. Next (the_list c) a 0) head xs
             \<and> sorted_wrt (\<lambda>a b. cmp (iter_key (the_list c) a) (iter_key (the_list c) b) < 0) xs
             \<and> (mset (map (iter_key (the_list c)) xs) = mset (completed c)
                \<or> (\<exists>key. running c = Some key \<and> mset (map (iter_key (the_list c)) xs) = mset (key # completed c)))
             \<and> n = find (\<lambda>a. 0 \<le> cmp (iter_key (the_list c) a) target) xs))"
proof -
  let ?sl = "the_list c"
  have inv: "phase cmp ?sl (pending c) (new_node c) (new_prev c) (completed c) (running c)" "reader_ok cmp target ?sl (At x level)"
    using key_order.conc_invariant [OF assms(1, 2)] assms(3) by simp_all
  obtain L where L: "levels cmp ?sl L" "mset (map (iter_key ?sl) (L 0)) = mset (completed c)
      \<or> (\<exists>key. running c = Some key \<and> mset (map (iter_key ?sl) (L 0)) = mset (key # completed c))"
    by (rule phase_levels [OF inv(1)])
  obtain L' where L': "level < kMaxHeight" "levels cmp ?sl L'" "x = head \<or> x \<in> set (L' level) \<and> geq_test cmp ?sl target x"
    using inv(2) by (auto simp: reader_ok_def)
  have same: "L' level = L level" by (rule levels_unique [OF L'(2) L(1) L'(1)])
  have lv: "path (\<lambda>a. Next ?sl a 0) head (L 0)" "sorted_wrt (\<lambda>a b. cmp (iter_key ?sl a) (iter_key ?sl b) < 0) (L 0)"
    "x < length (arena ?sl) \<and> level < node_height ?sl x"
    using L(1) L'(1, 3) same by (auto simp: levels_def kMaxHeight_def)
  have "n = find (\<lambda>a. 0 \<le> cmp (iter_key ?sl a) target) (L 0)" if "search_step cmp target ?sl (At x level) = Found n" for n
  proof -
    from that have n: "level = 0" "n = Next ?sl x 0" "\<not> KeyIsAfterNode cmp ?sl target (Next ?sl x 0)"
      by (auto simp: Let_def split: if_splits)
    show ?thesis
      using key_order.path_before [OF assms(1) lv(1, 2), of x target] L'(3) same n key_order.find_dropWhile [OF assms(1)] by simp
  qed
  then show ?thesis using lv L(2) unfolding assms(3) node_height_def by blast
qed

definition play :: "int \<Rightarrow> int action list \<Rightarrow> int shared option" where
  "play target as = foldl (\<lambda>c a. Option.bind c (act int_compare target a))
     (Some \<lparr>the_list = skip_list_new 77 0, pending = [], new_node = 0, new_prev = [], completed = [], running = None,
        reading = Found None\<rparr>) as"

lemma play_reach: "play target as = Some c \<Longrightarrow> conc_reach int_compare target c"
proof (induction as arbitrary: c rule: rev_induct)
  case Nil
  then show ?case by (auto simp: play_def intro: conc_reach.start)
next
  case (snoc a as)
  then show ?case by (auto simp: play_def bind_eq_Some_conv intro: conc_reach.step)
qed

text \<open>The reader starts before the second insertion has stored anything and ends when its bottom level is linked.\<close>

theorem concurrent_search_linearizable_witness:
  "\<exists>c x. play 4 (BeginInsert 77 3 # replicate 6 Store @ BeginInsert 77 5 # BeginSeek 2 # Read # Read # replicate 3 Store) = Some c
     \<and> reading c = At x 0 \<and> x < length (arena (the_list c))
     \<and> search_step int_compare 4 (the_list c) (reading c) = Found (Some 2)"
proof -
  let ?as = "BeginInsert 77 3 # replicate 6 Store @ BeginInsert 77 5 # BeginSeek 2 # Read # Read # replicate 3 Store"
  have "map_option reading (play 4 ?as) = Some (At 1 0)
      \<and> map_option (\<lambda>c. search_step int_compare 4 (the_list c) (reading c)) (play 4 ?as) = Some (Found (Some 2))" by code_simp
  then obtain c where c: "play 4 ?as = Some c" "reading c = At 1 0"
    "search_step int_compare 4 (the_list c) (reading c) = Found (Some 2)" by auto
  from concurrent_search_linearizable [OF int_order.key_order_axioms play_reach [OF c(1)] c(2)] c show ?thesis by blast
qed

end
