(* ===== verification/Ldb_Coding.thy ===== *)
theory Ldb_Coding
  imports Word_Bytes
begin

text \<open>
  LevelDB's byte formats (\<^verbatim>\<open>util/coding.cc\<close>): fixed-width integers, varints and length-prefixed slices. A
  \<^verbatim>\<open>std::string\<close> or \<^verbatim>\<open>Slice\<close> is its list of bytes; a function that moves a pointer or shortens a slice
  returns what is left of it. A pointer never moves past its limit: the list of the bytes up to the limit is all a
  function sees.
\<close>

type_synonym bytes = "u8 list"

named_theorems coding_simps

section \<open>Fixed-width integers\<close>

definition EncodeFixed32 :: "u32 \<Rightarrow> bytes" where
  "EncodeFixed32 v =
     [ucast (v AND 0xFF), ucast (drop_bit 8 v AND 0xFF), ucast (drop_bit 16 v AND 0xFF),
      ucast (drop_bit 24 v AND 0xFF)]"

definition EncodeFixed64 :: "u64 \<Rightarrow> bytes" where
  "EncodeFixed64 v =
     [ucast (v AND 0xFF), ucast (drop_bit 8 v AND 0xFF), ucast (drop_bit 16 v AND 0xFF),
      ucast (drop_bit 24 v AND 0xFF), ucast (drop_bit 32 v AND 0xFF), ucast (drop_bit 40 v AND 0xFF),
      ucast (drop_bit 48 v AND 0xFF), ucast (drop_bit 56 v AND 0xFF)]"

definition PutFixed32 :: "bytes \<Rightarrow> u32 \<Rightarrow> bytes" where
  "PutFixed32 dst v = dst @ EncodeFixed32 v"

definition PutFixed64 :: "bytes \<Rightarrow> u64 \<Rightarrow> bytes" where
  "PutFixed64 dst v = dst @ EncodeFixed64 v"

text \<open>The decoders do not check bounds; their callers do.\<close>

definition DecodeFixed32 :: "bytes \<Rightarrow> u32" where
  "DecodeFixed32 p =
     ucast (p ! 0) OR push_bit 8 (ucast (p ! 1)) OR push_bit 16 (ucast (p ! 2)) OR
     push_bit 24 (ucast (p ! 3))"

definition DecodeFixed64 :: "bytes \<Rightarrow> u64" where
  "DecodeFixed64 p =
     (let lo = ucast (DecodeFixed32 p); hi = ucast (DecodeFixed32 (drop 4 p))
      in push_bit 32 hi OR lo)"

section \<open>Varints\<close>

definition EncodeVarint32 :: "u32 \<Rightarrow> bytes" where
  "EncodeVarint32 v =
     (if v < 0x80 then [ucast v]
      else if v < 0x4000 then [ucast (v OR 128), ucast (drop_bit 7 v)]
      else if v < 0x200000
      then [ucast (v OR 128), ucast (drop_bit 7 v OR 128), ucast (drop_bit 14 v)]
      else if v < 0x10000000
      then [ucast (v OR 128), ucast (drop_bit 7 v OR 128), ucast (drop_bit 14 v OR 128),
            ucast (drop_bit 21 v)]
      else [ucast (v OR 128), ucast (drop_bit 7 v OR 128), ucast (drop_bit 14 v OR 128),
            ucast (drop_bit 21 v OR 128), ucast (drop_bit 28 v)])"

definition PutVarint32 :: "bytes \<Rightarrow> u32 \<Rightarrow> bytes" where
  "PutVarint32 dst v = dst @ EncodeVarint32 v"

function EncodeVarint64 :: "u64 \<Rightarrow> bytes" where
  "EncodeVarint64 v =
     (if 128 \<le> v then ucast (v OR 128) # EncodeVarint64 (drop_bit 7 v) else [ucast v])"
  by auto
termination
  by (relation "measure unat") (auto simp: drop_bit_eq_div unat_div word_le_nat_alt)

definition PutVarint64 :: "bytes \<Rightarrow> u64 \<Rightarrow> bytes" where
  "PutVarint64 dst v = dst @ EncodeVarint64 v"

function VarintLength :: "u64 \<Rightarrow> nat" where
  "VarintLength v = (if 128 \<le> v then Suc (VarintLength (drop_bit 7 v)) else 1)"
  by auto
termination
  by (relation "measure unat") (auto simp: drop_bit_eq_div unat_div word_le_nat_alt)

declare EncodeVarint64.simps [simp del] VarintLength.simps [simp del]

text \<open>The loop of the two decoders: \<open>bound\<close> is the last shift it allows.\<close>

fun varint_ptr_loop :: "nat \<Rightarrow> nat \<Rightarrow> 'a::len word \<Rightarrow> bytes \<Rightarrow> ('a word \<times> bytes) option" where
  "varint_ptr_loop bound shift result [] = None"
| "varint_ptr_loop bound shift result (b # p) =
     (if bound < shift then None
      else if ucast b AND (128 :: 'a word) \<noteq> 0
      then varint_ptr_loop bound (shift + 7) (result OR push_bit shift (ucast b AND 127)) p
      else Some (result OR push_bit shift (ucast b), p))"

definition GetVarint32PtrFallback :: "bytes \<Rightarrow> (u32 \<times> bytes) option" where
  "GetVarint32PtrFallback p = varint_ptr_loop 28 0 0 p"

definition GetVarint32Ptr :: "bytes \<Rightarrow> (u32 \<times> bytes) option" where
  "GetVarint32Ptr p =
     (case p of
        [] \<Rightarrow> GetVarint32PtrFallback p
      | b # q \<Rightarrow> if ucast b AND (128 :: u32) = 0 then Some (ucast b, q) else GetVarint32PtrFallback p)"

definition GetVarint64Ptr :: "bytes \<Rightarrow> (u64 \<times> bytes) option" where
  "GetVarint64Ptr p = varint_ptr_loop 63 0 0 p"

definition GetVarint32 :: "bytes \<Rightarrow> (u32 \<times> bytes) option" where
  "GetVarint32 input = GetVarint32Ptr input"

definition GetVarint64 :: "bytes \<Rightarrow> (u64 \<times> bytes) option" where
  "GetVarint64 input = GetVarint64Ptr input"

section \<open>Length-prefixed slices\<close>

definition PutLengthPrefixedSlice :: "bytes \<Rightarrow> bytes \<Rightarrow> bytes" where
  "PutLengthPrefixedSlice dst v = PutVarint32 dst (of_nat (length v)) @ v"

text \<open>The slice and the input after it.\<close>

definition GetLengthPrefixedSlice :: "bytes \<Rightarrow> (bytes \<times> bytes) option" where
  "GetLengthPrefixedSlice input =
     (case GetVarint32 input of
        None \<Rightarrow> None
      | Some (len, input') \<Rightarrow>
          if unat len \<le> length input'
          then Some (take (unat len) input', drop (unat len) input') else None)"

section \<open>What is decoded is what was encoded\<close>

lemma length_fixed [coding_simps, simp]: "length (EncodeFixed32 v) = 4" "length (EncodeFixed64 w) = 8"
  by (simp_all add: EncodeFixed32_def EncodeFixed64_def)

lemma DecodeFixed32_Encode [coding_simps, simp]: "DecodeFixed32 (EncodeFixed32 v @ rest) = v"
  using byte_slice [of 0 v] byte_slice [of 8 v] byte_slice [of 16 v] byte_slice [of 24 v]
    push_join_8 [of 0 v] push_join_8 [of 8 v] push_join_8 [of 16 v] last_byte_slice [of 24 v]
  by (simp add: EncodeFixed32_def DecodeFixed32_def)

lemma EncodeFixed64_split:
  "EncodeFixed64 v = EncodeFixed32 (ucast v) @ EncodeFixed32 (ucast (drop_bit 32 v))"
  unfolding EncodeFixed64_def EncodeFixed32_def and_FF
  by simp (intro conjI; rule bit_word_eqI; auto simp: bit_simps)

lemma DecodeFixed64_Encode [coding_simps, simp]: "DecodeFixed64 (EncodeFixed64 v @ rest) = v"
proof -
  have "push_bit 32 (ucast (ucast (drop_bit 32 v) :: u32)) OR ucast (ucast v :: u32) = v" for v :: u64
  proof (rule bit_word_eqI)
    fix n assume "n < LENGTH(64)"
    then show "bit (push_bit 32 (ucast (ucast (drop_bit 32 v) :: u32)) OR ucast (ucast v :: u32) :: u64) n = bit v n"
      by (cases "n < 32") (auto simp: bit_simps)
  qed
  then show ?thesis by (simp add: DecodeFixed64_def EncodeFixed64_split)
qed

lemmas DecodeFixed_Encode_0 [coding_simps, simp] =
  DecodeFixed32_Encode [where rest = "[]", simplified] DecodeFixed64_Encode [where rest = "[]", simplified]

lemma byte_eqI: "(\<And>n. n < 8 \<Longrightarrow> bit x n = bit y n) \<Longrightarrow> x = (y :: u8)"
  by (rule bit_word_eqI) simp

lemma cont_byte_or:
  "ucast ((v :: u64) OR 128) = (ucast ((v AND 0x7F) OR 0x80) :: u8)"
  unfolding and_7F by (rule byte_eqI) (auto simp: bit_simps bit_0x80 bit_0x80_int)

lemma EncodeVarint64_varint: "EncodeVarint64 v = varint_bytes v"
proof (induction v rule: EncodeVarint64.induct)
  case (1 v)
  have c: "128 \<le> v \<longleftrightarrow> \<not> v \<le> 0x7F" by (simp add: word_le_nat_alt) linarith
  show ?case
  proof (cases "v \<le> 0x7F")
    case True
    then show ?thesis unfolding EncodeVarint64.simps [of v] varint_bytes.simps [of v] c by (simp only: if_True not_True_eq_False if_False)
  next
    case False
    then show ?thesis using 1
      unfolding EncodeVarint64.simps [of v] varint_bytes.simps [of v] c cont_byte_or [of v]
      by (simp only: if_False not_False_eq_True if_True simp_thms)
  qed
qed

lemma VarintLength_Encode [coding_simps]: "VarintLength v = length (EncodeVarint64 v)"
proof (induction v rule: EncodeVarint64.induct)
  case (1 v)
  then show ?case unfolding EncodeVarint64.simps [of v] VarintLength.simps [of v] by auto
qed
text \<open>The masks the loop tests and takes, on a byte of a varint.\<close>

lemma and_128: "(x :: 'a::len word) AND 128 = 0 \<longleftrightarrow> \<not> bit x 7"
proof -
  have "(128 :: 'a word) = 2 ^ 7" by simp
  then show ?thesis by (simp only: and_exp_eq_0_iff_not_bit)
qed

lemma and_127: "(x :: 'a::len word) AND 127 = take_bit 7 x"
  using and_7F [of x] by simp

lemma loop_byte_more:
  fixes v :: u64
  assumes "8 \<le> LENGTH('a::len)"
  defines "b \<equiv> ucast ((v AND 0x7F) OR 0x80) :: u8"
  shows "(ucast b :: 'a word) AND 128 \<noteq> 0" "(ucast b :: 'a word) AND 127 = take_bit 7 (ucast v)"
proof -
  show "(ucast b :: 'a word) AND 128 \<noteq> 0"
    using assms(1) unfolding and_128 b_def and_7F by (simp add: bit_simps bit_0x80)
  show "(ucast b :: 'a word) AND 127 = take_bit 7 (ucast v)"
    unfolding and_127 b_def and_7F by (rule bit_word_eqI) (auto simp: bit_simps bit_0x80 bit_0x80_int)
qed

lemma loop_byte_last:
  fixes v :: u64
  assumes "v \<le> 0x7F"
  shows "(ucast (ucast v :: u8) :: 'a::len word) AND 128 = 0" "(ucast (ucast v :: u8) :: 'a word) = ucast v"
proof -
  have v: "v = take_bit 7 v" using assms by (intro take_bit_small [symmetric]) (simp add: word_le_nat_alt)
  show "(ucast (ucast v :: u8) :: 'a word) AND 128 = 0"
    unfolding and_128 by (subst v) (simp add: bit_simps)
  show "(ucast (ucast v :: u8) :: 'a word) = ucast v"
    by (subst (1 2) v) (rule bit_word_eqI, auto simp: bit_simps)
qed

lemma varint_ptr_loop_bytes:
  assumes "8 \<le> LENGTH('a::len)" "LENGTH('a) \<le> bound + 7"
  shows "unat v * 2 ^ k < 2 ^ LENGTH('a) \<Longrightarrow> k \<le> bound \<Longrightarrow> 7 dvd k \<Longrightarrow> 7 dvd bound \<Longrightarrow>
    varint_ptr_loop bound k r (varint_bytes v @ rest) = Some (r OR push_bit k (ucast v :: 'a word), rest)"
proof (induction v arbitrary: k r rule: varint_bytes.induct)
  case (1 v)
  show ?case
  proof (cases "v \<le> 0x7F")
    case True
    note l = loop_byte_last [OF True, where 'a = 'a]
    have "varint_bytes v @ rest = ucast v # rest" using True by (simp add: varint_bytes.simps [of v])
    with "1.prems"(2) show ?thesis by (simp only: varint_ptr_loop.simps l(2) l(1) [unfolded l(2)] not_le if_False simp_thms leD)
  next
    case False
    have vb: "varint_bytes v = ucast ((v AND 0x7F) OR 0x80) # varint_bytes (drop_bit 7 v)"
      using False by (simp add: varint_bytes.simps [of v])
    have "128 \<le> unat v" using False by (simp add: word_le_nat_alt)
    then have "128 * 2 ^ k < (2 :: nat) ^ LENGTH('a)" using "1.prems"(1) by (meson mult_le_mono1 le_less_trans)
    then have "(2 :: nat) ^ (k + 7) < 2 ^ LENGTH('a)" by (simp add: power_add)
    then have "k + 7 < LENGTH('a)" using power_less_imp_less_exp one_less_numeral_iff semiring_norm(76) by blast
    then have "k < bound" using assms(2) by simp
    then have k: "k + 7 \<le> bound" using "1.prems"(3,4) by (auto elim!: dvdE)
    have "unat (drop_bit 7 v) * 2 ^ (k + 7) = (unat v div 2 ^ 7 * 2 ^ 7) * 2 ^ k"
      by (simp add: drop_bit_eq_div unat_div power_add)
    also have "\<dots> \<le> unat v * 2 ^ k" by (intro mult_le_mono1) (rule div_times_less_eq_dividend)
    finally have small: "unat (drop_bit 7 v) * 2 ^ (k + 7) < 2 ^ LENGTH('a)" using "1.prems"(1) by simp
    have j: "push_bit k (take_bit 7 (ucast v)) OR push_bit (k + 7) (ucast (drop_bit 7 v)) = (push_bit k (ucast v) :: 'a word)"
    proof (rule bit_word_eqI)
      fix n assume n: "n < LENGTH('a)"
      show "bit (push_bit k (take_bit 7 (ucast v)) OR push_bit (k + 7) (ucast (drop_bit 7 v)) :: 'a word) n =
          bit (push_bit k (ucast v) :: 'a word) n"
        using n by (cases "n < k + 7") (auto simp: bit_simps)
    qed
    have "varint_ptr_loop bound k r (varint_bytes v @ rest) =
        varint_ptr_loop bound (k + 7) (r OR push_bit k (take_bit 7 (ucast v))) (varint_bytes (drop_bit 7 v) @ rest)"
      using "1.prems"(2) loop_byte_more [OF assms(1), of v] by (simp add: vb)
    also have "\<dots> = Some ((r OR push_bit k (take_bit 7 (ucast v))) OR push_bit (k + 7) (ucast (drop_bit 7 v)), rest)"
      using k "1.prems"(3,4) by (intro "1.IH" [OF False small]) auto
    finally show ?thesis by (simp only: or.assoc j)
  qed
qed

lemma varint_bytes_u32:
  "varint_bytes (ucast (v :: u32)) =
     (if v < 0x80 then [ucast v] else ucast (v OR 128) # varint_bytes (ucast (drop_bit 7 v)))"
proof -
  have le: "(ucast v :: u64) \<le> 0x7F \<longleftrightarrow> v < 0x80"
    by (simp add: word_le_nat_alt word_less_nat_alt unat_ucast_up) linarith
  have d: "drop_bit 7 (ucast v :: u64) = ucast (drop_bit 7 v)"
    by (rule bit_word_eqI) (auto simp: bit_simps dest: bit_imp_le_length)
  have o: "ucast (((ucast v :: u64) AND 0x7F) OR 0x80) = (ucast (v OR 128) :: u8)"
    unfolding and_7F by (rule byte_eqI) (auto simp: bit_simps bit_0x80 bit_0x80_int)
  have u: "(ucast (ucast v :: u64) :: u8) = ucast v"
    by (rule byte_eqI) (simp add: bit_simps)
  show ?thesis unfolding varint_bytes.simps [of "ucast v"] le d o u ..
qed

lemma drop_bit_less: "drop_bit k (v :: u32) < w \<longleftrightarrow> unat v div 2 ^ k < unat w"
  using take_bit_nat_eq_self [OF unat_u32_lt, of v] unfolding word_less_nat_alt
  by (simp add: unsigned_drop_bit_eq flip: drop_bit_eq_div)

lemma EncodeVarint32_varint: "EncodeVarint32 v = varint_bytes (ucast v)"
proof -
  have l: "v < w \<longleftrightarrow> unat v < unat w" for w by (simp add: word_less_nat_alt)
  have c: "drop_bit 7 v < 0x80 \<longleftrightarrow> v < 0x4000" "drop_bit 14 v < 0x80 \<longleftrightarrow> v < 0x200000"
    "drop_bit 21 v < 0x80 \<longleftrightarrow> v < 0x10000000" "drop_bit 28 v < 0x80"
    unfolding drop_bit_less l using unat_u32_lt [of v] by auto
  have d: "drop_bit 7 (drop_bit 7 v) = drop_bit 14 v" "drop_bit 7 (drop_bit 14 v) = drop_bit 21 v"
    "drop_bit 7 (drop_bit 21 v) = drop_bit 28 v"
    by simp_all
  have m: "v < 0x80 \<Longrightarrow> v < 0x4000" "v < 0x4000 \<Longrightarrow> v < 0x200000" "v < 0x200000 \<Longrightarrow> v < 0x10000000"
    unfolding l by auto
  show ?thesis
    unfolding varint_bytes_u32 [of v] varint_bytes_u32 [of "drop_bit 7 v"] varint_bytes_u32 [of "drop_bit 14 v"]
      varint_bytes_u32 [of "drop_bit 21 v"] varint_bytes_u32 [of "drop_bit 28 v"] d c EncodeVarint32_def
    using c(4) by (simp split: if_splits)
qed

lemma GetVarint64_Encode [coding_simps, simp]: "GetVarint64 (EncodeVarint64 v @ rest) = Some (v, rest)"
  using varint_ptr_loop_bytes [where 'a = 64, of 63 v 0 0 rest] unat_u64_lt [of v]
  by (simp add: GetVarint64_def GetVarint64Ptr_def EncodeVarint64_varint)

lemma GetVarint32Ptr_fallback: "GetVarint32Ptr p = GetVarint32PtrFallback p"
  by (simp add: GetVarint32Ptr_def GetVarint32PtrFallback_def split: list.splits)

lemma ucast_u32_u64: "(ucast (ucast (v :: u32) :: u64) :: u32) = v"
  by (rule bit_word_eqI) (simp add: bit_simps)

lemma GetVarint32_Encode [coding_simps, simp]: "GetVarint32 (EncodeVarint32 v @ rest) = Some (v, rest)"
  using varint_ptr_loop_bytes [where 'a = 32, of 28 "ucast v" 0 0 rest] unat_u32_lt [of v]
  by (simp add: GetVarint32_def GetVarint32Ptr_fallback GetVarint32PtrFallback_def EncodeVarint32_varint
      unat_ucast_up ucast_u32_u64)

lemma GetLengthPrefixedSlice_Put [coding_simps, simp]:
  assumes "length v < 2 ^ 32"
  shows "GetLengthPrefixedSlice (PutLengthPrefixedSlice [] v @ rest) = Some (v, rest)"
  using assms
  by (simp add: GetLengthPrefixedSlice_def PutLengthPrefixedSlice_def PutVarint32_def unat_u32_of_nat)

end
