(* ===== verification/Ldb_Keys.thy ===== *)
theory Ldb_Keys
  imports Ldb_Coding Key_Order
begin

text \<open>
  The order of LevelDB's keys: comparators (\<^verbatim>\<open>util/comparator.cc\<close>), the internal keys that carry a sequence number
  and a type behind the user's key, and their order (\<^verbatim>\<open>db/dbformat.cc\<close>, \<^verbatim>\<open>db/dbformat.h\<close>). The locale \<open>comparator\<close> is
  the contract of \<^verbatim>\<open>include/leveldb/comparator.h\<close>.
\<close>

section \<open>Slices\<close>

text \<open>\<open>memcmp\<close> of two ranges of the same length.\<close>

fun memcmp :: "bytes \<Rightarrow> bytes \<Rightarrow> int" where
  "memcmp (x # xs) (y # ys) = (if x = y then memcmp xs ys else uint x - uint y)"
| "memcmp _ _ = 0"

definition Slice_compare :: "bytes \<Rightarrow> bytes \<Rightarrow> int" where
  "Slice_compare a b =
     (let min_len = (if length a < length b then length a else length b);
          r = memcmp (take min_len a) (take min_len b)
      in if r = 0 then if length a < length b then - 1 else if length b < length a then 1 else r else r)"

section \<open>Comparators\<close>

record comparator_ops =
  Compare :: "bytes \<Rightarrow> bytes \<Rightarrow> int"
  FindShortestSeparator :: "bytes \<Rightarrow> bytes \<Rightarrow> bytes"
  FindShortSuccessor :: "bytes \<Rightarrow> bytes"

text \<open>
  A total order, a separator in \<open>[start, limit)\<close>, a successor that is not smaller. The internal comparator also needs that
  a separator of two equal keys is not greater than them, which the interface does not say.
\<close>

locale comparator = key_order "Compare c" for c :: comparator_ops +
  assumes separator_le: "Compare c a l < 0 \<Longrightarrow> Compare c a (FindShortestSeparator c a l) \<le> 0"
    and separator_less: "Compare c a l < 0 \<Longrightarrow> Compare c (FindShortestSeparator c a l) l < 0"
    and separator_equal: "Compare c a l = 0 \<Longrightarrow> Compare c (FindShortestSeparator c a l) a \<le> 0"
    and successor_le: "Compare c a (FindShortSuccessor c a) \<le> 0"

section \<open>The bytewise comparator\<close>

fun common_prefix :: "bytes \<Rightarrow> bytes \<Rightarrow> nat" where
  "common_prefix (x # xs) (y # ys) = (if x = y then Suc (common_prefix xs ys) else 0)"
| "common_prefix _ _ = 0"

definition bytewise_separator :: "bytes \<Rightarrow> bytes \<Rightarrow> bytes" where
  "bytewise_separator start limit =
     (let min_length = min (length start) (length limit);
          diff_index = common_prefix start limit
      in if min_length \<le> diff_index then start
         else let diff_byte = start ! diff_index
              in if diff_byte < 0xff \<and> uint diff_byte + 1 < uint (limit ! diff_index)
                 then take (diff_index + 1) (start[diff_index := diff_byte + 1]) else start)"

fun bytewise_successor :: "bytes \<Rightarrow> bytes" where
  "bytewise_successor [] = []"
| "bytewise_successor (b # key) = (if b \<noteq> 0xff then [b + 1] else b # bytewise_successor key)"

definition BytewiseComparator :: comparator_ops where
  "BytewiseComparator =
     \<lparr>Compare = Slice_compare, FindShortestSeparator = bytewise_separator, FindShortSuccessor = bytewise_successor\<rparr>"

lemma Slice_compare_Nil [simp]:
  "Slice_compare [] b = (if b = [] then 0 else - 1)" "Slice_compare a [] = (if a = [] then 0 else 1)"
  by (auto simp: Slice_compare_def)

lemma Slice_compare_Cons [simp]:
  "Slice_compare (x # a) (y # b) = (if x = y then Slice_compare a b else uint x - uint y)"
  by (simp add: Slice_compare_def Let_def word_uint_eq_iff)

lemma bytewise_separator_Cons:
  "bytewise_separator (x # a) (y # l) =
     (if x = y then x # bytewise_separator a l
      else if x < 0xff \<and> uint x + 1 < uint y then [x + 1] else x # a)"
  by (auto simp: bytewise_separator_def Let_def)

lemma bytewise_separator_Nil [simp]: "bytewise_separator [] l = []" "bytewise_separator a [] = a"
  by (simp_all add: bytewise_separator_def)

lemma uint_inc: "x < 0xff \<Longrightarrow> uint (x + 1 :: u8) = uint x + 1"
  by (simp add: uint_plus_if' word_less_def)

lemma Slice_compare_sym: "Slice_compare a b = - Slice_compare b a"
proof (induction a arbitrary: b)
  case (Cons x a)
  then show ?case by (cases b) (auto simp: word_uint_eq_iff)
qed simp

lemma Slice_compare_eq: "Slice_compare a b = 0 \<longleftrightarrow> a = b"
proof (induction a arbitrary: b)
  case (Cons x a)
  then show ?case by (cases b) (auto simp: word_uint_eq_iff)
qed simp

lemma Slice_compare_refl [simp]: "Slice_compare a a = 0"
  by (simp add: Slice_compare_eq)

lemma Slice_compare_trans: "Slice_compare a b \<le> 0 \<Longrightarrow> Slice_compare b d \<le> 0 \<Longrightarrow> Slice_compare a d \<le> 0"
proof (induction a arbitrary: b d)
  case (Cons x a)
  then obtain y b' where b: "b = y # b'" by (cases b) auto
  with Cons.prems obtain z d' where d: "d = z # d'" by (cases d) auto
  show ?case using Cons.prems Cons.IH [of b' d'] by (auto simp: b d word_uint_eq_iff split: if_splits)
qed simp

lemma bytewise_separator_between:
  "Slice_compare a l < 0 \<Longrightarrow> Slice_compare a (bytewise_separator a l) \<le> 0 \<and> Slice_compare (bytewise_separator a l) l < 0"
proof (induction a arbitrary: l)
  case (Cons x a)
  then obtain y l' where l: "l = y # l'" by (cases l) auto
  show ?case
  proof (cases "x = y")
    case True
    then show ?thesis using Cons by (simp add: l bytewise_separator_Cons)
  next
    case False
    then have "uint x < uint y" using Cons.prems by (simp add: l)
    then show ?thesis
      using False uint_inc [of x] Slice_compare_eq [of a a]
      by (auto simp: l bytewise_separator_Cons word_uint_eq_iff)
  qed
qed simp

lemma bytewise_separator_same: "bytewise_separator a a = a"
  by (induction a) (simp_all add: bytewise_separator_Cons)

lemma bytewise_successor_le: "Slice_compare a (bytewise_successor a) \<le> 0"
proof (induction a)
  case (Cons x a)
  show ?case
  proof (cases "x = 0xff")
    case False
    have "uint x < 256" by (rule uint_u8_lt)
    moreover have "uint x \<noteq> 255" using False by (simp add: word_uint_eq_iff)
    ultimately have "uint x < 255" by linarith
    then have "x < 0xff" by (simp add: word_less_def)
    then show ?thesis using False uint_inc [of x] by simp
  qed (use Cons in simp)
qed simp

interpretation bytewise: comparator BytewiseComparator
proof (unfold_locales, unfold BytewiseComparator_def comparator_ops.simps, goal_cases)
  case (1 a b)
  show ?case using Slice_compare_sym [of a b] by linarith
next
  case (2 a b d)
  then show ?case by (rule Slice_compare_trans)
next
  case (3 a l)
  then show ?case using bytewise_separator_between by blast
next
  case (4 a l)
  then show ?case using bytewise_separator_between by blast
next
  case (5 a l)
  then show ?case by (simp add: Slice_compare_eq bytewise_separator_same)
next
  case (6 a)
  show ?case by (rule bytewise_successor_le)
qed

section \<open>Internal keys\<close>

type_synonym value_type = u8

definition kTypeDeletion :: value_type where "kTypeDeletion = 0"
definition kTypeValue :: value_type where "kTypeValue = 1"
definition kValueTypeForSeek :: value_type where "kValueTypeForSeek = kTypeValue"
definition kMaxSequenceNumber :: u64 where "kMaxSequenceNumber = push_bit 56 1 - 1"

record parsed_internal_key =
  user_key :: bytes
  sequence_number :: u64
  key_type :: value_type

definition PackSequenceAndType :: "u64 \<Rightarrow> value_type \<Rightarrow> u64" where
  "PackSequenceAndType seq t = push_bit 8 seq OR ucast t"

definition InternalKeyEncodingLength :: "parsed_internal_key \<Rightarrow> nat" where
  "InternalKeyEncodingLength key = length (user_key key) + 8"

definition AppendInternalKey :: "bytes \<Rightarrow> parsed_internal_key \<Rightarrow> bytes" where
  "AppendInternalKey result key =
     PutFixed64 (result @ user_key key) (PackSequenceAndType (sequence_number key) (key_type key))"

definition ExtractUserKey :: "bytes \<Rightarrow> bytes" where
  "ExtractUserKey internal_key = take (length internal_key - 8) internal_key"

text \<open>The status and, if it was filled in, the result.\<close>

definition ParseInternalKey :: "bytes \<Rightarrow> bool \<times> parsed_internal_key option" where
  "ParseInternalKey internal_key =
     (let n = length internal_key
      in if n < 8 then (False, None)
         else let num = DecodeFixed64 (drop (n - 8) internal_key); c = ucast (num AND 0xff) :: u8
              in (c \<le> kTypeValue,
                  Some \<lparr>user_key = take (n - 8) internal_key, sequence_number = drop_bit 8 num, key_type = c\<rparr>))"

definition internal_tag :: "bytes \<Rightarrow> u64" where
  "internal_tag key = DecodeFixed64 (drop (length key - 8) key)"

definition internal_compare :: "comparator_ops \<Rightarrow> bytes \<Rightarrow> bytes \<Rightarrow> int" where
  "internal_compare user akey bkey =
     (let r = Compare user (ExtractUserKey akey) (ExtractUserKey bkey)
      in if r = 0
         then let anum = internal_tag akey; bnum = internal_tag bkey
              in if anum > bnum then - 1 else if anum < bnum then 1 else r
         else r)"

definition internal_separator :: "comparator_ops \<Rightarrow> bytes \<Rightarrow> bytes \<Rightarrow> bytes" where
  "internal_separator user start limit =
     (let user_start = ExtractUserKey start; user_limit = ExtractUserKey limit;
          tmp = FindShortestSeparator user user_start user_limit
      in if length tmp < length user_start \<and> Compare user user_start tmp < 0
         then PutFixed64 tmp (PackSequenceAndType kMaxSequenceNumber kValueTypeForSeek)
         else start)"

definition internal_successor :: "comparator_ops \<Rightarrow> bytes \<Rightarrow> bytes" where
  "internal_successor user key =
     (let user_key = ExtractUserKey key; tmp = FindShortSuccessor user user_key
      in if length tmp < length user_key \<and> Compare user user_key tmp < 0
         then PutFixed64 tmp (PackSequenceAndType kMaxSequenceNumber kValueTypeForSeek)
         else key)"

definition InternalKeyComparator :: "comparator_ops \<Rightarrow> comparator_ops" where
  "InternalKeyComparator user =
     \<lparr>Compare = internal_compare user, FindShortestSeparator = internal_separator user,
      FindShortSuccessor = internal_successor user\<rparr>"

text \<open>\<^verbatim>\<open>LookupKey\<close>: the buffer and where the internal key starts in it.\<close>

record lookup_key =
  lookup_bytes :: bytes
  kstart :: nat

definition LookupKey :: "bytes \<Rightarrow> u64 \<Rightarrow> lookup_key" where
  "LookupKey ukey s =
     (let prefix = EncodeVarint32 (of_nat (length ukey) + 8)
      in \<lparr>lookup_bytes = prefix @ ukey @ EncodeFixed64 (PackSequenceAndType s kValueTypeForSeek), kstart = length prefix\<rparr>)"

definition memtable_key :: "lookup_key \<Rightarrow> bytes" where
  "memtable_key k = lookup_bytes k"

definition internal_key :: "lookup_key \<Rightarrow> bytes" where
  "internal_key k = drop (kstart k) (lookup_bytes k)"

definition lookup_user_key :: "lookup_key \<Rightarrow> bytes" where
  "lookup_user_key k = ExtractUserKey (internal_key k)"
section \<open>Internal keys have the order the interface promises\<close>

lemma length_PutFixed64 [simp]: "length (PutFixed64 s v) = length s + 8"
  by (simp add: PutFixed64_def length_fixed)

lemma ExtractUserKey_Put [simp]: "ExtractUserKey (PutFixed64 s v) = s"
  by (simp add: ExtractUserKey_def PutFixed64_def length_fixed)

lemma internal_tag_Put [simp]: "internal_tag (PutFixed64 s v) = v"
  by (simp add: internal_tag_def PutFixed64_def length_fixed DecodeFixed64_Encode)

definition tag_order :: "bytes \<Rightarrow> bytes \<Rightarrow> int" where
  "tag_order a b = (if internal_tag b < internal_tag a then - 1 else if internal_tag a < internal_tag b then 1 else 0)"

lemma internal_compare_tags:
  "internal_compare user a b =
     (let r = Compare user (ExtractUserKey a) (ExtractUserKey b) in if r = 0 then tag_order a b else r)"
  by (simp add: internal_compare_def tag_order_def Let_def)

context comparator
begin

lemma internal_compare_sym: "0 < internal_compare c a b \<longleftrightarrow> internal_compare c b a < 0"
  using compare_sym [of "ExtractUserKey a" "ExtractUserKey b"] compare_zero_sym [of "ExtractUserKey a" "ExtractUserKey b"]
  by (auto simp: internal_compare_tags tag_order_def Let_def)

lemma internal_compare_cases:
  "internal_compare c a b \<le> 0 \<longleftrightarrow>
     Compare c (ExtractUserKey a) (ExtractUserKey b) < 0
     \<or> Compare c (ExtractUserKey a) (ExtractUserKey b) = 0 \<and> internal_tag b \<le> internal_tag a"
  by (auto simp: internal_compare_tags tag_order_def Let_def)

lemma internal_compare_trans:
  "internal_compare c a b \<le> 0 \<Longrightarrow> internal_compare c b d \<le> 0 \<Longrightarrow> internal_compare c a d \<le> 0"
  using compare_less_le_trans [of "ExtractUserKey a" "ExtractUserKey b" "ExtractUserKey d"]
    compare_le_less_trans [of "ExtractUserKey a" "ExtractUserKey b" "ExtractUserKey d"]
    compare_zero_trans [of "ExtractUserKey a" "ExtractUserKey b" "ExtractUserKey d"]
  unfolding internal_compare_cases by fastforce

lemma internal_separator_cases:
  assumes "internal_separator c a l \<noteq> a"
  obtains tmp where "tmp = FindShortestSeparator c (ExtractUserKey a) (ExtractUserKey l)"
    "Compare c (ExtractUserKey a) tmp < 0"
    "internal_separator c a l = PutFixed64 tmp (PackSequenceAndType kMaxSequenceNumber kValueTypeForSeek)"
  using assms by (auto simp: internal_separator_def Let_def split: if_splits)

lemma internal_compare_user: "Compare c (ExtractUserKey a) (ExtractUserKey b) < 0 \<Longrightarrow> internal_compare c a b < 0"
  by (simp add: internal_compare_tags)

lemma internal_compare_less_user: "internal_compare c a b < 0 \<Longrightarrow> Compare c (ExtractUserKey a) (ExtractUserKey b) \<le> 0"
  by (simp add: internal_compare_tags Let_def split: if_splits)

lemma internal_compare_refl: "internal_compare c a a = 0"
  using internal_compare_sym [of a a] by linarith

text \<open>A shortened key lies strictly above the key it replaces and, when there is one, strictly below the limit.\<close>

lemma internal_separator_moves:
  assumes "internal_separator c a l \<noteq> a" and "internal_compare c a l \<le> 0"
  shows "internal_compare c a (internal_separator c a l) < 0" and "internal_compare c (internal_separator c a l) l < 0"
proof -
  from assms(1) obtain tmp where tmp: "tmp = FindShortestSeparator c (ExtractUserKey a) (ExtractUserKey l)"
    "Compare c (ExtractUserKey a) tmp < 0"
    "internal_separator c a l = PutFixed64 tmp (PackSequenceAndType kMaxSequenceNumber kValueTypeForSeek)"
    by (rule internal_separator_cases)
  show "internal_compare c a (internal_separator c a l) < 0"
    using tmp(2) by (simp add: tmp(3) internal_compare_user)
  have "Compare c (ExtractUserKey a) (ExtractUserKey l) \<noteq> 0"
    using separator_equal [of "ExtractUserKey a" "ExtractUserKey l"] tmp(2) compare_sym [of tmp "ExtractUserKey a"]
    by (auto simp: tmp(1) [symmetric])
  then have "Compare c (ExtractUserKey a) (ExtractUserKey l) < 0"
    using assms(2) by (simp add: internal_compare_cases)
  then show "internal_compare c (internal_separator c a l) l < 0"
    using separator_less by (simp add: tmp(1, 3) internal_compare_user)
qed

lemma internal_successor_le: "internal_compare c a (internal_successor c a) \<le> 0"
proof (cases "internal_successor c a = a")
  case False
  then obtain tmp where "Compare c (ExtractUserKey a) tmp < 0"
    "internal_successor c a = PutFixed64 tmp (PackSequenceAndType kMaxSequenceNumber kValueTypeForSeek)"
    by (auto simp: internal_successor_def Let_def split: if_splits)
  then show ?thesis using internal_compare_user [of a "internal_successor c a"] by simp
qed (simp add: internal_compare_refl)

lemma internal_comparator: "comparator (InternalKeyComparator c)"
proof (unfold_locales, unfold InternalKeyComparator_def comparator_ops.simps, goal_cases)
  case (1 a b)
  show ?case by (rule internal_compare_sym)
next
  case (2 a b d)
  then show ?case by (rule internal_compare_trans)
next
  case (3 a l)
  then show ?case
    using internal_separator_moves(1) [of a l] by (cases "internal_separator c a l = a") (auto simp: internal_compare_refl)
next
  case (4 a l)
  then show ?case
    using internal_separator_moves(2) [of a l] by (cases "internal_separator c a l = a") auto
next
  case (5 a l)
  have "internal_separator c a l = a"
  proof (rule ccontr)
    assume ne: "internal_separator c a l \<noteq> a"
    from 5 have "internal_compare c l a = 0" using internal_compare_sym [of a l] internal_compare_sym [of l a] by linarith
    then show False
      using internal_separator_moves [OF ne] 5 internal_compare_trans [of l a "internal_separator c a l"]
        internal_compare_sym [of l "internal_separator c a l"] internal_compare_sym [of "internal_separator c a l" l]
        internal_compare_trans [of "internal_separator c a l" l a] internal_compare_sym [of "internal_separator c a l" a]
      by linarith
  qed
  then show ?case by (simp add: internal_compare_refl)
next
  case (6 a)
  show ?case by (rule internal_successor_le)
qed

end


interpretation internal_bytewise: comparator "InternalKeyComparator BytewiseComparator"
  by (rule bytewise.internal_comparator)

section \<open>Round trips\<close>

lemma Pack_parts:
  assumes "s \<le> kMaxSequenceNumber"
  shows "ucast (PackSequenceAndType s t AND 0xff) = t" and "drop_bit 8 (PackSequenceAndType s t) = s"
proof -
  have small: "\<And>n. 56 \<le> n \<Longrightarrow> \<not> bit s n"
  proof -
    fix n assume n: "56 \<le> (n::nat)"
    have "s < push_bit 56 1" using assms by (simp add: kMaxSequenceNumber_def word_le_def word_less_def)
    then have "uint s < 2 ^ 56" by (simp add: word_less_def)
    then have "take_bit 56 (uint s) = uint s" by (simp add: take_bit_int_eq_self)
    then have "\<not> bit (uint s) n" using n by (metis bit_take_bit_iff linorder_not_less)
    then show "\<not> bit s n" by (auto simp: bit_uint_iff dest: bit_imp_le_length)
  qed
  show "ucast (PackSequenceAndType s t AND 0xff) = t"
    by (rule bit_word_eqI) (auto simp: PackSequenceAndType_def bit_simps and_FF)
  show "drop_bit 8 (PackSequenceAndType s t) = s"
  proof (rule bit_word_eqI)
    fix n assume n: "n < LENGTH(64)"
    show "bit (drop_bit 8 (PackSequenceAndType s t)) n = bit s n"
      using small [of n] by (cases "n < 56") (auto simp: PackSequenceAndType_def bit_simps dest: bit_imp_le_length)
  qed
qed
lemma uint_Pack:
  assumes "s \<le> kMaxSequenceNumber"
  shows "unat (PackSequenceAndType s t) = unat s * 256 + unat t"
proof -
  have s: "unat s < 2 ^ 56"
    using assms by (simp add: kMaxSequenceNumber_def word_le_nat_alt)
  have "PackSequenceAndType s t = push_bit 8 s + ucast t"
    unfolding PackSequenceAndType_def
    by (rule disjunctive_add_eq_or [symmetric], rule bit_word_eqI) (auto simp: bit_simps dest: bit_imp_le_length)
  then have "unat (PackSequenceAndType s t) = (unat s * 256 + unat t) mod 2 ^ 64"
    by (simp add: unat_word_ariths push_bit_eq_mult unat_ucast_up mod_add_left_eq mod_mult_left_eq)
  also have "\<dots> = unat s * 256 + unat t"
  proof (rule mod_less)
    have "unat t < 256" by (rule unat_u8_lt)
    moreover have "(2::nat) ^ 64 = 2 ^ 56 * 256" by simp
    ultimately show "unat s * 256 + unat t < 2 ^ 64" using s by linarith
  qed
  finally show ?thesis .
qed

lemma ParseInternalKey_Append:
  assumes "sequence_number k \<le> kMaxSequenceNumber" and "key_type k \<le> kTypeValue"
  shows "ParseInternalKey (AppendInternalKey [] k) = (True, Some k)"
  using assms Pack_parts [OF assms(1), of "key_type k"]
  by (simp add: ParseInternalKey_def AppendInternalKey_def PutFixed64_def length_fixed DecodeFixed64_Encode Let_def)

lemma LookupKey_parts:
  "internal_key (LookupKey u s) = PutFixed64 u (PackSequenceAndType s kValueTypeForSeek)"
  "lookup_user_key (LookupKey u s) = u"
  by (simp_all add: internal_key_def lookup_user_key_def LookupKey_def PutFixed64_def Let_def ExtractUserKey_def length_fixed)

lemma length_internal_separator:
  "8 \<le> length start \<Longrightarrow> length (internal_separator user start limit) \<le> length start"
  by (auto simp: internal_separator_def Let_def ExtractUserKey_def)



end
