(* ===== verification/Ldb_MemTable.thy ===== *)
theory Ldb_MemTable
  imports Ldb_Keys Ldb_Skip
begin

text \<open>
  The memtable (\<^verbatim>\<open>db/memtable.cc\<close>): entries of bytes in a skip list ordered by their internal keys. The list's keys
  are pointers to entries; a pointer is the bytes from it on.
\<close>

section \<open>Entries\<close>

text \<open>
  The static \<^verbatim>\<open>GetLengthPrefixedSlice\<close> reads a length from at most five bytes and trusts it: the slice, and what
  follows. On bytes that are no varint the code makes a slice of a null pointer; here there is no result.
\<close>

definition prefixed_slice :: "bytes \<Rightarrow> (bytes \<times> bytes) option" where
  "prefixed_slice data =
     (case GetVarint32Ptr (take 5 data) of
        None \<Rightarrow> None
      | Some (len, rest) \<Rightarrow>
          let p = drop (length (take 5 data) - length rest) data
          in Some (take (unat len) p, drop (unat len) p))"

definition entry_key :: "bytes \<Rightarrow> bytes" where
  "entry_key data = fst (the (prefixed_slice data))"

definition KeyComparator :: "comparator_ops \<Rightarrow> bytes \<Rightarrow> bytes \<Rightarrow> int" where
  "KeyComparator user aptr bptr = internal_compare user (entry_key aptr) (entry_key bptr)"

definition EncodeKey :: "bytes \<Rightarrow> bytes" where
  "EncodeKey target = PutVarint32 [] (of_nat (length target)) @ target"

section \<open>The memtable\<close>

record memtable =
  table :: "bytes skip_list"

definition MemTable :: "nat \<Rightarrow> memtable" where
  "MemTable junk = \<lparr>table = skip_list_new junk []\<rparr>"

definition encode_entry :: "u64 \<Rightarrow> value_type \<Rightarrow> bytes \<Rightarrow> bytes \<Rightarrow> bytes" where
  "encode_entry s type key val =
     (let internal_key_size = of_nat (length key) + 8 :: u32
      in EncodeVarint32 internal_key_size @ key @ EncodeFixed64 (push_bit 8 s OR ucast type)
         @ EncodeVarint32 (of_nat (length val)) @ val)"

definition memtable_Add :: "nat \<Rightarrow> comparator_ops \<Rightarrow> u64 \<Rightarrow> value_type \<Rightarrow> bytes \<Rightarrow> bytes \<Rightarrow> memtable \<Rightarrow> memtable option" where
  "memtable_Add junk user s type key val m =
     map_option (\<lambda>t. m\<lparr>table := t\<rparr>) (Insert junk (KeyComparator user) (encode_entry s type key val) (table m))"

text \<open>\<open>Get\<close> answers with a value, a deletion, or that it does not know the key.\<close>

datatype get_result =
    Found_value bytes
  | Found_deletion
  | Not_here

definition entry_result :: "comparator_ops \<Rightarrow> lookup_key \<Rightarrow> bytes \<Rightarrow> get_result" where
  "entry_result user key entry =
     (case GetVarint32Ptr (take 5 entry) of
        None \<Rightarrow> Not_here
      | Some (key_length, rest) \<Rightarrow>
          let key_ptr = drop (length (take 5 entry) - length rest) entry
          in if Compare user (take (unat key_length - 8) key_ptr) (lookup_user_key key) = 0
             then let tag = DecodeFixed64 (drop (unat key_length - 8) key_ptr); type = ucast (tag AND 0xff) :: u8
                  in if type = kTypeValue then Found_value (fst (the (prefixed_slice (drop (unat key_length) key_ptr))))
                     else if type = kTypeDeletion then Found_deletion else Not_here
             else Not_here)"

definition memtable_Get :: "comparator_ops \<Rightarrow> lookup_key \<Rightarrow> memtable \<Rightarrow> get_result option" where
  "memtable_Get user key m =
     Option.bind (iter_Seek (KeyComparator user) (table m) (memtable_key key))
       (\<lambda>it. Some (case it of None \<Rightarrow> Not_here | Some a \<Rightarrow> entry_result user key (iter_key (table m) a)))"

section \<open>Its iterator\<close>

definition mem_Seek :: "comparator_ops \<Rightarrow> bytes \<Rightarrow> memtable \<Rightarrow> nat option option" where
  "mem_Seek user k m = iter_Seek (KeyComparator user) (table m) (EncodeKey k)"

definition mem_key :: "memtable \<Rightarrow> nat \<Rightarrow> bytes" where
  "mem_key m a = entry_key (iter_key (table m) a)"

definition mem_value :: "memtable \<Rightarrow> nat \<Rightarrow> bytes" where
  "mem_value m a = fst (the (prefixed_slice (snd (the (prefixed_slice (iter_key (table m) a))))))"

section \<open>Reading an entry back\<close>

lemma length_varint: "length (EncodeVarint32 v) \<le> 5"
  by (simp add: EncodeVarint32_def)

lemma prefixed_slice_varint:
  assumes "unat v \<le> length p"
  shows "prefixed_slice (EncodeVarint32 v @ p) = Some (take (unat v) p, drop (unat v) p)"
proof -
  have "take 5 (EncodeVarint32 v @ p) = EncodeVarint32 v @ take (5 - length (EncodeVarint32 v)) p"
    using length_varint [of v] by simp
  then have "GetVarint32Ptr (take 5 (EncodeVarint32 v @ p)) = Some (v, take (5 - length (EncodeVarint32 v)) p)"
    using GetVarint32_Encode [of v] by (simp add: GetVarint32_def)
  moreover have "length (take 5 (EncodeVarint32 v @ p)) - length (take (5 - length (EncodeVarint32 v)) p) = length (EncodeVarint32 v)"
    using length_varint [of v] by simp
  ultimately show ?thesis by (simp add: prefixed_slice_def)
qed

lemma key_size:
  assumes "length key + 8 < 2 ^ 32"
  shows "unat (of_nat (length key) + 8 :: u32) = length key + 8"
proof -
  have "(of_nat (length key) + 8 :: u32) = of_nat (length key + 8)" by simp
  then show ?thesis using assms unat_u32_of_nat by metis
qed

lemma entry_key_encode:
  assumes "length key + 8 < 2 ^ 32"
  shows "entry_key (encode_entry s t key val) = PutFixed64 key (PackSequenceAndType s t)"
  using prefixed_slice_varint [of "of_nat (length key) + 8"] key_size [OF assms]
  by (simp add: entry_key_def encode_entry_def PutFixed64_def PackSequenceAndType_def length_fixed Let_def)

lemma entry_key_lookup:
  assumes "length u + 8 < 2 ^ 32"
  shows "entry_key (memtable_key (LookupKey u s)) = PutFixed64 u (PackSequenceAndType s kValueTypeForSeek)"
  using prefixed_slice_varint [of "of_nat (length u) + 8"] key_size [OF assms]
  by (simp add: entry_key_def memtable_key_def LookupKey_def PutFixed64_def length_fixed Let_def)

lemma entry_result_encode:
  assumes "length key + 8 < 2 ^ 32" and "length val < 2 ^ 32" and "s \<le> kMaxSequenceNumber"
  shows "entry_result user lk (encode_entry s t key val) =
    (if Compare user key (lookup_user_key lk) = 0
     then if t = kTypeValue then Found_value val else if t = kTypeDeletion then Found_deletion else Not_here
     else Not_here)"
proof -
  let ?v = "of_nat (length key) + 8 :: u32"
  let ?tail = "EncodeVarint32 (of_nat (length val)) @ val"
  let ?p = "key @ EncodeFixed64 (PackSequenceAndType s t) @ ?tail"
  have e: "encode_entry s t key val = EncodeVarint32 ?v @ ?p" by (simp add: encode_entry_def PackSequenceAndType_def)
  have t5: "take 5 (EncodeVarint32 ?v @ ?p) = EncodeVarint32 ?v @ take (5 - length (EncodeVarint32 ?v)) ?p"
    using length_varint [of ?v] by simp
  have g: "GetVarint32Ptr (take 5 (EncodeVarint32 ?v @ ?p)) = Some (?v, take (5 - length (EncodeVarint32 ?v)) ?p)"
    unfolding t5 using GetVarint32_Encode [of ?v] by (simp add: GetVarint32_def)
  have p: "drop (length (take 5 (EncodeVarint32 ?v @ ?p)) - length (take (5 - length (EncodeVarint32 ?v)) ?p)) (EncodeVarint32 ?v @ ?p) = ?p"
    using length_varint [of ?v] by (simp add: t5)
  have val: "fst (the (prefixed_slice ?tail)) = val"
    using prefixed_slice_varint [of "of_nat (length val)" val] unat_u32_of_nat [OF assms(2)] by simp
  have tag: "DecodeFixed64 (drop (length key) ?p) = PackSequenceAndType s t" by (simp add: DecodeFixed64_Encode)
  have rest: "drop (length key + 8) ?p = ?tail" by (simp add: length_fixed)
  show ?thesis
    unfolding entry_result_def e g option.case prod.case Let_def p key_size [OF assms(1)] add_diff_cancel_right' tag rest val
      Pack_parts(1) [OF assms(3)]
    by simp
qed

section \<open>What a memtable holds\<close>

record mem_add =
  add_seq :: u64
  add_type :: value_type
  add_key :: bytes
  add_val :: bytes

definition entry_of :: "mem_add \<Rightarrow> bytes" where
  "entry_of e = encode_entry (add_seq e) (add_type e) (add_key e) (add_val e)"

definition add_ok :: "mem_add \<Rightarrow> bool" where
  "add_ok e \<longleftrightarrow> length (add_key e) + 8 < 2 ^ 32 \<and> length (add_val e) < 2 ^ 32 \<and> add_seq e \<le> kMaxSequenceNumber
     \<and> add_type e \<le> kTypeValue"

text \<open>A memtable and what was added to it, the latest first; sequence numbers only grow.\<close>

inductive mem_reach :: "comparator_ops \<Rightarrow> memtable \<Rightarrow> mem_add list \<Rightarrow> bool" for user where
  new: "mem_reach user (MemTable junk) []"
| add: "mem_reach user m adds \<Longrightarrow> add_ok e \<Longrightarrow> \<forall>e'\<in>set adds. add_seq e' < add_seq e \<Longrightarrow>
    memtable_Add junk user (add_seq e) (add_type e) (add_key e) (add_val e) m = Some m' \<Longrightarrow> mem_reach user m' (e # adds)"

definition newest_visible :: "comparator_ops \<Rightarrow> bytes \<Rightarrow> u64 \<Rightarrow> mem_add list \<Rightarrow> mem_add option" where
  "newest_visible user u s adds = find (\<lambda>e. Compare user (add_key e) u = 0 \<and> add_seq e \<le> s) adds"

definition visible_result :: "mem_add option \<Rightarrow> get_result" where
  "visible_result v =
     (case v of None \<Rightarrow> Not_here | Some e \<Rightarrow> if add_type e = kTypeValue then Found_value (add_val e) else Found_deletion)"

definition tag_of :: "mem_add \<Rightarrow> u64" where
  "tag_of e = PackSequenceAndType (add_seq e) (add_type e)"

lemma mem_reach_ok: "mem_reach user m adds \<Longrightarrow> e \<in> set adds \<Longrightarrow> add_ok e"
  by (induction rule: mem_reach.induct) auto

lemma mem_reach_seq: "mem_reach user m adds \<Longrightarrow> sorted_wrt (\<lambda>e e'. add_seq e' < add_seq e) adds"
  by (induction rule: mem_reach.induct) auto

lemma entry_of_key: "add_ok e \<Longrightarrow> entry_key (entry_of e) = PutFixed64 (add_key e) (tag_of e)"
  by (simp add: entry_of_def tag_of_def add_ok_def entry_key_encode)

lemma tag_le_iff:
  assumes "add_ok e" and "s \<le> kMaxSequenceNumber"
  shows "tag_of e \<le> PackSequenceAndType s kValueTypeForSeek \<longleftrightarrow> add_seq e \<le> s"
proof -
  have t: "unat (add_type e) \<le> 1" using assms(1) by (simp add: add_ok_def kTypeValue_def word_le_nat_alt)
  have k: "unat kValueTypeForSeek = 1" by (simp add: kValueTypeForSeek_def kTypeValue_def)
  have "unat (tag_of e) = unat (add_seq e) * 256 + unat (add_type e)"
    "unat (PackSequenceAndType s kValueTypeForSeek) = unat s * 256 + 1"
    using assms uint_Pack [of "add_seq e" "add_type e"] uint_Pack [of s kValueTypeForSeek] k by (simp_all add: tag_of_def add_ok_def)
  then show ?thesis using t unfolding word_le_nat_alt by linarith
qed

lemma tag_less:
  assumes "add_ok e" "add_ok e'" and "add_seq e < add_seq e'"
  shows "tag_of e < tag_of e'"
proof -
  have "unat (add_type e) \<le> 1" using assms(1) by (simp add: add_ok_def kTypeValue_def word_le_nat_alt)
  moreover have "unat (tag_of e) = unat (add_seq e) * 256 + unat (add_type e)"
    "unat (tag_of e') = unat (add_seq e') * 256 + unat (add_type e')"
    using assms(1, 2) by (simp_all add: tag_of_def add_ok_def uint_Pack)
  ultimately show ?thesis using assms(3) unfolding word_less_nat_alt by linarith
qed

lemma value_type_cases: "t \<le> kTypeValue \<Longrightarrow> t = kTypeDeletion \<or> t = kTypeValue"
proof -
  assume "t \<le> kTypeValue"
  then have "unat t \<le> 1" by (simp add: kTypeValue_def word_le_nat_alt)
  then consider "unat t = unat (0 :: u8)" | "unat t = unat (1 :: u8)" by fastforce
  then show ?thesis
    by cases (simp_all only: word_unat_eq_iff [symmetric] kTypeDeletion_def kTypeValue_def simp_thms)
qed

lemma find_first:
  assumes "find P xs = Some a" and "sorted_wrt R xs"
  shows "a \<in> set xs \<and> P a \<and> (\<forall>b\<in>set xs. P b \<longrightarrow> b = a \<or> R a b)"
  using assms by (induction xs) (auto split: if_splits)

context comparator
begin

lemma KeyComparator_order: "key_order (KeyComparator c)"
proof
  show "\<And>a b. 0 < KeyComparator c a b \<longleftrightarrow> KeyComparator c b a < 0"
    by (simp add: KeyComparator_def internal_compare_sym)
  show "\<And>a b d. KeyComparator c a b \<le> 0 \<Longrightarrow> KeyComparator c b d \<le> 0 \<Longrightarrow> KeyComparator c a d \<le> 0"
    unfolding KeyComparator_def by (rule internal_compare_trans)
qed

lemma entries_compare:
  assumes "add_ok e" "add_ok e'"
  shows "KeyComparator c (entry_of e) (entry_of e') =
    (let r = Compare c (add_key e) (add_key e')
     in if r = 0 then if tag_of e' < tag_of e then - 1 else if tag_of e < tag_of e' then 1 else 0 else r)"
  using assms by (simp add: KeyComparator_def internal_compare_tags tag_order_def entry_of_key Let_def)

lemma lookup_compare:
  assumes "add_ok e" "length u + 8 < 2 ^ 32" "s \<le> kMaxSequenceNumber"
  shows "0 \<le> KeyComparator c (entry_of e) (memtable_key (LookupKey u s)) \<longleftrightarrow>
    0 < Compare c (add_key e) u \<or> Compare c (add_key e) u = 0 \<and> add_seq e \<le> s"
proof -
  have "0 \<le> KeyComparator c (entry_of e) (memtable_key (LookupKey u s)) \<longleftrightarrow>
    0 < Compare c (add_key e) u \<or> Compare c (add_key e) u = 0 \<and> tag_of e \<le> PackSequenceAndType s kValueTypeForSeek"
    using assms by (auto simp: KeyComparator_def internal_compare_tags tag_order_def entry_of_key entry_key_lookup Let_def)
  then show ?thesis by (simp only: tag_le_iff [OF assms(1, 3)])
qed

lemma mem_reach_skip: "mem_reach c m adds \<Longrightarrow> skip_reach (KeyComparator c) (table m) (map entry_of adds)"
proof (induction rule: mem_reach.induct)
  case (new junk)
  show ?case by (simp add: MemTable_def skip_reach.new)
next
  case (add m adds e junk m')
  have "KeyComparator c (entry_of e) (entry_of e') \<noteq> 0" if "e' \<in> set adds" for e'
    using tag_less [of e' e] add.hyps(2, 3) mem_reach_ok [OF add.hyps(1) that] that by (auto simp: entries_compare Let_def)
  then have "\<forall>k\<in>set (map entry_of adds). KeyComparator c (entry_of e) k \<noteq> 0" by simp
  moreover obtain t where "Insert junk (KeyComparator c) (entry_of e) (table m) = Some t" "table m' = t"
    using add.hyps(4) by (auto simp: memtable_Add_def entry_of_def)
  ultimately show ?case using skip_reach.insert [OF add.IH] by simp
qed

lemma memtable_Add_returns:
  fixes junk :: nat
  assumes "mem_reach c m adds" and "add_ok e" and "\<forall>e'\<in>set adds. add_seq e' < add_seq e"
  shows "\<exists>m'. memtable_Add junk c (add_seq e) (add_type e) (add_key e) (add_val e) m = Some m'"
proof -
  note order = KeyComparator_order
  obtain xs where xs: "skip_inv (KeyComparator c) (table m) xs" "mset (map (iter_key (table m)) xs) = mset (map entry_of adds)"
    using key_order.skip_reach_inv [OF order mem_reach_skip [OF assms(1)]] by blast
  have keys: "set (map (iter_key (table m)) xs) = set (map entry_of adds)" using xs(2) by (rule mset_eq_setD)
  have other: "KeyComparator c (entry_of e) (entry_of e') \<noteq> 0" if "e' \<in> set adds" for e'
    using tag_less [of e' e] assms(2, 3) mem_reach_ok [OF assms(1) that] that by (auto simp: entries_compare Let_def)
  have new: "KeyComparator c (entry_of e) (iter_key (table m) a) \<noteq> 0" if "a \<in> set xs" for a
  proof -
    have "iter_key (table m) a \<in> set (map (iter_key (table m)) xs)" using that by simp
    then obtain e' where "e' \<in> set adds" "iter_key (table m) a = entry_of e'" unfolding keys by auto
    then show ?thesis using other by simp
  qed
  obtain t where "Insert junk (KeyComparator c) (entry_of e) (table m) = Some t"
    by (rule key_order.Insert_inv [OF order xs(1) new])
  then show ?thesis by (simp add: memtable_Add_def entry_of_def)
qed

lemma Get_newest:
  assumes reach: "mem_reach c m adds" and u: "length u + 8 < 2 ^ 32" and s: "s \<le> kMaxSequenceNumber"
  shows "memtable_Get c (LookupKey u s) m = Some (visible_result (newest_visible c u s adds))"
proof -
  note order = KeyComparator_order
  let ?t = "table m" and ?lk = "LookupKey u s" and ?vis = "\<lambda>e. Compare c (add_key e) u = 0 \<and> add_seq e \<le> s"
  let ?P = "\<lambda>a. 0 \<le> KeyComparator c (iter_key ?t a) (memtable_key ?lk)"
  obtain xs where xs: "skip_inv (KeyComparator c) ?t xs" "mset (map (iter_key ?t) xs) = mset (map entry_of adds)"
    using key_order.skip_reach_inv [OF order mem_reach_skip [OF reach]] by blast
  have keys: "set (map (iter_key ?t) xs) = set (map entry_of adds)" using xs(2) by (rule mset_eq_setD)
  have node: "\<exists>a\<in>set xs. iter_key ?t a = entry_of e" if "e \<in> set adds" for e
  proof -
    have "entry_of e \<in> set (map entry_of adds)" using that by simp
    then show ?thesis unfolding keys [symmetric] by auto
  qed
  have ok: "add_ok e" if "e \<in> set adds" for e by (rule mem_reach_ok [OF reach that])
  have get: "memtable_Get c ?lk m = Some (case find ?P xs of None \<Rightarrow> Not_here | Some a \<Rightarrow> entry_result c ?lk (iter_key ?t a))"
    by (simp add: memtable_Get_def key_order.Seek_finds [OF order xs(1)])
  have result: "entry_result c ?lk (entry_of e) = (if Compare c (add_key e) u = 0 then visible_result (Some e) else Not_here)"
    if "e \<in> set adds" for e
    using ok [OF that] value_type_cases [of "add_type e"]
    by (auto simp: add_ok_def entry_of_def entry_result_encode LookupKey_parts visible_result_def kTypeValue_def kTypeDeletion_def)
  have P_iff: "0 \<le> KeyComparator c (entry_of e) (memtable_key ?lk) \<longleftrightarrow> 0 < Compare c (add_key e) u \<or> ?vis e" if "e \<in> set adds" for e
    by (rule lookup_compare [OF ok [OF that] u s])
  show ?thesis
  proof (cases "find ?P xs")
    case None
    then have "\<not> ?vis e" if "e \<in> set adds" for e
      using P_iff [OF that] node [OF that] by (auto simp: find_None_iff)
    then have "newest_visible c u s adds = None" by (auto simp: newest_visible_def find_None_iff)
    then show ?thesis by (simp add: get None visible_result_def)
  next
    case (Some a)
    note first = find_first [OF Some skip_inv_sorted [OF xs(1)]]
    have "iter_key ?t a \<in> set (map (iter_key ?t) xs)" using first by simp
    then obtain e where e: "e \<in> set adds" "iter_key ?t a = entry_of e" unfolding keys by auto
    have Pe: "0 < Compare c (add_key e) u \<or> ?vis e" using first P_iff [OF e(1)] e(2) by simp
    have least: "e' \<in> set adds \<Longrightarrow> ?vis e' \<Longrightarrow> entry_of e' = entry_of e \<or> KeyComparator c (entry_of e) (entry_of e') < 0" for e'
    proof -
      assume e': "e' \<in> set adds" "?vis e'"
      then obtain b where b: "b \<in> set xs" "iter_key ?t b = entry_of e'" using node by blast
      then have "?P b" using P_iff [OF e'(1)] e'(2) by simp
      then have "b = a \<or> KeyComparator c (iter_key ?t a) (iter_key ?t b) < 0" using first b(1) by blast
      then show ?thesis using b(2) e(2) by auto
    qed
    show ?thesis
    proof (cases "newest_visible c u s adds")
      case None
      then have "\<not> ?vis e" using e(1) by (auto simp: newest_visible_def find_None_iff)
      then have "Compare c (add_key e) u \<noteq> 0" using Pe by auto
      then show ?thesis by (simp add: get Some e result None visible_result_def)
    next
      case (Some n)
      from find_first [OF Some [unfolded newest_visible_def] mem_reach_seq [OF reach]]
      have n: "n \<in> set adds" "?vis n" "\<forall>b\<in>set adds. ?vis b \<longrightarrow> b = n \<or> add_seq b < add_seq n" by auto
      have "Compare c (add_key e) u = 0 \<and> visible_result (Some e) = visible_result (Some n)"
        using least [OF n(1, 2)]
      proof
        assume "entry_of n = entry_of e"
        then have "entry_result c ?lk (entry_of n) = entry_result c ?lk (entry_of e)" by simp
        then show ?thesis
          using n(2) e(1) Pe result [OF n(1)] result [OF e(1)]
          by (auto simp: visible_result_def split: if_splits)
      next
        assume less: "KeyComparator c (entry_of e) (entry_of n) < 0"
        then have le: "Compare c (add_key e) (add_key n) \<le> 0"
          by (auto simp: entries_compare [OF ok [OF e(1)] ok [OF n(1)]] Let_def split: if_splits)
        then have "Compare c (add_key e) u \<le> 0" using compare_trans [of "add_key e" "add_key n" u] n(2) by simp
        then have vis: "?vis e" using Pe by simp
        then have "Compare c (add_key e) (add_key n) = 0"
          using n(2) compare_zero_trans [of "add_key e" u "add_key n"] compare_zero_sym [of u "add_key n"] by simp
        then have "tag_of n < tag_of e"
          using less by (auto simp: entries_compare [OF ok [OF e(1)] ok [OF n(1)]] Let_def split: if_splits)
        moreover have "e = n \<or> add_seq e < add_seq n" using n(3) e(1) vis by blast
        ultimately have "e = n" using tag_less [OF ok [OF e(1)] ok [OF n(1)]] by auto
        then show ?thesis using vis by simp
      qed
      then show ?thesis by (simp add: get \<open>find ?P xs = Some a\<close> e result Some)
    qed
  qed
qed

end

interpretation mem_bytewise: key_order "KeyComparator BytewiseComparator"
  by (rule bytewise.KeyComparator_order)

text \<open>
  Property C10: \<^verbatim>\<open>MemTable::Get\<close> sees a snapshot. After any additions with growing sequence numbers, a lookup of a user key
  at a sequence number returns the value, or the deletion, of the latest addition for that key that is not newer than the
  snapshot, and \<^verbatim>\<open>false\<close> exactly when there is none; for every user comparator and whatever memory held. A further addition
  returns.
\<close>

theorem memtable_get_newest:
  assumes "comparator user" and "mem_reach user m adds" and "length u + 8 < 2 ^ 32" and "s \<le> kMaxSequenceNumber"
  shows "memtable_Get user (LookupKey u s) m = Some (visible_result (newest_visible user u s adds))
    \<and> (\<forall>e junk. add_ok e \<and> (\<forall>e'\<in>set adds. add_seq e' < add_seq e) \<longrightarrow>
         memtable_Add junk user (add_seq e) (add_type e) (add_key e) (add_val e) m \<noteq> None)"
  using comparator.Get_newest [OF assms] comparator.memtable_Add_returns [OF assms(1, 2)] by fastforce

definition demo_mem :: "mem_add list \<Rightarrow> memtable option" where
  "demo_mem adds = foldl (\<lambda>m e. Option.bind m (memtable_Add 9 BytewiseComparator (add_seq e) (add_type e) (add_key e) (add_val e)))
     (Some (MemTable 9)) adds"

lemma demo_mem_reach:
  "demo_mem adds = Some m \<Longrightarrow> sorted_wrt (\<lambda>e e'. add_seq e < add_seq e') adds \<Longrightarrow> \<forall>e\<in>set adds. add_ok e \<Longrightarrow>
     mem_reach BytewiseComparator m (rev adds)"
proof (induction adds arbitrary: m rule: rev_induct)
  case Nil
  then show ?case by (auto simp: demo_mem_def intro: mem_reach.new)
next
  case (snoc e adds)
  from snoc.prems(1) obtain m0 where m0: "demo_mem adds = Some m0"
    "memtable_Add 9 BytewiseComparator (add_seq e) (add_type e) (add_key e) (add_val e) m0 = Some m"
    by (auto simp: demo_mem_def bind_eq_Some_conv)
  have "mem_reach BytewiseComparator m0 (rev adds)"
    using snoc.IH [OF m0(1)] snoc.prems(2, 3) by (simp add: sorted_wrt_append)
  from mem_reach.add [OF this _ _ m0(2)] show ?case using snoc.prems(2, 3) by (simp add: sorted_wrt_append)
qed

definition demo_adds :: "mem_add list" where
  "demo_adds =
     [\<lparr>add_seq = 1, add_type = 1, add_key = [7], add_val = [10]\<rparr>, \<lparr>add_seq = 2, add_type = 1, add_key = [7, 0], add_val = [20]\<rparr>,
      \<lparr>add_seq = 3, add_type = 0, add_key = [7], add_val = []\<rparr>]"

theorem memtable_get_newest_witness:
  "\<exists>m. demo_mem demo_adds = Some m \<and> memtable_Get BytewiseComparator (LookupKey [7] 2) m = Some (Found_value [10])"
proof -
  have "map_option (\<lambda>m. ()) (demo_mem demo_adds) = Some ()" by code_simp
  then obtain m where m: "demo_mem demo_adds = Some m" by auto
  have "mem_reach BytewiseComparator m (rev demo_adds)"
    by (rule demo_mem_reach [OF m]) (simp_all add: demo_adds_def add_ok_def kMaxSequenceNumber_def kTypeValue_def)
  from memtable_get_newest [OF bytewise.comparator_axioms this, of "[7]" 2] m show ?thesis
    by (simp add: demo_adds_def newest_visible_def visible_result_def BytewiseComparator_def kMaxSequenceNumber_def kTypeValue_def)
qed

end
