(* ===== verification/Ldb_Batch.thy ===== *)
theory Ldb_Batch
  imports Ldb_MemTable
begin

text \<open>
  Write batches (\<^verbatim>\<open>db/write_batch.cc\<close>): building one, reading it with a handler, and applying it to a memtable. A batch is
  its bytes \<^verbatim>\<open>rep_\<close>. A handler is a function on whatever state it keeps.
\<close>

section \<open>Building a batch\<close>

type_synonym write_batch = bytes

definition kHeader :: nat where "kHeader = 12"

definition batch_Clear :: write_batch where
  "batch_Clear = replicate kHeader 0"

definition batch_Count :: "write_batch \<Rightarrow> u32" where
  "batch_Count b = DecodeFixed32 (drop 8 b)"

definition SetCount :: "write_batch \<Rightarrow> u32 \<Rightarrow> write_batch" where
  "SetCount b n = take 8 b @ EncodeFixed32 n @ drop 12 b"

definition batch_Sequence :: "write_batch \<Rightarrow> u64" where
  "batch_Sequence b = DecodeFixed64 b"

definition SetSequence :: "write_batch \<Rightarrow> u64 \<Rightarrow> write_batch" where
  "SetSequence b s = EncodeFixed64 s @ drop 8 b"

definition batch_Put :: "bytes \<Rightarrow> bytes \<Rightarrow> write_batch \<Rightarrow> write_batch" where
  "batch_Put key val b =
     (let b1 = SetCount b (batch_Count b + 1) @ [kTypeValue]
      in PutLengthPrefixedSlice (PutLengthPrefixedSlice b1 key) val)"

definition batch_Delete :: "bytes \<Rightarrow> write_batch \<Rightarrow> write_batch" where
  "batch_Delete key b =
     (let b1 = SetCount b (batch_Count b + 1) @ [kTypeDeletion] in PutLengthPrefixedSlice b1 key)"

definition batch_Append :: "write_batch \<Rightarrow> write_batch \<Rightarrow> write_batch" where
  "batch_Append dst src = SetCount dst (batch_Count dst + batch_Count src) @ drop kHeader src"

section \<open>Reading a batch\<close>

datatype batch_op =
    Put_op bytes bytes
  | Delete_op bytes

datatype status =
    OK
  | Corrupted string

lemma varint_ptr_loop_shorter: "varint_ptr_loop bound shift r p = Some (v, q) \<Longrightarrow> length q < length p"
  by (induction p arbitrary: shift r) (fastforce split: if_splits)+

lemma GetLengthPrefixedSlice_shorter: "GetLengthPrefixedSlice p = Some (v, q) \<Longrightarrow> length q < length p"
  using varint_ptr_loop_shorter
  by (fastforce simp: GetLengthPrefixedSlice_def GetVarint32_def GetVarint32Ptr_fallback GetVarint32PtrFallback_def
      split: option.splits if_splits)

text \<open>The loop: an error or the number of records, and the handler's state.\<close>

function batch_loop :: "(batch_op \<Rightarrow> 's \<Rightarrow> 's) \<Rightarrow> u32 \<Rightarrow> bytes \<Rightarrow> 's \<Rightarrow> (string + u32) \<times> 's" where
  "batch_loop h found input st =
     (case input of
        [] \<Rightarrow> (Inr found, st)
      | tag # input1 \<Rightarrow>
          if tag = kTypeValue
          then (case GetLengthPrefixedSlice input1 of
                  None \<Rightarrow> (Inl ''bad WriteBatch Put'', st)
                | Some (key, input2) \<Rightarrow>
                    (case GetLengthPrefixedSlice input2 of
                       None \<Rightarrow> (Inl ''bad WriteBatch Put'', st)
                     | Some (val, input3) \<Rightarrow> batch_loop h (found + 1) input3 (h (Put_op key val) st)))
          else if tag = kTypeDeletion
          then (case GetLengthPrefixedSlice input1 of
                  None \<Rightarrow> (Inl ''bad WriteBatch Delete'', st)
                | Some (key, input2) \<Rightarrow> batch_loop h (found + 1) input2 (h (Delete_op key) st))
          else (Inl ''unknown WriteBatch tag'', st))"
  by pat_completeness auto
termination
  by (relation "measure (\<lambda>(h, found, input, st). length input)") (auto dest!: GetLengthPrefixedSlice_shorter)

declare batch_loop.simps [simp del]

definition batch_Iterate :: "(batch_op \<Rightarrow> 's \<Rightarrow> 's) \<Rightarrow> write_batch \<Rightarrow> 's \<Rightarrow> status \<times> 's" where
  "batch_Iterate h b st =
     (if length b < kHeader then (Corrupted ''malformed WriteBatch (too small)'', st)
      else case batch_loop h 0 (drop kHeader b) st of
             (Inl e, st') \<Rightarrow> (Corrupted e, st')
           | (Inr found, st') \<Rightarrow>
               (if found \<noteq> batch_Count b then Corrupted ''WriteBatch has wrong count'' else OK, st'))"

section \<open>Applying a batch\<close>

text \<open>\<^verbatim>\<open>MemTableInserter\<close>: its sequence number and its memtable, which is \<open>None\<close> if an addition did not return.\<close>

definition inserter :: "nat \<Rightarrow> comparator_ops \<Rightarrow> batch_op \<Rightarrow> u64 \<times> memtable option \<Rightarrow> u64 \<times> memtable option" where
  "inserter junk user op = (\<lambda>(s, m).
     (s + 1,
      Option.bind m (case op of
         Put_op key val \<Rightarrow> memtable_Add junk user s kTypeValue key val
       | Delete_op key \<Rightarrow> memtable_Add junk user s kTypeDeletion key [])))"

definition InsertInto :: "nat \<Rightarrow> comparator_ops \<Rightarrow> write_batch \<Rightarrow> memtable \<Rightarrow> status \<times> memtable option" where
  "InsertInto junk user b m =
     (case batch_Iterate (inserter junk user) b (batch_Sequence b, Some m) of (st, _, m') \<Rightarrow> (st, m'))"

section \<open>What a batch holds\<close>

definition build_batch :: "batch_op list \<Rightarrow> write_batch" where
  "build_batch ops =
     fold (\<lambda>op b. case op of Put_op key val \<Rightarrow> batch_Put key val b | Delete_op key \<Rightarrow> batch_Delete key b) ops batch_Clear"

definition op_bytes :: "batch_op \<Rightarrow> bytes" where
  "op_bytes op =
     (case op of
        Put_op key val \<Rightarrow> kTypeValue # PutLengthPrefixedSlice [] key @ PutLengthPrefixedSlice [] val
      | Delete_op key \<Rightarrow> kTypeDeletion # PutLengthPrefixedSlice [] key)"

definition op_ok :: "batch_op \<Rightarrow> bool" where
  "op_ok op = (case op of Put_op key val \<Rightarrow> length key < 2 ^ 32 \<and> length val < 2 ^ 32 | Delete_op key \<Rightarrow> length key < 2 ^ 32)"

definition batch_rep :: "u64 \<Rightarrow> u32 \<Rightarrow> batch_op list \<Rightarrow> write_batch" where
  "batch_rep s n ops = EncodeFixed64 s @ EncodeFixed32 n @ concat (map op_bytes ops)"

lemma PutLengthPrefixedSlice_append: "PutLengthPrefixedSlice b v = b @ PutLengthPrefixedSlice [] v"
  by (simp add: PutLengthPrefixedSlice_def PutVarint32_def)

lemma batch_rep_parts [simp]:
  "batch_Count (batch_rep s n ops) = n" "batch_Sequence (batch_rep s n ops) = s"
  "SetCount (batch_rep s n ops) n' = batch_rep s n' ops" "SetSequence (batch_rep s n ops) s' = batch_rep s' n ops"
  "drop kHeader (batch_rep s n ops) = concat (map op_bytes ops)" "length (batch_rep s n ops) = 12 + length (concat (map op_bytes ops))"
  by (simp_all add: batch_Count_def batch_Sequence_def SetCount_def SetSequence_def batch_rep_def length_fixed kHeader_def
      DecodeFixed32_Encode DecodeFixed64_Encode)

lemma batch_rep_snoc:
  "batch_Put key val (batch_rep s n ops) = batch_rep s (n + 1) (ops @ [Put_op key val])"
  "batch_Delete key (batch_rep s n ops) = batch_rep s (n + 1) (ops @ [Delete_op key])"
  by (simp_all add: batch_Put_def batch_Delete_def Let_def)
     (simp_all add: batch_rep_def op_bytes_def PutLengthPrefixedSlice_def PutVarint32_def)

lemma batch_Clear_rep: "batch_Clear = batch_rep 0 0 []"
  by (simp add: batch_Clear_def batch_rep_def EncodeFixed64_def EncodeFixed32_def kHeader_def numeral_eq_Suc)

lemma build_batch_rep: "build_batch ops = batch_rep 0 (of_nat (length ops)) ops"
proof (induction ops rule: rev_induct)
  case Nil
  then show ?case by (simp add: build_batch_def batch_Clear_rep)
next
  case (snoc op ops)
  then show ?case by (cases op) (simp_all add: build_batch_def batch_rep_snoc add.commute)
qed

lemma batch_Append_rep:
  "batch_Append (batch_rep s n ops) (batch_rep s' n' ops') = batch_rep s (n + n') (ops @ ops')"
  by (simp add: batch_Append_def) (simp add: batch_rep_def)

lemma batch_loop_ops:
  "\<forall>op\<in>set ops. op_ok op \<Longrightarrow>
     batch_loop h found (concat (map op_bytes ops) @ rest) st = batch_loop h (found + of_nat (length ops)) rest (fold h ops st)"
proof (induction ops arbitrary: found st)
  case (Cons op ops)
  have "batch_loop h found (op_bytes op @ concat (map op_bytes ops) @ rest) st
      = batch_loop h (found + 1) (concat (map op_bytes ops) @ rest) (h op st)"
    using Cons.prems
    by (cases op; subst batch_loop.simps) (simp_all add: op_bytes_def op_ok_def kTypeValue_def kTypeDeletion_def)
  then show ?case using Cons by (simp add: add.assoc)
qed simp

section \<open>A batch that was cut\<close>

lemma varint_cut:
  assumes "8 \<le> LENGTH('a::len)"
  shows "m < length (varint_bytes v) \<Longrightarrow> varint_ptr_loop bound k (r :: 'a word) (take m (varint_bytes v)) = None"
proof (induction v arbitrary: m k r rule: varint_bytes.induct)
  case (1 v)
  show ?case
  proof (cases m)
    case (Suc j)
    show ?thesis
    proof (cases "v \<le> 0x7F")
      case False
      have vb: "varint_bytes v = ucast ((v AND 0x7F) OR 0x80) # varint_bytes (drop_bit 7 v)"
        using False by (simp add: varint_bytes.simps [of v])
      then have "j < length (varint_bytes (drop_bit 7 v))" using "1.prems" Suc by simp
      from "1.IH" [OF False this] show ?thesis
        using loop_byte_more [OF assms, of v] by (simp add: vb Suc)
    qed (use 1 Suc in \<open>simp add: varint_bytes.simps [of v]\<close>)
  qed simp
qed

lemma GetLengthPrefixedSlice_cut:
  assumes "length v < 2 ^ 32" and "m < length (PutLengthPrefixedSlice [] v)"
  shows "GetLengthPrefixedSlice (take m (PutLengthPrefixedSlice [] v)) = None"
proof -
  let ?n = "of_nat (length v) :: u32" and ?e = "EncodeVarint32 (of_nat (length v))"
  have p: "PutLengthPrefixedSlice [] v = ?e @ v" by (simp add: PutLengthPrefixedSlice_def PutVarint32_def)
  show ?thesis
  proof (cases "m < length ?e")
    case True
    have "GetVarint32 (take m ?e) = None"
      using True varint_cut [where 'a = 32 and v = "ucast ?n" and m = m]
      by (simp add: GetVarint32_def GetVarint32Ptr_fallback GetVarint32PtrFallback_def EncodeVarint32_varint)
    then show ?thesis using True by (simp add: p GetLengthPrefixedSlice_def)
  next
    case False
    then have "take m (?e @ v) = ?e @ take (m - length ?e) v" by simp
    moreover have "m - length ?e < length v" using assms(2) False p by simp
    ultimately show ?thesis
      using unat_u32_of_nat [OF assms(1)] by (simp add: p GetLengthPrefixedSlice_def)
  qed
qed

lemma batch_loop_cut_op:
  assumes "op_ok op" and "0 < m" and "m < length (op_bytes op)"
  shows "\<exists>e. batch_loop h found (take m (op_bytes op)) st = (Inl e, st)"
proof (cases op)
  case (Delete_op key)
  then have "take m (op_bytes op) = kTypeDeletion # take (m - 1) (PutLengthPrefixedSlice [] key)" "m - 1 < length (PutLengthPrefixedSlice [] key)"
    using assms(2, 3) by (simp_all add: op_bytes_def take_Cons')
  with assms(1) Delete_op show ?thesis
    using GetLengthPrefixedSlice_cut [of key "m - 1"]
    by (subst batch_loop.simps) (simp add: op_ok_def kTypeDeletion_def kTypeValue_def)
next
  case (Put_op key val)
  let ?k = "PutLengthPrefixedSlice [] key" and ?v = "PutLengthPrefixedSlice [] val"
  have ok: "length key < 2 ^ 32" "length val < 2 ^ 32" using assms(1) Put_op by (simp_all add: op_ok_def)
  have t: "take m (op_bytes op) = kTypeValue # take (m - 1) (?k @ ?v)"
    using assms(2) by (simp add: op_bytes_def Put_op take_Cons')
  show ?thesis
  proof (cases "m - 1 < length ?k")
    case True
    then have k: "take (m - 1) (?k @ ?v) = take (m - 1) ?k" by simp
    show ?thesis
      unfolding t k by (subst batch_loop.simps) (simp add: GetLengthPrefixedSlice_cut [OF ok(1) True, simplified])
  next
    case False
    then have "take (m - 1) (?k @ ?v) = ?k @ take (m - 1 - length ?k) ?v" by simp
    moreover have "m - 1 - length ?k < length ?v" using assms(2, 3) False by (simp add: op_bytes_def Put_op)
    ultimately show ?thesis
      using GetLengthPrefixedSlice_cut [OF ok(2)] GetLengthPrefixedSlice_Put [OF ok(1)]
      unfolding t by (subst batch_loop.simps) simp
  qed
qed

lemma batch_loop_cut:
  "\<forall>op\<in>set ops. op_ok op \<Longrightarrow> n < length (concat (map op_bytes ops)) \<Longrightarrow>
     \<exists>m<length ops. batch_loop h found (take n (concat (map op_bytes ops))) st = (Inr (found + of_nat m), fold h (take m ops) st)
       \<or> (\<exists>e. batch_loop h found (take n (concat (map op_bytes ops))) st = (Inl e, fold h (take m ops) st))"
proof (induction ops arbitrary: found st n)
  case (Cons op ops)
  have ok: "op_ok op" using Cons.prems(1) by simp
  show ?case
  proof (cases "n < length (op_bytes op)")
    case True
    then have t: "take n (concat (map op_bytes (op # ops))) = take n (op_bytes op)" by simp
    show ?thesis
    proof (cases "n = 0")
      case True
      then show ?thesis by (intro exI [of _ 0]) (simp add: batch_loop.simps)
    next
      case False
      then show ?thesis using batch_loop_cut_op [OF ok _ True, of h found st] unfolding t by (intro exI [of _ 0]) simp
    qed
  next
    case False
    let ?n = "n - length (op_bytes op)"
    have t: "take n (concat (map op_bytes (op # ops))) = op_bytes op @ take ?n (concat (map op_bytes ops))" using False by simp
    have step: "batch_loop h found (take n (concat (map op_bytes (op # ops)))) st
        = batch_loop h (found + 1) (take ?n (concat (map op_bytes ops))) (h op st)"
      unfolding t using batch_loop_ops [of "[op]" h found "take ?n (concat (map op_bytes ops))" st] ok by simp
    have "?n < length (concat (map op_bytes ops))" using Cons.prems(2) False by simp
    then obtain m where m: "m < length ops"
      "batch_loop h (found + 1) (take ?n (concat (map op_bytes ops))) (h op st) = (Inr (found + 1 + of_nat m), fold h (take m ops) (h op st))
       \<or> (\<exists>e. batch_loop h (found + 1) (take ?n (concat (map op_bytes ops))) (h op st) = (Inl e, fold h (take m ops) (h op st)))"
      using Cons.IH [of ?n "found + 1" "h op st"] Cons.prems(1) by auto
    then show ?thesis unfolding step by (intro exI [of _ "Suc m"]) (auto simp: add.assoc)
  qed
qed simp

lemma batch_Iterate_rep:
  assumes "\<forall>op\<in>set ops. op_ok op"
  shows "batch_Iterate h (batch_rep s (of_nat (length ops)) ops) st = (OK, fold h ops st)"
  using batch_loop_ops [OF assms, of h 0 "[]" st] by (simp add: batch_Iterate_def batch_loop.simps [of _ _ "[]"] kHeader_def [symmetric])

lemma batch_Iterate_cut:
  assumes ok: "\<forall>op\<in>set ops. op_ok op" and len: "length ops < 2 ^ 32" and n: "n < length (batch_rep s (of_nat (length ops)) ops)"
  shows "\<exists>m e. batch_Iterate h (take n (batch_rep s (of_nat (length ops)) ops)) st = (Corrupted e, fold h (take m ops) st)"
proof (cases "n < 12")
  case True
  then show ?thesis by (intro exI [of _ 0]) (simp add: batch_Iterate_def kHeader_def)
next
  case False
  let ?b = "batch_rep s (of_nat (length ops)) ops"
  have head: "take n ?b = EncodeFixed64 s @ EncodeFixed32 (of_nat (length ops)) @ take (n - 12) (concat (map op_bytes ops))"
    using False by (simp add: batch_rep_def length_fixed)
  have "length (take n ?b) = n" using n by simp
  moreover have "drop kHeader (take n ?b) = take (n - 12) (concat (map op_bytes ops))"
    unfolding head by (simp add: kHeader_def length_fixed)
  moreover have "batch_Count (take n ?b) = of_nat (length ops)"
    unfolding head by (simp add: batch_Count_def length_fixed DecodeFixed32_Encode)
  moreover have "n - 12 < length (concat (map op_bytes ops))" using n False by simp
  then obtain m where m: "m < length ops"
    "batch_loop h 0 (take (n - 12) (concat (map op_bytes ops))) st = (Inr (of_nat m), fold h (take m ops) st)
     \<or> (\<exists>e. batch_loop h 0 (take (n - 12) (concat (map op_bytes ops))) st = (Inl e, fold h (take m ops) st))"
    using batch_loop_cut [OF ok, of "n - 12" h 0 st] by auto
  moreover have "(of_nat m :: u32) \<noteq> of_nat (length ops)"
    using m(1) len unat_u32_of_nat [of m] unat_u32_of_nat [of "length ops"] by auto
  ultimately show ?thesis using False by (auto simp: batch_Iterate_def kHeader_def)
qed



end
