(* ===== verification/Ldb_File.thy ===== *)
theory Ldb_File
  imports Ldb_Coding "HOL-Library.Sublist"
begin

text \<open>
  The files a log is written to and read from. The log sees an interface (\<^verbatim>\<open>WritableFile\<close>, \<^verbatim>\<open>SequentialFile\<close>);
  the two locales state what it relies on. The implementation is the one of \<^verbatim>\<open>util/env_posix.cc\<close>: a buffer in front
  of \<^verbatim>\<open>write\<close>, whose answers are an input, and \<^verbatim>\<open>read\<close> with its retry.
\<close>

section \<open>The interfaces\<close>

text \<open>An operation returns whether its status is OK; \<open>None\<close> means that it still waits for the system.\<close>

record 's writable_ops =
  op_append :: "bytes \<Rightarrow> 's \<Rightarrow> (bool \<times> 's) option"
  op_flush :: "'s \<Rightarrow> (bool \<times> 's) option"

text \<open>
  \<open>contents\<close> is all that was appended and not lost, \<open>durable\<close> what the system has of it. A failure may lose a
  tail of the contents, never what the system already had.
\<close>

locale writable_file =
  fixes ops :: "'s writable_ops"
    and contents :: "'s \<Rightarrow> bytes"
    and durable :: "'s \<Rightarrow> bytes"
  assumes durable_contents: "prefix (durable s) (contents s)"
    and append_prefix: "op_append ops d s = Some (ok, s') \<Longrightarrow> prefix (contents s') (contents s @ d)"
    and append_ok: "op_append ops d s = Some (True, s') \<Longrightarrow> contents s' = contents s @ d"
    and append_durable: "op_append ops d s = Some (ok, s') \<Longrightarrow> prefix (durable s) (durable s')"
    and flush_prefix: "op_flush ops s = Some (ok, s') \<Longrightarrow> prefix (contents s') (contents s)"
    and flush_ok: "op_flush ops s = Some (True, s') \<Longrightarrow> contents s' = contents s \<and> durable s' = contents s"
    and flush_durable: "op_flush ops s = Some (ok, s') \<Longrightarrow> prefix (durable s) (durable s')"

text \<open>\<open>op_read\<close> returns no data on an error.\<close>

record 'f sequential_ops =
  op_read :: "nat \<Rightarrow> 'f \<Rightarrow> bytes option \<times> 'f"
  op_skip :: "u64 \<Rightarrow> 'f \<Rightarrow> bool \<times> 'f"

locale sequential_file =
  fixes ops :: "'f sequential_ops"
    and remaining :: "'f \<Rightarrow> bytes"
    and sound :: "'f \<Rightarrow> bool"
  assumes read_data: "sound f \<Longrightarrow> fst (op_read ops n f) = Some (take n (remaining f))"
    and read_rest: "sound f \<Longrightarrow> remaining (snd (op_read ops n f)) = drop n (remaining f)"
    and read_sound: "sound f \<Longrightarrow> sound (snd (op_read ops n f))"

section \<open>PosixWritableFile\<close>

text \<open>What a call of \<^verbatim>\<open>write\<close> answers: it took some bytes, it was interrupted, or it failed.\<close>

datatype write_result = Wrote nat | Write_interrupted | Write_failed

record posix_writable =
  disk :: bytes
  buf :: bytes
  answers :: "write_result list"

definition kWritableFileBufferSize :: nat where "kWritableFileBufferSize = 65536"

fun write_loop :: "write_result list \<Rightarrow> bytes \<Rightarrow> bytes \<Rightarrow> (bool \<times> bytes \<times> write_result list) option" where
  "write_loop [] dsk data = (if data = [] then Some (True, dsk, []) else None)"
| "write_loop (r # rs) dsk data =
     (if data = [] then Some (True, dsk, r # rs)
      else case r of
             Wrote n \<Rightarrow> write_loop rs (dsk @ take n data) (drop n data)
           | Write_interrupted \<Rightarrow> write_loop rs dsk data
           | Write_failed \<Rightarrow> Some (False, dsk, rs))"

definition WriteUnbuffered :: "bytes \<Rightarrow> posix_writable \<Rightarrow> (bool \<times> posix_writable) option" where
  "WriteUnbuffered data f =
     (case write_loop (answers f) (disk f) data of
        None \<Rightarrow> None
      | Some (ok, dsk, rs) \<Rightarrow> Some (ok, f\<lparr>disk := dsk, answers := rs\<rparr>))"

definition FlushBuffer :: "posix_writable \<Rightarrow> (bool \<times> posix_writable) option" where
  "FlushBuffer f =
     (case WriteUnbuffered (buf f) f of
        None \<Rightarrow> None
      | Some (ok, f') \<Rightarrow> Some (ok, f'\<lparr>buf := []\<rparr>))"

definition posix_Append :: "bytes \<Rightarrow> posix_writable \<Rightarrow> (bool \<times> posix_writable) option" where
  "posix_Append data f =
     (let copy_size = min (length data) (kWritableFileBufferSize - length (buf f));
          f1 = f\<lparr>buf := buf f @ take copy_size data\<rparr>;
          write_data = drop copy_size data
      in if write_data = [] then Some (True, f1)
         else case FlushBuffer f1 of
                None \<Rightarrow> None
              | Some (ok, f2) \<Rightarrow>
                  if \<not> ok then Some (False, f2)
                  else if length write_data < kWritableFileBufferSize
                  then Some (True, f2\<lparr>buf := write_data\<rparr>)
                  else WriteUnbuffered write_data f2)"

definition posix_Flush :: "posix_writable \<Rightarrow> (bool \<times> posix_writable) option" where
  "posix_Flush f = FlushBuffer f"

definition posix_writable_ops :: "posix_writable writable_ops" where
  "posix_writable_ops = \<lparr>op_append = posix_Append, op_flush = posix_Flush\<rparr>"

definition posix_contents :: "posix_writable \<Rightarrow> bytes" where
  "posix_contents f = disk f @ buf f"

lemma write_loop_disk:
  "write_loop rs dsk data = Some (ok, dsk', rs') \<Longrightarrow>
     \<exists>n. dsk' = dsk @ take n data \<and> (ok \<longrightarrow> dsk' = dsk @ data)"
proof (induction rs dsk data rule: write_loop.induct)
  case (2 r rs dsk data)
  show ?case
  proof (cases "data = []")
    case False
    show ?thesis
    proof (cases r)
      case (Wrote k)
      with 2 False obtain n where
        "dsk' = (dsk @ take k data) @ take n (drop k data)" "ok \<longrightarrow> dsk' = (dsk @ take k data) @ drop k data"
        by auto
      then show ?thesis by (intro exI [of _ "k + n"]) (simp add: take_add)
    qed (use 2 False in \<open>auto intro: exI [of _ 0]\<close>)
  qed (use 2 in auto)
qed (auto split: if_splits)

lemma WriteUnbuffered_disk:
  assumes "WriteUnbuffered data f = Some (ok, f')"
  shows "buf f' = buf f" "prefix (disk f) (disk f')" "prefix (disk f') (disk f @ data)"
    "ok \<Longrightarrow> disk f' = disk f @ data"
  using assms write_loop_disk [of "answers f" "disk f" data]
  by (auto simp: WriteUnbuffered_def split: option.splits prod.splits) (metis prefixI append_take_drop_id append.assoc)+

lemma FlushBuffer_disk:
  assumes "FlushBuffer f = Some (ok, f')"
  shows "buf f' = []" "prefix (disk f) (disk f')" "prefix (disk f') (disk f @ buf f)"
    "ok \<Longrightarrow> disk f' = disk f @ buf f"
proof -
  obtain f1 where w: "WriteUnbuffered (buf f) f = Some (ok, f1)" "f' = f1\<lparr>buf := []\<rparr>"
    using assms by (auto simp: FlushBuffer_def split: option.splits prod.splits)
  show "buf f' = []" "prefix (disk f) (disk f')" "prefix (disk f') (disk f @ buf f)"
    "ok \<Longrightarrow> disk f' = disk f @ buf f"
    using WriteUnbuffered_disk [OF w(1)] w(2) by simp_all
qed

lemma posix_Append_contents:
  assumes "posix_Append d f = Some (ok, f')"
  shows "prefix (posix_contents f') (posix_contents f @ d)" "ok \<Longrightarrow> posix_contents f' = posix_contents f @ d"
    "prefix (disk f) (disk f')"
proof -
  let ?n = "min (length d) (kWritableFileBufferSize - length (buf f))"
  let ?f1 = "f\<lparr>buf := buf f @ take ?n d\<rparr>" and ?rest = "drop ?n d"
  have all: "posix_contents f @ d = (disk ?f1 @ buf ?f1) @ ?rest" by (simp add: posix_contents_def)
  consider (fits) "?rest = []" "ok" "f' = ?f1"
    | (fail) "FlushBuffer ?f1 = Some (False, f')" "\<not> ok"
    | (small) f2 where "FlushBuffer ?f1 = Some (True, f2)" "ok" "f' = f2\<lparr>buf := ?rest\<rparr>"
    | (large) f2 where "FlushBuffer ?f1 = Some (True, f2)" "WriteUnbuffered ?rest f2 = Some (ok, f')"
    using assms unfolding posix_Append_def Let_def
    by (auto split: if_splits option.splits prod.splits bool.splits)
  then have "prefix (posix_contents f') (posix_contents f @ d) \<and>
      (ok \<longrightarrow> posix_contents f' = posix_contents f @ d) \<and> prefix (disk f) (disk f')"
  proof cases
    case fits
    then show ?thesis by (simp add: posix_contents_def)
  next
    case fail
    note fl = FlushBuffer_disk [OF fail(1)]
    have "prefix (posix_contents f') ((disk ?f1 @ buf ?f1) @ ?rest)"
      using fl(1,3) by (simp only: posix_contents_def append_Nil2 prefix_prefix)
    then show ?thesis unfolding all using fail(2) fl(2) by simp
  next
    case small
    then show ?thesis using FlushBuffer_disk [OF small(1)] unfolding all by (simp add: posix_contents_def)
  next
    case large
    note fl = FlushBuffer_disk [OF large(1)] and wr = WriteUnbuffered_disk [OF large(2)]
    have d: "disk f2 = disk f @ buf ?f1" using fl(4) by simp
    have c: "posix_contents f' = disk f'" using fl(1) wr(1) by (simp add: posix_contents_def)
    have r: "disk f2 @ ?rest = (disk ?f1 @ buf ?f1) @ ?rest" by (simp add: d)
    have "prefix (disk f) (disk f')" using fl(2) wr(2) by (auto intro: prefix_order.trans)
    then show ?thesis unfolding all c r [symmetric] using wr(3,4) by blast
  qed
  then show "prefix (posix_contents f') (posix_contents f @ d)" "ok \<Longrightarrow> posix_contents f' = posix_contents f @ d"
    "prefix (disk f) (disk f')"
    by blast+
qed

interpretation posix_target: writable_file posix_writable_ops posix_contents disk
proof (unfold_locales, unfold posix_writable_ops_def writable_ops.simps posix_Flush_def, goal_cases)
  case (1 s)
  show ?case by (simp add: posix_contents_def)
next
  case (2 d s ok s')
  then show ?case by (rule posix_Append_contents(1))
next
  case (3 d s s')
  from posix_Append_contents(2) [OF this] show ?case by simp
next
  case (4 d s ok s')
  then show ?case by (rule posix_Append_contents(3))
next
  case (5 s ok s')
  from FlushBuffer_disk [OF this] show ?case by (simp add: posix_contents_def)
next
  case (6 s s')
  from FlushBuffer_disk [OF this] show ?case by (simp add: posix_contents_def)
next
  case (7 s ok s')
  then show ?case by (rule FlushBuffer_disk(2))
qed

section \<open>PosixSequentialFile\<close>

text \<open>
  The descriptor is the bytes behind its position. A call of \<open>Read\<close> is answered by the number of interruptions
  before \<^verbatim>\<open>read\<close> returns and whether it then succeeds; a read of a regular file returns all there is, up to the
  number asked for.
\<close>

record posix_sequential =
  fd_bytes :: bytes
  fd_answers :: "nat \<Rightarrow> nat \<times> bool"
  fd_calls :: nat

fun read_loop :: "nat \<Rightarrow> bool \<Rightarrow> nat \<Rightarrow> posix_sequential \<Rightarrow> bytes option \<times> posix_sequential" where
  "read_loop (Suc interruptions) ok n f = read_loop interruptions ok n f"
| "read_loop 0 ok n f =
     (if ok then (Some (take n (fd_bytes f)), f\<lparr>fd_bytes := drop n (fd_bytes f)\<rparr>) else (None, f))"

definition posix_Read :: "nat \<Rightarrow> posix_sequential \<Rightarrow> bytes option \<times> posix_sequential" where
  "posix_Read n f =
     (let (interruptions, ok) = fd_answers f (fd_calls f)
      in read_loop interruptions ok n (f\<lparr>fd_calls := Suc (fd_calls f)\<rparr>))"

text \<open>Seeking a regular file past its end succeeds.\<close>

definition posix_Skip :: "u64 \<Rightarrow> posix_sequential \<Rightarrow> bool \<times> posix_sequential" where
  "posix_Skip n f = (True, f\<lparr>fd_bytes := drop (unat n) (fd_bytes f)\<rparr>)"

definition posix_sequential_ops :: "posix_sequential sequential_ops" where
  "posix_sequential_ops = \<lparr>op_read = posix_Read, op_skip = posix_Skip\<rparr>"

definition reads_succeed :: "posix_sequential \<Rightarrow> bool" where
  "reads_succeed f \<longleftrightarrow> (\<forall>i. snd (fd_answers f i))"

lemma read_loop_result:
  "read_loop k ok n f =
     (if ok then (Some (take n (fd_bytes f)), f\<lparr>fd_bytes := drop n (fd_bytes f)\<rparr>) else (None, f))"
  by (induction k) auto

lemma posix_Read_succeeds:
  "reads_succeed f \<Longrightarrow> posix_Read n f =
     (Some (take n (fd_bytes f)), f\<lparr>fd_calls := Suc (fd_calls f), fd_bytes := drop n (fd_bytes f)\<rparr>)"
  by (simp add: posix_Read_def reads_succeed_def read_loop_result case_prod_beta)

interpretation posix_source: sequential_file posix_sequential_ops fd_bytes reads_succeed
proof (unfold_locales, unfold posix_sequential_ops_def sequential_ops.simps, goal_cases)
  case (1 f n)
  then show ?case by (simp only: posix_Read_succeeds fst_conv)
next
  case (2 f n)
  then show ?case by (simp add: posix_Read_succeeds)
next
  case (3 f n)
  then have "reads_succeed (snd (posix_Read n f)) = reads_succeed f"
    by (simp only: posix_Read_succeeds) (simp add: reads_succeed_def)
  with 3 show ?case by simp
qed

end
