(* ===== verification/Ldb_Log.thy ===== *)
theory Ldb_Log
  imports Ldb_Crc Ldb_File
begin

text \<open>
  LevelDB's write-ahead log (\<^verbatim>\<open>db/log_format.h\<close>, \<^verbatim>\<open>db/log_writer.cc\<close>, \<^verbatim>\<open>db/log_reader.cc\<close>): blocks of 32 KB,
  records in fragments that never cross a block, each with a masked checksum. The writer and the reader
  work through the interfaces of \<open>Ldb_File\<close>. What the two do together is in \<open>Ldb_Recover\<close>.
\<close>

section \<open>Format\<close>

definition kZeroType :: u32 where "kZeroType = 0"
definition kFullType :: u32 where "kFullType = 1"
definition kFirstType :: u32 where "kFirstType = 2"
definition kMiddleType :: u32 where "kMiddleType = 3"
definition kLastType :: u32 where "kLastType = 4"
definition kMaxRecordType :: u32 where "kMaxRecordType = kLastType"
definition kBlockSize :: nat where "kBlockSize = 32768"
definition kHeaderSize :: nat where "kHeaderSize = 4 + 2 + 1"
definition kEof :: u32 where "kEof = kMaxRecordType + 1"
definition kBadRecord :: u32 where "kBadRecord = kMaxRecordType + 2"

lemmas record_type_defs = kZeroType_def kFullType_def kFirstType_def kMiddleType_def kLastType_def
  kMaxRecordType_def kEof_def kBadRecord_def
lemmas log_sizes = kBlockSize_def kHeaderSize_def

section \<open>The writer\<close>

record 's log_writer =
  dest :: 's
  block_offset :: nat
  type_crc :: "u32 list"

text \<open>\<open>addr\<close> is the address of the local variable that is summed.\<close>

definition InitTypeCrc :: "u64 \<Rightarrow> u32 list" where
  "InitTypeCrc addr = map (\<lambda>i. crc_Value addr [of_nat i]) [0..<Suc (unat kMaxRecordType)]"

definition log_Writer :: "u64 \<Rightarrow> 's \<Rightarrow> 's log_writer" where
  "log_Writer addr d = \<lparr>dest = d, block_offset = 0, type_crc = InitTypeCrc addr\<rparr>"

definition log_Writer_at :: "u64 \<Rightarrow> 's \<Rightarrow> u64 \<Rightarrow> 's log_writer" where
  "log_Writer_at addr d dest_length =
     \<lparr>dest = d, block_offset = unat (dest_length mod of_nat kBlockSize), type_crc = InitTypeCrc addr\<rparr>"

text \<open>\<open>ptr\<close> is the address of the payload.\<close>

definition EmitPhysicalRecord ::
  "'s writable_ops \<Rightarrow> u32 \<Rightarrow> u64 \<Rightarrow> bytes \<Rightarrow> 's log_writer \<Rightarrow> (bool \<times> 's log_writer) option" where
  "EmitPhysicalRecord ops t ptr payload w =
     (let len = length payload;
          crc = Mask (Extend ptr (type_crc w ! unat t) payload);
          header = EncodeFixed32 crc @ [of_nat len AND 0xff, of_nat (len div 256), ucast t];
          finish = (\<lambda>(ok, s). Some (ok, w\<lparr>dest := s, block_offset := block_offset w + (kHeaderSize + len)\<rparr>))
      in case op_append ops header (dest w) of
           None \<Rightarrow> None
         | Some (ok, s) \<Rightarrow>
             if \<not> ok then finish (False, s)
             else case op_append ops payload s of
                    None \<Rightarrow> None
                  | Some (ok, s) \<Rightarrow>
                      if \<not> ok then finish (False, s)
                      else case op_flush ops s of None \<Rightarrow> None | Some (ok, s) \<Rightarrow> finish (ok, s))"

text \<open>The trailer of a block with no room for a header; the status of this append is ignored.\<close>

definition switch_block :: "'s writable_ops \<Rightarrow> 's log_writer \<Rightarrow> 's log_writer option" where
  "switch_block ops w =
     (let leftover = kBlockSize - block_offset w
      in if leftover < kHeaderSize
         then if 0 < leftover
              then case op_append ops (replicate leftover 0) (dest w) of
                     None \<Rightarrow> None
                   | Some (ok, s) \<Rightarrow> Some (w\<lparr>dest := s, block_offset := 0\<rparr>)
              else Some (w\<lparr>block_offset := 0\<rparr>)
         else Some w)"

definition fragment_type :: "bool \<Rightarrow> bool \<Rightarrow> u32" where
  "fragment_type first final =
     (if first \<and> final then kFullType else if first then kFirstType
      else if final then kLastType else kMiddleType)"

lemma EmitPhysicalRecord_offset:
  "EmitPhysicalRecord ops t ptr payload w = Some (ok, w') \<Longrightarrow>
     block_offset w' = block_offset w + (kHeaderSize + length payload)"
  by (auto simp: EmitPhysicalRecord_def Let_def split: option.splits if_splits)

lemma switch_block_offset:
  "switch_block ops w = Some w' \<Longrightarrow>
     block_offset w' = (if kBlockSize - block_offset w < kHeaderSize then 0 else block_offset w)"
  by (auto simp: switch_block_def Let_def split: option.splits if_splits)

function AddRecord_loop ::
  "'s writable_ops \<Rightarrow> bool \<Rightarrow> u64 \<Rightarrow> bytes \<Rightarrow> 's log_writer \<Rightarrow> (bool \<times> 's log_writer) option" where
  "AddRecord_loop ops first ptr data w =
     (case switch_block ops w of
        None \<Rightarrow> None
      | Some w1 \<Rightarrow>
          (let avail = kBlockSize - block_offset w1 - kHeaderSize;
               n = (if length data < avail then length data else avail);
               t = fragment_type first (length data = n)
           in case EmitPhysicalRecord ops t ptr (take n data) w1 of
                None \<Rightarrow> None
              | Some (ok, w2) \<Rightarrow>
                  if ok \<and> 0 < length (drop n data)
                  then AddRecord_loop ops False (ptr + of_nat n) (drop n data) w2
                  else Some (ok, w2)))"
  by auto
termination
proof (relation "measure (\<lambda>(ops, first, ptr, data, w).
    2 * length data + (if kBlockSize - block_offset w = kHeaderSize then 1 else 0))", goal_cases)
  case (2 ops first ptr data w w1 avail n t r ok w2)
  note off = switch_block_offset [OF 2(1)]
  have w2: "block_offset w2 = block_offset w1 + (kHeaderSize + length (take n data))"
    using 2 by (metis EmitPhysicalRecord_offset)
  show ?case
  proof (cases "avail = 0")
    case True
    then have "kBlockSize - block_offset w = kHeaderSize" "block_offset w1 = block_offset w" "n = 0"
      using 2 off by (auto simp: log_sizes split: if_splits)
    then show ?thesis using w2 by (simp add: log_sizes)
  next
    case False
    then have "0 < n" "n < length data" using 2 by (auto split: if_splits)
    then show ?thesis by auto
  qed
qed simp

declare AddRecord_loop.simps [simp del]

definition AddRecord :: "'s writable_ops \<Rightarrow> u64 \<Rightarrow> bytes \<Rightarrow> 's log_writer \<Rightarrow> (bool \<times> 's log_writer) option" where
  "AddRecord ops ptr data w = AddRecord_loop ops True ptr data w"

section \<open>The reader\<close>

datatype drop_reason = Corruption string | Unknown_type u32 | Read_error | Skip_error

record 'f log_reader =
  src_file :: 'f
  has_reporter :: bool
  checksum :: bool
  backing_store :: u64
  buffer :: bytes
  data_ptr :: u64
  eof :: bool
  last_record_offset :: u64
  end_of_buffer_offset :: u64
  initial_offset :: u64
  resyncing :: bool
  reported :: "(u64 \<times> drop_reason) list"

definition log_Reader :: "'f \<Rightarrow> bool \<Rightarrow> bool \<Rightarrow> u64 \<Rightarrow> u64 \<Rightarrow> 'f log_reader" where
  "log_Reader f reporter check initial store =
     \<lparr>src_file = f, has_reporter = reporter, checksum = check, backing_store = store, buffer = [],
      data_ptr = 0, eof = False, last_record_offset = 0, end_of_buffer_offset = 0,
      initial_offset = initial, resyncing = (0 < initial), reported = []\<rparr>"

definition LastRecordOffset :: "'f log_reader \<Rightarrow> u64" where
  "LastRecordOffset r = last_record_offset r"

abbreviation slice_size :: "bytes \<Rightarrow> u64" where
  "slice_size s \<equiv> of_nat (length s)"

definition ReportDrop :: "u64 \<Rightarrow> drop_reason \<Rightarrow> 'f log_reader \<Rightarrow> 'f log_reader" where
  "ReportDrop n reason r =
     (if has_reporter r \<and> initial_offset r \<le> end_of_buffer_offset r - slice_size (buffer r) - n
      then r\<lparr>reported := reported r @ [(n, reason)]\<rparr> else r)"

definition ReportCorruption :: "u64 \<Rightarrow> string \<Rightarrow> 'f log_reader \<Rightarrow> 'f log_reader" where
  "ReportCorruption n reason r = ReportDrop n (Corruption reason) r"

definition SkipToInitialBlock :: "'f sequential_ops \<Rightarrow> 'f log_reader \<Rightarrow> bool \<times> 'f log_reader" where
  "SkipToInitialBlock ops r =
     (let offset_in_block = initial_offset r mod of_nat kBlockSize;
          start = initial_offset r - offset_in_block;
          start = (if offset_in_block > of_nat kBlockSize - 6 then start + of_nat kBlockSize else start);
          r = r\<lparr>end_of_buffer_offset := start\<rparr>
      in if start > 0
         then let (ok, f) = op_skip ops start (src_file r); r = r\<lparr>src_file := f\<rparr>
              in if ok then (True, r) else (False, ReportDrop start Skip_error r)
         else (True, r))"

text \<open>Reading a block into the empty buffer. An error leaves the buffer empty.\<close>

definition fetch_block :: "'f sequential_ops \<Rightarrow> 'f log_reader \<Rightarrow> bool \<times> 'f log_reader" where
  "fetch_block ops r =
     (let (res, f) = op_read ops kBlockSize (src_file r)
      in case res of
           None \<Rightarrow> (False, (ReportDrop (of_nat kBlockSize) Read_error (r\<lparr>src_file := f, buffer := []\<rparr>))\<lparr>eof := True\<rparr>)
         | Some d \<Rightarrow>
             (True, r\<lparr>src_file := f, buffer := d, data_ptr := backing_store r,
                end_of_buffer_offset := end_of_buffer_offset r + slice_size d,
                eof := length d < kBlockSize\<rparr>))"

text \<open>
  The type, the fragment and the reader. A bad record leaves the fragment of the previous one in place, except
  where the code clears it. \<^verbatim>\<open>char\<close> is signed on the phone.
\<close>

definition parse_header :: "bytes \<Rightarrow> 'f log_reader \<Rightarrow> u32 \<times> bytes \<times> 'f log_reader" where
  "parse_header fragment r =
     (let header = buffer r;
          a = ucast (header ! 4) AND 0xff; b = ucast (header ! 5) AND 0xff;
          type = scast (header ! 6) :: u32;
          len = unat (a OR push_bit 8 b :: u32);
          r0 = r\<lparr>buffer := []\<rparr>
      in if length (buffer r) < kHeaderSize + len
         then if \<not> eof r
              then (kBadRecord, fragment, ReportCorruption (slice_size header) ''bad record length'' r0)
              else (kEof, fragment, r0)
         else if type = kZeroType \<and> len = 0 then (kBadRecord, fragment, r0)
         else if checksum r \<and>
             crc_Value (data_ptr r + 6) (take (1 + len) (drop 6 header)) \<noteq> Unmask (DecodeFixed32 header)
         then (kBadRecord, fragment, ReportCorruption (slice_size header) ''checksum mismatch'' r0)
         else let r = r\<lparr>buffer := drop (kHeaderSize + len) header,
                        data_ptr := data_ptr r + of_nat (kHeaderSize + len)\<rparr>
              in if end_of_buffer_offset r - slice_size (buffer r) - of_nat kHeaderSize - of_nat len < initial_offset r
                 then (kBadRecord, [], r)
                 else (type, take len (drop kHeaderSize header), r))"

function ReadPhysicalRecord :: "'f sequential_ops \<Rightarrow> bytes \<Rightarrow> 'f log_reader \<Rightarrow> u32 \<times> bytes \<times> 'f log_reader" where
  "ReadPhysicalRecord ops fragment r =
     (if length (buffer r) < kHeaderSize
      then if \<not> eof r
           then let (ok, r') = fetch_block ops r
                in if ok then ReadPhysicalRecord ops fragment r' else (kEof, fragment, r')
           else (kEof, fragment, r\<lparr>buffer := []\<rparr>)
      else parse_header fragment r)"
  by auto
termination
  by (relation "measure (\<lambda>(ops, fragment, r). if length (buffer r) < kHeaderSize \<and> \<not> eof r then 1 else 0)")
    (auto simp: fetch_block_def log_sizes split: prod.splits option.splits)

declare ReadPhysicalRecord.simps [simp del]

text \<open>One round of the loop of \<open>ReadRecord\<close>: it returns, or goes on with the loop's variables.\<close>

datatype 'f reader_step =
    Return "bytes option" "'f log_reader"
  | Again (in_fragmented: bool) (scratch: bytes) (prospective: u64) (fragment: bytes) (reader: "'f log_reader")

definition ReadRecord_switch ::
  "u32 \<Rightarrow> u64 \<Rightarrow> bool \<Rightarrow> bytes \<Rightarrow> u64 \<Rightarrow> bytes \<Rightarrow> 'f log_reader \<Rightarrow> 'f reader_step" where
  "ReadRecord_switch t physical in_frag scr prosp frag r =
     (if t = kFullType
      then let r = (if in_frag \<and> scr \<noteq> []
                    then ReportCorruption (slice_size scr) ''partial record without end(1)'' r else r)
           in Return (Some frag) (r\<lparr>last_record_offset := physical\<rparr>)
      else if t = kFirstType
      then let r = (if in_frag \<and> scr \<noteq> []
                    then ReportCorruption (slice_size scr) ''partial record without end(2)'' r else r)
           in Again True frag physical frag r
      else if t = kMiddleType
      then if \<not> in_frag
           then Again in_frag scr prosp frag
                  (ReportCorruption (slice_size frag) ''missing start of fragmented record(1)'' r)
           else Again in_frag (scr @ frag) prosp frag r
      else if t = kLastType
      then if \<not> in_frag
           then Again in_frag scr prosp frag
                  (ReportCorruption (slice_size frag) ''missing start of fragmented record(2)'' r)
           else Return (Some (scr @ frag)) (r\<lparr>last_record_offset := prosp\<rparr>)
      else if t = kEof then Return None r
      else if t = kBadRecord
      then if in_frag
           then Again False [] prosp frag (ReportCorruption (slice_size scr) ''error in middle of record'' r)
           else Again in_frag scr prosp frag r
      else Again False [] prosp frag
             (ReportDrop (slice_size frag + (if in_frag then slice_size scr else 0)) (Unknown_type t) r))"

definition ReadRecord_step ::
  "'f sequential_ops \<Rightarrow> bool \<Rightarrow> bytes \<Rightarrow> u64 \<Rightarrow> bytes \<Rightarrow> 'f log_reader \<Rightarrow> 'f reader_step" where
  "ReadRecord_step ops in_frag scr prosp frag r =
     (let (t, frag, r) = ReadPhysicalRecord ops frag r;
          physical = end_of_buffer_offset r - slice_size (buffer r) - of_nat kHeaderSize - slice_size frag
      in if resyncing r
         then if t = kMiddleType then Again in_frag scr prosp frag r
              else let r = r\<lparr>resyncing := False\<rparr>
                   in if t = kLastType then Again in_frag scr prosp frag r
                      else ReadRecord_switch t physical in_frag scr prosp frag r
         else ReadRecord_switch t physical in_frag scr prosp frag r)"

partial_function (option) ReadRecord_loop ::
  "'f sequential_ops \<Rightarrow> bool \<Rightarrow> bytes \<Rightarrow> u64 \<Rightarrow> bytes \<Rightarrow> 'f log_reader \<Rightarrow> (bytes option \<times> 'f log_reader) option" where
  [code]: "ReadRecord_loop ops in_frag scr prosp frag r =
     (case ReadRecord_step ops in_frag scr prosp frag r of
        Return res r' \<Rightarrow> Some (res, r')
      | Again i s p g r' \<Rightarrow> ReadRecord_loop ops i s p g r')"

definition ReadRecord :: "'f sequential_ops \<Rightarrow> 'f log_reader \<Rightarrow> (bytes option \<times> 'f log_reader) option" where
  "ReadRecord ops r =
     (let (ok, r) = (if last_record_offset r < initial_offset r then SkipToInitialBlock ops r else (True, r))
      in if \<not> ok then Some (None, r) else ReadRecord_loop ops False [] 0 [] r)"

text \<open>The loop of \<^verbatim>\<open>DBImpl::RecoverLogFile\<close> over the records of a log.\<close>

partial_function (option) read_log :: "'f sequential_ops \<Rightarrow> 'f log_reader \<Rightarrow> (bytes list \<times> 'f log_reader) option" where
  [code]: "read_log ops r =
     (case ReadRecord ops r of
        None \<Rightarrow> None
      | Some (None, r') \<Rightarrow> Some ([], r')
      | Some (Some rec, r') \<Rightarrow>
          Option.bind (read_log ops r') (\<lambda>(recs, r''). Some (rec # recs, r'')))"

end
