(* ===== verification/Ldb_Recover.thy ===== *)
theory Ldb_Recover
  imports Ldb_Log
begin

text \<open>
  What the writer of a log and its reader do together. The layout of a log is stated once, as the bytes a
  list of records becomes; the writer is proved to append exactly these, and the reader to take any prefix of
  them for the records that are complete in it, without reporting a corruption.
\<close>

section \<open>The layout of a log\<close>

definition physical :: "u32 \<Rightarrow> bytes \<Rightarrow> bytes" where
  "physical t d =
     EncodeFixed32 (Mask (crc32c 0 (ucast t # d))) @
     [of_nat (length d) AND 0xff, of_nat (length d div 256), ucast t] @ d"

definition trailer :: "nat \<Rightarrow> bytes" where
  "trailer off = (if kBlockSize - off < kHeaderSize then replicate (kBlockSize - off) 0 else [])"

definition start_offset :: "nat \<Rightarrow> nat" where
  "start_offset off = (if kBlockSize - off < kHeaderSize then 0 else off)"

definition fragment_length :: "nat \<Rightarrow> bytes \<Rightarrow> nat" where
  "fragment_length off data = min (length data) (kBlockSize - start_offset off - kHeaderSize)"

text \<open>The bytes of a record that starts at an offset of its block, and the offset after it.\<close>

function record_bytes :: "bool \<Rightarrow> nat \<Rightarrow> bytes \<Rightarrow> bytes \<times> nat" where
  "record_bytes first off data =
     (let n = fragment_length off data;
          p = trailer off @ physical (fragment_type first (length data = n)) (take n data);
          off' = start_offset off + (kHeaderSize + n)
      in if n < length data
         then let (bs, off'') = record_bytes False off' (drop n data) in (p @ bs, off'')
         else (p, off'))"
  by auto
termination
proof (relation "measure (\<lambda>(first, off, data).
    2 * length data + (if kBlockSize - off = kHeaderSize then 1 else 0))", goal_cases)
  case (2 first off data n p off')
  show ?case
  proof (cases "n = 0")
    case True
    then have "kBlockSize - start_offset off - kHeaderSize = 0" using 2 by (simp add: fragment_length_def min_def split: if_splits)
    then have "kBlockSize - off = kHeaderSize" "start_offset off = off"
      by (simp_all add: start_offset_def log_sizes split: if_splits)
    then show ?thesis using True 2 by (simp add: log_sizes)
  next
    case False
    then show ?thesis using 2 by auto
  qed
qed simp

declare record_bytes.simps [simp del]

fun log_bytes :: "nat \<Rightarrow> bytes list \<Rightarrow> bytes" where
  "log_bytes off [] = []"
| "log_bytes off (r # rs) = fst (record_bytes True off r) @ log_bytes (snd (record_bytes True off r)) rs"

text \<open>How many records are complete in the first \<open>n\<close> bytes.\<close>

fun complete_records :: "nat \<Rightarrow> nat \<Rightarrow> bytes list \<Rightarrow> nat" where
  "complete_records off n [] = 0"
| "complete_records off n (r # rs) =
     (let (bs, off') = record_bytes True off r
      in if length bs \<le> n then Suc (complete_records off' (n - length bs) rs) else 0)"

lemma length_physical: "length (physical t d) = kHeaderSize + length d"
  by (simp add: physical_def log_sizes)

lemma fragment_fits: "start_offset off + (kHeaderSize + fragment_length off data) \<le> kBlockSize"
  by (auto simp: fragment_length_def start_offset_def log_sizes)

lemma start_offset_simps:
  "length (trailer off) < kHeaderSize"
  "kHeaderSize \<le> kBlockSize - off \<Longrightarrow> trailer off = [] \<and> start_offset off = off"
  "kBlockSize - off < kHeaderSize \<Longrightarrow> trailer off = replicate (kBlockSize - off) 0 \<and> start_offset off = 0"
  by (simp_all add: trailer_def start_offset_def) (simp add: log_sizes)

lemma record_bytes_offset: "snd (record_bytes first off data) \<le> kBlockSize"
proof (induction first off data rule: record_bytes.induct)
  case (1 first off data)
  then show ?case
    using fragment_fits [of off data]
    by (subst record_bytes.simps) (simp add: Let_def case_prod_beta)
qed

section \<open>The writer appends the layout\<close>

text \<open>What adding a record does to the file: all of its bytes, or some of them and a failure.\<close>

definition appended :: "('s \<Rightarrow> bytes) \<Rightarrow> ('s \<Rightarrow> bytes) \<Rightarrow> 's log_writer \<Rightarrow> bytes \<times> nat \<Rightarrow> bool \<Rightarrow> 's log_writer \<Rightarrow> bool" where
  "appended contents durable w b ok w' \<longleftrightarrow>
     prefix (contents (dest w')) (contents (dest w) @ fst b) \<and> prefix (durable (dest w)) (durable (dest w')) \<and>
     type_crc w' = type_crc w \<and>
     (ok \<longrightarrow> contents (dest w') = contents (dest w) @ fst b \<and> durable (dest w') = contents (dest w') \<and>
        block_offset w' = snd b)"

text \<open>Records are added one after the other, up to the first failure. The result counts the successes.\<close>

fun add_records :: "'s writable_ops \<Rightarrow> (u64 \<times> bytes) list \<Rightarrow> 's log_writer \<Rightarrow> (nat \<times> 's log_writer) option" where
  "add_records ops [] w = Some (0, w)"
| "add_records ops ((ptr, d) # rs) w =
     (case AddRecord ops ptr d w of
        None \<Rightarrow> None
      | Some (ok, w2) \<Rightarrow>
          if ok then map_option (\<lambda>(k, w'). (Suc k, w')) (add_records ops rs w2) else Some (0, w2))"

lemma AddRecord_loop_unfold:
  fixes data :: bytes
  assumes "switch_block ops w = Some w1"
  defines "n \<equiv> fragment_length (block_offset w) data"
  shows "AddRecord_loop ops first ptr data w =
    (case EmitPhysicalRecord ops (fragment_type first (length data = n)) ptr (take n data) w1 of
       None \<Rightarrow> None
     | Some (ok, w2) \<Rightarrow>
         if ok \<and> n < length data then AddRecord_loop ops False (ptr + of_nat n) (drop n data) w2 else Some (ok, w2))"
proof -
  have n: "(if length data < kBlockSize - block_offset w1 - kHeaderSize then length data
      else kBlockSize - block_offset w1 - kHeaderSize) = n"
    using switch_block_offset [OF assms(1)] unfolding n_def fragment_length_def start_offset_def by simp
  have d: "0 < length (drop n data) \<longleftrightarrow> n < length data" by auto
  show ?thesis
    unfolding AddRecord_loop.simps [of ops first ptr data w] assms(1) option.case Let_def n d ..
qed

text \<open>
  The status of appending a trailer is ignored, so the writer also relies on its file to have room for a few
  bytes after a flush.
\<close>

locale buffered_file = writable_file +
  assumes small_append:
    "contents s = durable s \<Longrightarrow> length d < kHeaderSize \<Longrightarrow> op_append ops d s = Some (ok, s') \<Longrightarrow> ok"
begin

lemma EmitPhysicalRecord_contents:
  assumes "EmitPhysicalRecord ops t ptr d w = Some (ok, w')"
    and "type_crc w = InitTypeCrc a" "t \<le> kMaxRecordType"
  shows "prefix (contents (dest w')) (contents (dest w) @ physical t d)"
    "ok \<Longrightarrow> contents (dest w') = contents (dest w) @ physical t d \<and> durable (dest w') = contents (dest w')"
    "prefix (durable (dest w)) (durable (dest w'))" "type_crc w' = type_crc w"
proof -
  let ?crc = "Mask (Extend ptr (type_crc w ! unat t) d)"
  let ?header = "EncodeFixed32 ?crc @ [of_nat (length d) AND 0xff, of_nat (length d div 256), ucast t]"
  have t: "unat t < Suc (unat kMaxRecordType)" using assms(3) by (simp add: word_le_nat_alt)
  have "type_crc w ! unat t = crc32c 0 [ucast t]"
    using t by (simp add: assms(2) InitTypeCrc_def crc_Value_def Extend_is_crc32c' nth_map_upt del: upt_Suc)
  then have bytes: "contents (dest w) @ physical t d = (contents (dest w) @ ?header) @ d"
    by (simp add: physical_def Extend_is_crc32c' crc32c_append)
  consider (header) s where "op_append ops ?header (dest w) = Some (False, s)" "dest w' = s" "\<not> ok"
    | (payload) s s2 where "op_append ops ?header (dest w) = Some (True, s)" "op_append ops d s = Some (False, s2)"
        "dest w' = s2" "\<not> ok"
    | (flush) s s2 s3 where "op_append ops ?header (dest w) = Some (True, s)" "op_append ops d s = Some (True, s2)"
        "op_flush ops s2 = Some (ok, s3)" "dest w' = s3"
    using assms(1) unfolding EmitPhysicalRecord_def Let_def by (auto split: option.splits if_splits)
  then have "prefix (contents (dest w')) (contents (dest w) @ physical t d) \<and>
      (ok \<longrightarrow> contents (dest w') = contents (dest w) @ physical t d \<and> durable (dest w') = contents (dest w')) \<and>
      prefix (durable (dest w)) (durable (dest w'))"
  proof cases
    case header
    then show ?thesis
      using prefix_prefix [OF append_prefix [OF header(1)], of d] append_durable [OF header(1)] unfolding bytes by simp
  next
    case payload
    then show ?thesis
      using append_ok [OF payload(1)] append_prefix [OF payload(2)] unfolding bytes
      using append_durable [OF payload(1)] append_durable [OF payload(2)] by (auto intro: prefix_order.trans)
  next
    case flush
    have c: "contents s2 = contents (dest w) @ physical t d"
      using append_ok [OF flush(1)] append_ok [OF flush(2)] unfolding bytes by simp
    show ?thesis
      using flush_prefix [OF flush(3)] flush_ok [of s2 s3] flush(3) append_durable [OF flush(1)]
        append_durable [OF flush(2)] flush_durable [OF flush(3)]
      unfolding c flush(4) by (auto intro: prefix_order.trans)
  qed
  then show "prefix (contents (dest w')) (contents (dest w) @ physical t d)"
    "ok \<Longrightarrow> contents (dest w') = contents (dest w) @ physical t d \<and> durable (dest w') = contents (dest w')"
    "prefix (durable (dest w)) (durable (dest w'))"
    by blast+
  show "type_crc w' = type_crc w"
    using assms(1) by (auto simp: EmitPhysicalRecord_def Let_def split: option.splits if_splits)
qed

lemma switch_block_contents:
  assumes "switch_block ops w = Some w'" "contents (dest w) = durable (dest w)"
  shows "contents (dest w') = contents (dest w) @ trailer (block_offset w)"
    "block_offset w' = start_offset (block_offset w)" "prefix (durable (dest w)) (durable (dest w'))"
    "type_crc w' = type_crc w"
proof -
  show "block_offset w' = start_offset (block_offset w)"
    using switch_block_offset [OF assms(1)] by (simp add: start_offset_def)
  show "type_crc w' = type_crc w"
    using assms(1) by (auto simp: switch_block_def Let_def split: option.splits if_splits)
  let ?n = "kBlockSize - block_offset w"
  show "contents (dest w') = contents (dest w) @ trailer (block_offset w)" "prefix (durable (dest w)) (durable (dest w'))"
  proof (atomize (full), cases "?n < kHeaderSize \<and> 0 < ?n")
    case True
    then obtain ok s where a: "op_append ops (replicate ?n 0) (dest w) = Some (ok, s)" "dest w' = s"
      using assms(1) by (auto simp: switch_block_def Let_def split: option.splits if_splits)
    have ok using small_append [OF assms(2) _ a(1)] True by simp
    then show "contents (dest w') = contents (dest w) @ trailer (block_offset w) \<and>
        prefix (durable (dest w)) (durable (dest w'))"
      using append_ok append_durable [OF a(1)] a True by (simp add: trailer_def)
  next
    case False
    then have "dest w' = dest w" using assms(1) by (auto simp: switch_block_def Let_def split: if_splits)
    then show "contents (dest w') = contents (dest w) @ trailer (block_offset w) \<and>
        prefix (durable (dest w)) (durable (dest w'))"
      using False by (auto simp: trailer_def)
  qed
qed

lemma AddRecord_loop_contents:
  assumes "AddRecord_loop ops first ptr data w = Some (ok, w')" "contents (dest w) = durable (dest w)"
    "type_crc w = InitTypeCrc a"
  shows "appended contents durable w (record_bytes first (block_offset w) data) ok w'"
  using assms
proof (induction first "block_offset w" data arbitrary: ptr w ok w' rule: record_bytes.induct)
  case (1 first data w)
  let ?off = "block_offset w"
  let ?n = "fragment_length ?off data"
  let ?t = "fragment_type first (length data = ?n)"
  obtain w1 where w1: "switch_block ops w = Some w1"
    using 1(2) by (auto simp: AddRecord_loop.simps [of ops first ptr data w] split: option.splits)
  note sw = switch_block_contents [OF w1 1(3)]
  obtain ok1 w2 where w2: "EmitPhysicalRecord ops ?t ptr (take ?n data) w1 = Some (ok1, w2)"
    and res: "if ok1 \<and> ?n < length data
      then AddRecord_loop ops False (ptr + of_nat ?n) (drop ?n data) w2 = Some (ok, w') else ok = ok1 \<and> w' = w2"
    using 1(2) unfolding AddRecord_loop_unfold [OF w1] by (auto split: option.splits if_splits)
  have t: "?t \<le> kMaxRecordType" by (simp add: fragment_type_def record_type_defs)
  have crc: "type_crc w1 = InitTypeCrc a" using sw(4) 1(4) by simp
  note em = EmitPhysicalRecord_contents [OF w2 crc t]
  let ?p = "trailer ?off @ physical ?t (take ?n data)"
  have pre: "prefix (contents (dest w2)) (contents (dest w) @ ?p)" "type_crc w2 = type_crc w"
    "ok1 \<Longrightarrow> contents (dest w2) = contents (dest w) @ ?p \<and> durable (dest w2) = contents (dest w2)"
    "prefix (durable (dest w)) (durable (dest w2))"
    using em sw by (auto intro: prefix_order.trans)
  have off: "block_offset w2 = start_offset ?off + (kHeaderSize + ?n)"
    using EmitPhysicalRecord_offset [OF w2] sw(2) by (simp add: fragment_length_def)
  show ?case
  proof (cases "ok1 \<and> ?n < length data")
    case True
    let ?rest = "record_bytes False (start_offset ?off + (kHeaderSize + ?n)) (drop ?n data)"
    have rb: "record_bytes first ?off data = (?p @ fst ?rest, snd ?rest)"
      using True by (simp add: record_bytes.simps [of first ?off] Let_def case_prod_beta)
    have "appended contents durable w2 ?rest ok w'"
      unfolding off [symmetric]
    proof (rule 1(1) [OF refl refl off])
      show "AddRecord_loop ops False (ptr + of_nat ?n) (drop ?n data) w2 = Some (ok, w')" using True res by simp
    qed (use True pre 1(4) in simp_all)
    then show ?thesis
      using pre True unfolding rb appended_def by (auto intro: prefix_order.trans)
  next
    case False
    then have w': "ok = ok1" "w' = w2" using res by auto
    have le: "?n \<le> length data" by (simp add: fragment_length_def)
    show ?thesis
    proof (cases "?n < length data")
      case True
      then have "\<not> ok" using False w' by simp
      then show ?thesis
        using pre(1,2,4) w' True
        by (simp add: appended_def record_bytes.simps [of first ?off] Let_def case_prod_beta)
          (metis append.assoc prefix_prefix)
    next
      case nlt: False
      then show ?thesis
        using pre w' off by (simp add: appended_def record_bytes.simps [of first ?off] Let_def case_prod_beta)
    qed
  qed
qed

lemma add_records_contents:
  assumes "add_records ops rs w = Some (k, w')" "contents (dest w) = durable (dest w)"
    "type_crc w = InitTypeCrc a"
  shows "k \<le> length rs"
    "prefix (durable (dest w')) (contents (dest w) @ log_bytes (block_offset w) (map snd rs))"
    "prefix (contents (dest w) @ log_bytes (block_offset w) (take k (map snd rs))) (durable (dest w'))"
proof -
  have "k \<le> length rs \<and>
      prefix (durable (dest w')) (contents (dest w) @ log_bytes (block_offset w) (map snd rs)) \<and>
      prefix (contents (dest w) @ log_bytes (block_offset w) (take k (map snd rs))) (durable (dest w'))"
    using assms
  proof (induction rs arbitrary: w k)
    case Nil
    then show ?case by simp
  next
    case (Cons r rs)
    obtain ptr d where r: "r = (ptr, d)" by force
    from Cons.prems(1) obtain ok w2 where w2: "AddRecord ops ptr d w = Some (ok, w2)"
      by (auto simp: r split: option.splits)
    let ?b = "record_bytes True (block_offset w) d"
    have app: "appended contents durable w ?b ok w2"
      using AddRecord_loop_contents Cons.prems(2,3) w2 by (simp add: AddRecord_def)
    show ?case
    proof (cases ok)
      case True
      then obtain j where j: "k = Suc j" "add_records ops rs w2 = Some (j, w')"
        using Cons.prems(1) w2 by (auto simp: r split: option.splits)
      show ?thesis
        using Cons.IH [OF j(2)] app True Cons.prems(3) by (simp add: appended_def j(1) r)
    next
      case False
      then have k: "k = 0" "w' = w2" using Cons.prems(1) w2 by (auto simp: r)
      have "prefix (durable (dest w2)) (contents (dest w) @ fst ?b)"
        using app durable_contents [of "dest w2"] by (auto simp: appended_def intro: prefix_order.trans)
      then have "prefix (durable (dest w2)) ((contents (dest w) @ fst ?b) @ log_bytes (snd ?b) (map snd rs))"
        by (rule prefix_prefix)
      then show ?thesis using app Cons.prems(2) by (simp add: k appended_def r)
    qed
  qed
  then show "k \<le> length rs"
    "prefix (durable (dest w')) (contents (dest w) @ log_bytes (block_offset w) (map snd rs))"
    "prefix (contents (dest w) @ log_bytes (block_offset w) (take k (map snd rs))) (durable (dest w'))"
    by blast+
qed

end

interpretation posix_log: buffered_file posix_writable_ops posix_contents disk
proof unfold_locales
  fix s d ok s'
  assume "posix_contents s = disk s" "length d < kHeaderSize"
    "op_append posix_writable_ops d s = Some (ok, s')"
  then show ok
    by (simp add: posix_contents_def posix_writable_ops_def posix_Append_def kWritableFileBufferSize_def
        log_sizes Let_def)
qed

section \<open>The reader takes the layout apart\<close>

lemma length_field:
  assumes "n < 65536"
  shows "unat (((ucast (of_nat n AND 0xff :: u8) AND 0xff) OR push_bit 8 (ucast (of_nat (n div 256) :: u8) AND 0xff)) :: u32) = n"
proof -
  have small: "bit n k \<Longrightarrow> k < 16" for k
    using assms take_bit_nat_eq_self [of n 16] by (simp add: bit_take_bit_iff) (metis bit_take_bit_iff)
  have d: "bit (n div 256) k = bit n (k + 8)" for k
    using bit_drop_bit_eq [of 8 n] by (simp add: drop_bit_eq_div fun_eq_iff add.commute)
  have "((ucast (of_nat n AND 0xff :: u8) AND 0xff) OR push_bit 8 (ucast (of_nat (n div 256) :: u8) AND 0xff)) = (of_nat n :: u32)"
    (is "?l = _")
  proof (rule bit_word_eqI)
    fix k assume "k < LENGTH(32)"
    then show "bit ?l k = bit (of_nat n :: u32) k"
      unfolding and_FF by (cases "k < 8") (auto simp: bit_simps d dest: small)
  qed
  then show ?thesis using assms by (simp add: unat_u32_of_nat)
qed

text \<open>The types the writer uses, read back through a signed character.\<close>

definition fragment_types :: "u32 set" where
  "fragment_types = {kFullType, kFirstType, kMiddleType, kLastType}"

lemma fragment_type_in: "fragment_type first final \<in> fragment_types"
  by (simp add: fragment_type_def fragment_types_def)

lemma fragment_type_byte:
  "t \<in> fragment_types \<Longrightarrow> scast (ucast t :: u8) = t \<and> t \<noteq> kZeroType \<and> t \<noteq> kEof \<and> t \<noteq> kBadRecord"
  by (auto simp: fragment_types_def record_type_defs)

lemma parse_header_bytes:
  fixes r :: "'f log_reader"
  assumes "buffer r = EncodeFixed32 (Mask c) @ [of_nat n AND 0xff, of_nat (n div 256), ucast t] @ rest"
    and "n < 65536" "t \<in> fragment_types" "initial_offset r = 0"
  shows "length rest < n \<Longrightarrow> eof r \<Longrightarrow> parse_header frag r = (kEof, frag, r\<lparr>buffer := []\<rparr>)"
    "n \<le> length rest \<Longrightarrow> c = crc32c 0 (ucast t # take n rest) \<Longrightarrow>
       parse_header frag r = (t, take n rest, r\<lparr>buffer := drop n rest, data_ptr := data_ptr r + of_nat (kHeaderSize + n)\<rparr>)"
proof -
  obtain b0 b1 b2 b3 where enc: "EncodeFixed32 (Mask c) = [b0, b1, b2, b3]"
    by (simp add: EncodeFixed32_def)
  let ?h = "[b0, b1, b2, b3, of_nat n AND 0xff, of_nat (n div 256), ucast t] @ rest"
  have h: "buffer r = ?h" using assms(1) by (simp add: enc)
  have crc: "DecodeFixed32 ?h = Mask c"
    using DecodeFixed32_Encode [of "Mask c" "[of_nat n AND 0xff, of_nat (n div 256), ucast t] @ rest"] by (simp add: enc)
  note t = fragment_type_byte [OF assms(3)]
  have len: "unat (((ucast (?h ! 4) AND 0xff) OR push_bit 8 (ucast (?h ! 5) AND 0xff)) :: u32) = n"
    using length_field [OF assms(2)] by simp
  have type: "scast (?h ! 6) = t" using t by simp
  show "length rest < n \<Longrightarrow> eof r \<Longrightarrow> parse_header frag r = (kEof, frag, r\<lparr>buffer := []\<rparr>)"
    unfolding parse_header_def Let_def h len by (simp add: log_sizes)
  assume n: "n \<le> length rest" and c: "c = crc32c 0 (ucast t # take n rest)"
  have val: "crc_Value (data_ptr r + 6) (take (1 + n) (drop 6 ?h)) = Unmask (DecodeFixed32 ?h)"
    unfolding crc Unmask_Mask c by (simp add: crc_Value_def Extend_is_crc32c')
  have dr: "drop (kHeaderSize + n) ?h = drop n rest" by (simp add: log_sizes add.commute flip: drop_drop)
  show "parse_header frag r =
      (t, take n rest, r\<lparr>buffer := drop n rest, data_ptr := data_ptr r + of_nat (kHeaderSize + n)\<rparr>)"
    unfolding parse_header_def Let_def h len type val dr using n t assms(4)
    by (simp add: log_sizes)
qed

text \<open>
  The reader is at offset \<open>off\<close> of a block, \<open>ahead\<close> is what is left of the file from there: the rest of
  the block in its buffer, the rest of the blocks still in the file.
\<close>

definition reading :: "('f \<Rightarrow> bytes) \<Rightarrow> ('f \<Rightarrow> bool) \<Rightarrow> 'f log_reader \<Rightarrow> nat \<Rightarrow> bytes \<Rightarrow> bool" where
  "reading remaining sound r off ahead \<longleftrightarrow>
     sound (src_file r) \<and> ahead = buffer r @ remaining (src_file r) \<and> initial_offset r = 0 \<and> \<not> resyncing r \<and>
     (if eof r then remaining (src_file r) = [] \<and> off + length (buffer r) < kBlockSize
      else off + length (buffer r) = kBlockSize \<or> off = 0 \<and> buffer r = [])"

lemma reading_last_record [simp]:
  "reading remaining sound (r\<lparr>last_record_offset := x\<rparr>) off ahead = reading remaining sound r off ahead"
  by (simp add: reading_def)

definition loaded :: "'f log_reader \<Rightarrow> bool" where
  "loaded r \<longleftrightarrow> eof r \<or> kHeaderSize \<le> length (buffer r)"

context sequential_file
begin

lemma fetch_reading:
  assumes "reading remaining sound r off ahead" "\<not> loaded r"
  obtains r' where "fetch_block ops r = (True, r')" "loaded r'" "reported r' = reported r"
    "reading remaining sound r' 0 (drop (length (buffer r)) ahead)"
proof -
  let ?f = "src_file r"
  have s: "sound ?f" using assms(1) by (simp add: reading_def)
  let ?d = "take kBlockSize (remaining ?f)"
  obtain f2 where op: "op_read ops kBlockSize ?f = (Some ?d, f2)"
    using read_data [OF s, of kBlockSize] by (metis prod.collapse)
  define r' where "r' = r\<lparr>src_file := f2, buffer := ?d, data_ptr := backing_store r,
      end_of_buffer_offset := end_of_buffer_offset r + slice_size ?d, eof := length ?d < kBlockSize\<rparr>"
  have f: "fetch_block ops r = (True, r')"
    by (simp add: fetch_block_def op r'_def)
  have "reading remaining sound r' 0 (drop (length (buffer r)) ahead)"
    using assms(1) read_rest [OF s, of kBlockSize] read_sound [OF s, of kBlockSize]
    by (auto simp: reading_def r'_def op)
  moreover have "loaded r'" by (auto simp: loaded_def r'_def log_sizes)
  ultimately show thesis using that f by (simp add: r'_def)
qed

lemma ReadPhysicalRecord_fetch:
  assumes "\<not> loaded r" "fetch_block ops r = (True, r')"
  shows "ReadPhysicalRecord ops frag r = ReadPhysicalRecord ops frag r'"
  using assms by (subst ReadPhysicalRecord.simps) (simp add: loaded_def)

text \<open>Once a header's worth of bytes is there, or the file is at its end, the record is complete or cut off.\<close>

lemma ReadPhysicalRecord_loaded:
  assumes rd: "reading remaining sound r off (take n (physical t d @ rest))" and "loaded r"
    and fits: "off + (kHeaderSize + length d) \<le> kBlockSize" and t: "t \<in> fragment_types"
  shows "kHeaderSize + length d \<le> n \<Longrightarrow> \<exists>r'. ReadPhysicalRecord ops frag r = (t, d, r') \<and>
      reading remaining sound r' (off + (kHeaderSize + length d)) (take (n - (kHeaderSize + length d)) rest) \<and>
      reported r' = reported r"
    and "n < kHeaderSize + length d \<Longrightarrow> \<exists>r'. ReadPhysicalRecord ops frag r = (kEof, frag, r') \<and>
      reported r' = reported r"
proof -
  let ?n = "kHeaderSize + length d"
  let ?rem = "remaining (src_file r)"
  have len: "length d < 65536" using fits by (simp add: log_sizes)
  have ahead: "take n (physical t d @ rest) = buffer r @ ?rem" and init: "initial_offset r = 0"
    using rd by (auto simp: reading_def)
  have room: "\<not> eof r \<Longrightarrow> ?n \<le> length (buffer r)"
    using rd fits \<open>loaded r\<close> by (auto simp: reading_def loaded_def log_sizes)
  have end_of: "eof r \<Longrightarrow> buffer r = take n (physical t d @ rest)"
    using rd by (auto simp: reading_def)
  show "?n \<le> n \<Longrightarrow> \<exists>r'. ReadPhysicalRecord ops frag r = (t, d, r') \<and>
      reading remaining sound r' (off + ?n) (take (n - ?n) rest) \<and> reported r' = reported r"
  proof -
    assume n: "?n \<le> n"
    have long: "?n \<le> length (buffer r)"
      using room end_of n by (cases "eof r") (auto simp: length_physical)
    have "take ?n (buffer r @ ?rem) = physical t d" "drop ?n (buffer r @ ?rem) = take (n - ?n) rest"
      unfolding ahead [symmetric] using n by (simp_all add: length_physical min_def)
    then have b: "buffer r = physical t d @ drop ?n (buffer r)"
      and a: "take (n - ?n) rest = drop ?n (buffer r) @ ?rem"
      using long by (metis append_take_drop_id take_append diff_is_0_eq' take0 append_Nil2, simp)
    let ?b = "drop ?n (buffer r)"
    let ?r' = "r\<lparr>buffer := ?b, data_ptr := data_ptr r + of_nat ?n\<rparr>"
    have "buffer r = EncodeFixed32 (Mask (crc32c 0 (ucast t # d))) @
        [of_nat (length d) AND 0xff, of_nat (length d div 256), ucast t] @ (d @ ?b)"
      by (subst b) (simp add: physical_def)
    from parse_header_bytes(2) [OF this len t init]
    have "parse_header frag r = (t, d, ?r')" by simp
    then have "ReadPhysicalRecord ops frag r = (t, d, ?r')"
      using long by (subst ReadPhysicalRecord.simps) (simp add: log_sizes)
    moreover have "reading remaining sound ?r' (off + ?n) (take (n - ?n) rest)"
      using rd long fits a by (auto simp: reading_def log_sizes)
    ultimately show ?thesis by (intro exI [of _ ?r']) simp
  qed
  show "n < ?n \<Longrightarrow> \<exists>r'. ReadPhysicalRecord ops frag r = (kEof, frag, r') \<and> reported r' = reported r"
  proof -
    assume n: "n < ?n"
    have le: "length (buffer r) \<le> n" using arg_cong [OF ahead, of length] by simp
    with n room have e: "eof r" by (meson leD le_less_trans)
    have b: "buffer r = take n (physical t d)" using end_of [OF e] n by (simp add: length_physical)
    show ?thesis
    proof (cases "n < kHeaderSize")
      case True
      then have "ReadPhysicalRecord ops frag r = (kEof, frag, r\<lparr>buffer := []\<rparr>)"
        using le e by (subst ReadPhysicalRecord.simps) simp
      then show ?thesis by (intro exI [of _ "r\<lparr>buffer := []\<rparr>"]) simp
    next
      case False
      let ?h = "EncodeFixed32 (Mask (crc32c 0 (ucast t # d))) @
          [of_nat (length d) AND 0xff, of_nat (length d div 256), ucast t]"
      have "length ?h = kHeaderSize" "physical t d = ?h @ d" by (simp_all add: physical_def log_sizes)
      moreover have "take n (h @ x) = h @ take (n - k) x" if "length h = k" "k \<le> n" for h x :: bytes and k
        using that by simp
      ultimately have "take n (physical t d) = ?h @ take (n - kHeaderSize) d"
        using False by (metis not_less)
      then have "buffer r = EncodeFixed32 (Mask (crc32c 0 (ucast t # d))) @
          [of_nat (length d) AND 0xff, of_nat (length d div 256), ucast t] @ take (n - kHeaderSize) d"
        unfolding b by simp
      note ph = parse_header_bytes(1) [OF this len t init _ e]
      have "parse_header frag r = (kEof, frag, r\<lparr>buffer := []\<rparr>)"
        using n False by (intro ph) simp
      moreover have "length (buffer r) = n" using b n by (simp add: length_physical)
      ultimately have "ReadPhysicalRecord ops frag r = (kEof, frag, r\<lparr>buffer := []\<rparr>)"
        using False by (subst ReadPhysicalRecord.simps) simp
      then show ?thesis by (intro exI [of _ "r\<lparr>buffer := []\<rparr>"]) simp
    qed
  qed
qed

lemma ReadPhysicalRecord_at:
  assumes rd: "reading remaining sound r off (take n (trailer off @ physical t d @ rest))"
    and fits: "start_offset off + (kHeaderSize + length d) \<le> kBlockSize" and t: "t \<in> fragment_types"
  defines "m \<equiv> length (trailer off) + (kHeaderSize + length d)"
  shows "m \<le> n \<Longrightarrow> \<exists>r'. ReadPhysicalRecord ops frag r = (t, d, r') \<and>
      reading remaining sound r' (start_offset off + (kHeaderSize + length d)) (take (n - m) rest) \<and>
      reported r' = reported r"
    and "n < m \<Longrightarrow> \<exists>r'. ReadPhysicalRecord ops frag r = (kEof, frag, r') \<and> reported r' = reported r"
proof -
  have "(m \<le> n \<longrightarrow> (\<exists>r'. ReadPhysicalRecord ops frag r = (t, d, r') \<and>
      reading remaining sound r' (start_offset off + (kHeaderSize + length d)) (take (n - m) rest) \<and>
      reported r' = reported r)) \<and>
    (n < m \<longrightarrow> (\<exists>r'. ReadPhysicalRecord ops frag r = (kEof, frag, r') \<and> reported r' = reported r))"
  proof (cases "loaded r")
    case True
    show ?thesis
    proof (cases "kBlockSize - off < kHeaderSize")
      case small: True
      have e: "eof r" using rd True small by (cases "eof r") (auto simp: reading_def loaded_def log_sizes)
      then have "length (buffer r) < kBlockSize - off" "buffer r = take n (trailer off @ physical t d @ rest)"
        using rd by (auto simp: reading_def)
      moreover note tr = start_offset_simps(3) [OF small]
      ultimately have "n < kBlockSize - off" "length (buffer r) < kHeaderSize"
        using small by (auto simp: length_physical min_def split: if_splits)
      then have "n < m" "length (buffer r) < kHeaderSize" by (auto simp: m_def tr)
      then show ?thesis
        using e by (subst ReadPhysicalRecord.simps)
          (auto intro!: exI [of _ "r\<lparr>buffer := []\<rparr>"])
    next
      case False
      then show ?thesis
        using ReadPhysicalRecord_loaded [of r off n t d rest frag] rd True fits t start_offset_simps(2) [of off]
        by (simp add: m_def)
    qed
  next
    case False
    then obtain r1 where r1: "fetch_block ops r = (True, r1)" "loaded r1" "reported r1 = reported r"
      "reading remaining sound r1 0 (drop (length (buffer r)) (take n (trailer off @ physical t d @ rest)))"
      using fetch_reading [OF rd] by metis
    note same = ReadPhysicalRecord_fetch [OF False r1(1)]
    have c: "off + length (buffer r) = kBlockSize \<or> off = 0 \<and> buffer r = []" "length (buffer r) < kHeaderSize"
      using rd False by (auto simp: reading_def loaded_def)
    have b: "length (buffer r) = length (trailer off)" "start_offset off = 0"
      using c start_offset_simps(2,3) [of off] by (auto simp: log_sizes)
    have "take n (trailer off @ physical t d @ rest) = buffer r @ remaining (src_file r)"
      using rd by (simp only: reading_def)
    then have "length (trailer off) \<le> n"
      unfolding b(1) [symmetric] by (metis le_add1 length_append length_take min.bounded_iff)
    moreover from this have "reading remaining sound r1 0 (take (n - length (trailer off)) (physical t d @ rest))"
      using r1(4) by (simp add: b(1))
    ultimately show ?thesis
      using ReadPhysicalRecord_loaded [of r1 0 "n - length (trailer off)" t d rest frag] r1(2,3) fits t
      by (auto simp: same m_def b(2))
  qed
  then show "m \<le> n \<Longrightarrow> \<exists>r'. ReadPhysicalRecord ops frag r = (t, d, r') \<and>
      reading remaining sound r' (start_offset off + (kHeaderSize + length d)) (take (n - m) rest) \<and>
      reported r' = reported r"
    "n < m \<Longrightarrow> \<exists>r'. ReadPhysicalRecord ops frag r = (kEof, frag, r') \<and> reported r' = reported r"
    by blast+
qed

lemma ReadRecord_loop_eof:
  assumes "ReadPhysicalRecord ops frag r = (kEof, frag, r')" "reported r' = reported r"
  shows "\<exists>r''. ReadRecord_loop ops in_frag scr prosp frag r = Some (None, r'') \<and> reported r'' = reported r"
proof -
  have e: "kEof \<noteq> kMiddleType" "kEof \<noteq> kLastType" "kEof \<noteq> kFullType" "kEof \<noteq> kFirstType"
    by (simp_all add: record_type_defs)
  show ?thesis
    using assms e
    by (subst ReadRecord_loop.simps) (simp add: ReadRecord_step_def ReadRecord_switch_def Let_def)
qed

lemma ReadRecord_loop_at:
  assumes "reading remaining sound r off (take n (fst (record_bytes first off data) @ rest))" "first \<Longrightarrow> scr = []"
  shows "(length (fst (record_bytes first off data)) \<le> n \<longrightarrow>
      (\<exists>r'. ReadRecord_loop ops (\<not> first) scr prosp frag r = Some (Some (scr @ data), r') \<and>
         reading remaining sound r' (snd (record_bytes first off data))
           (take (n - length (fst (record_bytes first off data))) rest) \<and>
         reported r' = reported r)) \<and>
    (n < length (fst (record_bytes first off data)) \<longrightarrow>
      (\<exists>r'. ReadRecord_loop ops (\<not> first) scr prosp frag r = Some (None, r') \<and> reported r' = reported r))"
  using assms
proof (induction first off data arbitrary: r n scr prosp frag rule: record_bytes.induct)
  case (1 first off data)
  let ?k = "fragment_length off data"
  let ?t = "fragment_type first (length data = ?k)" and ?d = "take ?k data"
  let ?off = "start_offset off + (kHeaderSize + ?k)"
  let ?p = "trailer off @ physical ?t ?d"
  let ?tail = "if ?k < length data then fst (record_bytes False ?off (drop ?k data)) else []"
  let ?stop = "if ?k < length data then snd (record_bytes False ?off (drop ?k data)) else ?off"
  have rb: "record_bytes first off data = (?p @ ?tail, ?stop)"
    by (simp add: record_bytes.simps [of first] Let_def case_prod_beta)
  have k: "length ?d = ?k" by (simp add: fragment_length_def)
  have rd: "reading remaining sound r off (take n (trailer off @ physical ?t ?d @ (?tail @ rest)))"
    using "1.prems"(1) by (simp only: rb fst_conv append_assoc)
  have fits: "start_offset off + (kHeaderSize + length ?d) \<le> kBlockSize"
    unfolding k by (rule fragment_fits)
  note at = ReadPhysicalRecord_at [OF rd fits fragment_type_in, of frag, unfolded k]
  let ?m = "length (trailer off) + (kHeaderSize + ?k)"
  have m: "length ?p = ?m" by (simp add: length_physical fragment_length_def)
  show ?case
  proof (cases "n < ?m")
    case True
    then obtain r' where "ReadPhysicalRecord ops frag r = (kEof, frag, r')" "reported r' = reported r"
      using at(2) by blast
    from ReadRecord_loop_eof [OF this, of "\<not> first" scr prosp] True m show ?thesis
      by (simp add: rb)
  next
    case False
    then obtain r1 where r1: "ReadPhysicalRecord ops frag r = (?t, ?d, r1)"
      "reading remaining sound r1 ?off (take (n - ?m) (?tail @ rest))" "reported r1 = reported r"
      using at(1) by (metis not_less)
    let ?ph = "end_of_buffer_offset r1 - slice_size (buffer r1) - of_nat kHeaderSize - slice_size ?d"
    have "\<not> resyncing r1" using r1(2) by (simp add: reading_def)
    then have step: "ReadRecord_loop ops (\<not> first) scr prosp frag r =
        (case ReadRecord_switch ?t ?ph (\<not> first) scr prosp ?d r1 of
           Return res r' \<Rightarrow> Some (res, r') | Again i s p g r' \<Rightarrow> ReadRecord_loop ops i s p g r')"
      by (subst ReadRecord_loop.simps) (simp add: ReadRecord_step_def r1(1) Let_def)
    show ?thesis
    proof (cases "?k < length data")
      case True
      obtain p where "ReadRecord_loop ops (\<not> first) scr prosp frag r = ReadRecord_loop ops True (scr @ ?d) p ?d r1"
        unfolding step using True "1.prems"(2)
        by (cases first) (auto simp: ReadRecord_switch_def fragment_type_def record_type_defs)
      moreover have "reading remaining sound r1 ?off (take (n - ?m) (fst (record_bytes False ?off (drop ?k data)) @ rest))"
        using r1(2) True by simp
      note IH = "1.IH" [OF refl refl refl True this, of "scr @ ?d" p ?d]
      ultimately show ?thesis
        using IH True False r1(3) m by (auto simp: rb add.assoc)
    next
      case last: False
      then have d: "?d = data" "length data = ?k" using k by auto
      have t: "?t = (if first then kFullType else kLastType)" using d(2) by (simp add: fragment_type_def)
      have "ReadRecord_switch ?t ?ph (\<not> first) scr prosp ?d r1 =
          Return (Some (scr @ data)) (r1\<lparr>last_record_offset := if first then ?ph else prosp\<rparr>)"
        unfolding t using "1.prems"(2) d(1)
        by (cases first) (simp_all add: ReadRecord_switch_def record_type_defs)
      then obtain p where "ReadRecord_loop ops (\<not> first) scr prosp frag r =
          Some (Some (scr @ data), r1\<lparr>last_record_offset := p\<rparr>)"
        unfolding step by simp
      moreover have "reading remaining sound (r1\<lparr>last_record_offset := p\<rparr>) ?off (take (n - ?m) rest)"
        using r1(2) last by simp
      moreover have "reported (r1\<lparr>last_record_offset := p\<rparr>) = reported r" using r1(3) by simp
      ultimately show ?thesis using last False m by (auto simp: rb)
    qed
  qed
qed

lemma ReadPhysicalRecord_empty:
  assumes "reading remaining sound r off []"
  shows "\<exists>r'. ReadPhysicalRecord ops frag r = (kEof, frag, r') \<and> reported r' = reported r"
proof -
  have stop: "ReadPhysicalRecord ops frag r = (kEof, frag, r\<lparr>buffer := []\<rparr>)"
    if "reading remaining sound r off []" "loaded r" for r off
    using that by (subst ReadPhysicalRecord.simps) (auto simp: reading_def loaded_def log_sizes)
  show ?thesis
  proof (cases "loaded r")
    case True
    then show ?thesis using stop assms by (intro exI [of _ "r\<lparr>buffer := []\<rparr>"]) simp
  next
    case False
    then obtain r1 where r1: "fetch_block ops r = (True, r1)" "loaded r1" "reported r1 = reported r"
      "reading remaining sound r1 0 []"
      using fetch_reading [OF assms] by (metis drop_Nil)
    then show ?thesis
      using stop ReadPhysicalRecord_fetch [OF False r1(1)] by (intro exI [of _ "r1\<lparr>buffer := []\<rparr>"]) simp
  qed
qed

lemma ReadRecord_unskipped: "initial_offset r = 0 \<Longrightarrow> ReadRecord ops r = ReadRecord_loop ops False [] 0 [] r"
  by (simp add: ReadRecord_def)

lemma ReadRecord_at_end:
  assumes "reading remaining sound r off []"
  shows "\<exists>r'. ReadRecord ops r = Some (None, r') \<and> reported r' = reported r"
proof -
  obtain r' where "ReadPhysicalRecord ops [] r = (kEof, [], r')" "reported r' = reported r"
    using assms ReadPhysicalRecord_empty by fastforce
  from ReadRecord_loop_eof [OF this, of False "[]" 0] show ?thesis
    using assms by (auto simp: reading_def ReadRecord_unskipped)
qed

lemma ReadRecord_at:
  fixes rec :: bytes
  assumes "reading remaining sound r off (take n (fst b @ rest))" and b: "b = record_bytes True off rec"
  shows "length (fst b) \<le> n \<longrightarrow> (\<exists>r'. ReadRecord ops r = Some (Some rec, r') \<and> reported r' = reported r
      \<and> reading remaining sound r' (snd b) (take (n - length (fst b)) rest))"
    and "n < length (fst b) \<longrightarrow> (\<exists>r'. ReadRecord ops r = Some (None, r') \<and> reported r' = reported r)"
proof -
  have "initial_offset r = 0" using assms(1) by (simp add: reading_def)
  then show "length (fst b) \<le> n \<longrightarrow> (\<exists>r'. ReadRecord ops r = Some (Some rec, r') \<and> reported r' = reported r
      \<and> reading remaining sound r' (snd b) (take (n - length (fst b)) rest))"
    and "n < length (fst b) \<longrightarrow> (\<exists>r'. ReadRecord ops r = Some (None, r') \<and> reported r' = reported r)"
    using ReadRecord_loop_at [OF assms(1) [unfolded b] refl, of 0 "[]", simplified]
    by (auto simp: ReadRecord_unskipped b)
qed

lemma read_log_at:
  "reading remaining sound r off (take n (log_bytes off recs)) \<Longrightarrow>
     \<exists>r'. read_log ops r = Some (take (complete_records off n recs) recs, r') \<and> reported r' = reported r"
proof (induction recs arbitrary: r off n)
  case Nil
  then show ?case
    using ReadRecord_at_end [of r off] by (subst read_log.simps) auto
next
  case (Cons rec recs)
  let ?b = "record_bytes True off rec"
  have rd: "reading remaining sound r off (take n (fst ?b @ log_bytes (snd ?b) recs))"
    using Cons.prems by simp
  show ?case
  proof (cases "length (fst ?b) \<le> n")
    case True
    then obtain r1 where r1: "ReadRecord ops r = Some (Some rec, r1)" "reported r1 = reported r"
      "reading remaining sound r1 (snd ?b) (take (n - length (fst ?b)) (log_bytes (snd ?b) recs))"
      using ReadRecord_at(1) [OF rd refl] by blast
    from Cons.IH [OF r1(3)] show ?thesis
      using True r1(1,2) by (subst read_log.simps) (auto simp: case_prod_beta)
  next
    case False
    then obtain r1 where "ReadRecord ops r = Some (None, r1)" "reported r1 = reported r"
      using ReadRecord_at(2) [OF rd refl] by auto
    then show ?thesis using False by (subst read_log.simps) (auto simp: case_prod_beta)
  qed
qed

lemma reading_start:
  assumes "sound f"
  shows "reading remaining sound (log_Reader f reporter check 0 store) 0 (remaining f)"
  using assms by (simp add: reading_def log_Reader_def)

end

section \<open>A crash loses only the tail\<close>

lemma complete_records_prefix:
  "k \<le> length recs \<Longrightarrow> length (log_bytes off (take k recs)) \<le> n \<Longrightarrow> k \<le> complete_records off n recs"
proof (induction recs arbitrary: k off n)
  case (Cons rec recs)
  show ?case
  proof (cases k)
    case (Suc j)
    let ?b = "record_bytes True off rec"
    have "length (log_bytes (snd ?b) (take j recs)) \<le> n - length (fst ?b)" "length (fst ?b) \<le> n"
      using Cons.prems Suc by auto
    then show ?thesis using Cons.IH [of j "snd ?b"] Cons.prems Suc by (simp add: case_prod_beta)
  qed simp
qed simp

text \<open>
  Property C6: whatever part of a log's bytes is there, its reader returns exactly the records that are complete in
  them, in order, and reports no corruption: a log cut off anywhere by a crash loses only its tail. With all
  bytes there it returns all records.
\<close>

theorem log_cut_anywhere:
  assumes "fd_bytes f = take n (log_bytes 0 recs)" "reads_succeed f"
  shows "\<exists>r'. read_log posix_sequential_ops (log_Reader f reporter check 0 store) =
      Some (take (complete_records 0 n recs) recs, r') \<and> reported r' = []"
  using posix_source.read_log_at [of "log_Reader f reporter check 0 store" 0 n recs]
    posix_source.reading_start [OF assms(2), of reporter check store] assms(1)
  by (simp add: log_Reader_def)

theorem log_cut_anywhere_witness:
  "\<exists>r'. read_log posix_sequential_ops
      (log_Reader \<lparr>fd_bytes = take 12 (log_bytes 0 [[1, 2, 3], [4]]), fd_answers = (\<lambda>i. (i, True)), fd_calls = 0\<rparr> True True 0 0) =
    Some ([[1, 2, 3]], r') \<and> reported r' = []"
  using log_cut_anywhere [of "\<lparr>fd_bytes = take 12 (log_bytes 0 [[1, 2, 3], [4]]), fd_answers = (\<lambda>i. (i, True)), fd_calls = 0\<rparr>"
      12 "[[1, 2, 3], [4]]" True True 0]
  by (simp add: reads_succeed_def record_bytes.simps [of True 0 "[1, 2, 3]"] record_bytes.simps [of True 10 "[4]"]
      Let_def fragment_length_def start_offset_def trailer_def length_physical log_sizes)

text \<open>What a fresh log leaves on the disk: a first part of its layout with every record that was acknowledged.\<close>

lemma add_records_on_disk:
  assumes "add_records posix_writable_ops rs (log_Writer addr \<lparr>disk = [], buf = [], answers = ws\<rparr>) = Some (k, w')"
  shows "\<exists>n. disk (dest w') = take n (log_bytes 0 (map snd rs)) \<and> k \<le> complete_records 0 n (map snd rs)"
proof -
  let ?w = "log_Writer addr \<lparr>disk = [], buf = [], answers = ws\<rparr>"
  have w: "posix_contents (dest ?w) = disk (dest ?w)" "type_crc ?w = InitTypeCrc addr" "block_offset ?w = 0"
    "posix_contents (dest ?w) = []"
    by (simp_all add: log_Writer_def posix_contents_def)
  note added = posix_log.add_records_contents [OF assms(1) w(1,2), unfolded w(3,4) append_Nil]
  obtain rest where "log_bytes 0 (map snd rs) = disk (dest w') @ rest" using added(2) by (elim prefixE)
  then have "disk (dest w') = take (length (disk (dest w'))) (log_bytes 0 (map snd rs))" by simp
  moreover have "k \<le> complete_records 0 (length (disk (dest w'))) (map snd rs)"
    using added(1) prefix_length_le [OF added(3)] by (intro complete_records_prefix) simp_all
  ultimately show ?thesis by blast
qed



end
