(* ===== verification/Ldb_Store.thy ===== *)
theory Ldb_Store
  imports Ldb_Batch Ldb_Recover
begin

text \<open>
  Writing to the database and recovering it (\<^verbatim>\<open>DBImpl::Write\<close>, \<^verbatim>\<open>DBImpl::RecoverLogFile\<close> in \<^verbatim>\<open>db/db_impl.cc\<close>): a group of
  batches goes to the log and then to the memtable; after a crash the log is read into a new memtable. The model covers the
  time between two changes of the memtable, when \<^verbatim>\<open>MakeRoomForWrite\<close> finds room in it.
\<close>

section \<open>Writing\<close>

text \<open>A waiting writer: its batch, absent for a forced compaction, and whether it wants a sync.\<close>

type_synonym writer = "write_batch option \<times> bool"

fun group_loop :: "bool \<Rightarrow> nat \<Rightarrow> write_batch \<Rightarrow> nat \<Rightarrow> bool \<Rightarrow> write_batch \<Rightarrow> nat \<Rightarrow> writer list \<Rightarrow> write_batch \<times> nat" where
  "group_loop first_sync max_size first sz own result n [] = (result, n)"
| "group_loop first_sync max_size first sz own result n ((b, sync) # ws) =
     (if sync \<and> \<not> first_sync then (result, n)
      else case b of
             None \<Rightarrow> group_loop first_sync max_size first sz own result (n + 1) ws
           | Some b \<Rightarrow>
               let sz = sz + length b
               in if max_size < sz then (result, n)
                  else let result = (if own then batch_Append batch_Clear first else result)
                       in group_loop first_sync max_size first sz False (batch_Append result b) (n + 1) ws)"

text \<open>The group's batch and the number of writers it serves. \<open>own\<close> says that the result is still the first writer's batch.\<close>

definition BuildBatchGroup :: "write_batch \<Rightarrow> bool \<Rightarrow> writer list \<Rightarrow> write_batch \<times> nat" where
  "BuildBatchGroup first first_sync ws =
     (let sz = length first; max_size = (if sz \<le> 128 * 1024 then sz + 128 * 1024 else 1024 * 1024)
      in group_loop first_sync max_size first sz True first 1 ws)"

datatype db_status =
    Db_ok
  | Db_io_error
  | Db_corrupt

record 's database =
  db_log :: "'s log_writer"
  db_mem :: memtable
  last_sequence :: u64
  bg_error :: bool

text \<open>
  The status, how many writers it is for, and the database. \<open>ptr\<close> is the address of the group's bytes, \<open>synced\<close> what \<^verbatim>\<open>Sync\<close>
  answers if it is called. A null batch, which forces a compaction, is not modelled.
\<close>

definition db_Write ::
  "'s writable_ops \<Rightarrow> nat \<Rightarrow> comparator_ops \<Rightarrow> u64 \<Rightarrow> bool \<Rightarrow> write_batch \<Rightarrow> bool \<Rightarrow> writer list \<Rightarrow> 's database
     \<Rightarrow> (db_status \<times> nat \<times> 's database) option" where
  "db_Write ops junk user ptr synced first sync ws db =
     (if bg_error db then Some (Db_io_error, 1, db)
      else
          let (group, n) = BuildBatchGroup first sync ws;
              updates = SetSequence group (last_sequence db + 1);
              last = last_sequence db + scast (batch_Count updates)
          in case AddRecord ops ptr updates (db_log db) of
               None \<Rightarrow> None
             | Some (ok, lg) \<Rightarrow>
                 let db' = db\<lparr>db_log := lg, last_sequence := last\<rparr>
                 in if \<not> ok then Some (Db_io_error, n, db')
                    else if sync \<and> \<not> synced then Some (Db_io_error, n, db'\<lparr>bg_error := True\<rparr>)
                    else case InsertInto junk user updates (db_mem db) of
                           (_, None) \<Rightarrow> None
                         | (st, Some m) \<Rightarrow> Some (if st = OK then Db_ok else Db_corrupt, n, db'\<lparr>db_mem := m\<rparr>))"

section \<open>Recovering\<close>

text \<open>
  The loop of \<^verbatim>\<open>RecoverLogFile\<close>. \<open>full\<close> says when the memtable has outgrown its buffer; it then goes to a table of level 0, the last
  list. \<open>small\<close> remembers that a record was too small, which the reporter keeps in the status if checks are paranoid.
\<close>

partial_function (option) recover_loop ::
  "'f sequential_ops \<Rightarrow> nat \<Rightarrow> comparator_ops \<Rightarrow> bool \<Rightarrow> (memtable \<Rightarrow> bool) \<Rightarrow> 'f log_reader \<Rightarrow> bool \<Rightarrow> memtable option \<Rightarrow> u64
     \<Rightarrow> memtable list \<Rightarrow> (db_status \<times> memtable option \<times> u64 \<times> memtable list) option" where
  [code]: "recover_loop ops junk user paranoid full r small mem max_sequence tables =
     (case ReadRecord ops r of
        None \<Rightarrow> None
      | Some (res, r') \<Rightarrow>
          if paranoid \<and> (small \<or> reported r' \<noteq> []) then Some (Db_corrupt, mem, max_sequence, tables)
          else (case res of
                  None \<Rightarrow> Some (Db_ok, mem, max_sequence, tables)
                | Some rec \<Rightarrow>
                    if length rec < 12 then recover_loop ops junk user paranoid full r' True mem max_sequence tables
                    else let m = (case mem of None \<Rightarrow> MemTable junk | Some m \<Rightarrow> m)
                         in case InsertInto junk user rec m of
                              (_, None) \<Rightarrow> None
                            | (st, Some m') \<Rightarrow>
                                if st \<noteq> OK \<and> paranoid then Some (Db_corrupt, Some m', max_sequence, tables)
                                else let last_seq = batch_Sequence rec + scast (batch_Count rec) - 1;
                                         max_sequence = (if last_seq > max_sequence then last_seq else max_sequence)
                                     in if full m' then recover_loop ops junk user paranoid full r' small None max_sequence (tables @ [m'])
                                        else recover_loop ops junk user paranoid full r' small (Some m') max_sequence tables))"

definition RecoverLogFile ::
  "'f sequential_ops \<Rightarrow> nat \<Rightarrow> comparator_ops \<Rightarrow> bool \<Rightarrow> (memtable \<Rightarrow> bool) \<Rightarrow> 'f \<Rightarrow> u64 \<Rightarrow> u64
     \<Rightarrow> (db_status \<times> memtable option \<times> u64 \<times> memtable list) option" where
  "RecoverLogFile ops junk user paranoid full file store max_sequence =
     recover_loop ops junk user paranoid full (log_Reader file True True 0 store) False None max_sequence []"

section \<open>Groups\<close>

text \<open>A writer of the theorems: the operations of its batch, if it has one, and its sync flag.\<close>

type_synonym client = "batch_op list option \<times> bool"

definition writer_of :: "client \<Rightarrow> writer" where
  "writer_of q = (map_option build_batch (fst q), snd q)"

definition client_ops :: "client \<Rightarrow> batch_op list" where
  "client_ops q = (case fst q of None \<Rightarrow> [] | Some ops \<Rightarrow> ops)"

lemma client_simps [simp]:
  "writer_of (o', sync) = (map_option build_batch o', sync)"
  "client_ops (None, sync) = []" "client_ops (Some ops, sync) = ops"
  by (simp_all add: writer_of_def client_ops_def)

lemma build_batch_append: "batch_Append (build_batch xs) (build_batch ys) = build_batch (xs @ ys)"
  by (simp add: build_batch_rep batch_Append_rep)

lemma build_batch_clear: "batch_Append batch_Clear (build_batch xs) = build_batch xs"
  by (simp add: build_batch_rep batch_Append_rep batch_Clear_rep)

lemma group_loop_ops:
  "(own \<Longrightarrow> first = build_batch acc) \<Longrightarrow>
     \<exists>k\<le>length qs. group_loop fs ms first sz own (build_batch acc) n (map writer_of qs)
       = (build_batch (acc @ concat (map client_ops (take k qs))), n + k)"
proof (induction qs arbitrary: acc sz own n)
  case Nil
  then show ?case by simp
next
  case (Cons q qs)
  obtain o' sync where q: "q = (o', sync)" by (cases q)
  show ?case
  proof (cases "sync \<and> \<not> fs")
    case True
    then show ?thesis by (intro exI [of _ 0]) (simp add: q)
  next
    case False
    show ?thesis
    proof (cases o')
      case None
      obtain k where "k \<le> length qs" "group_loop fs ms first sz own (build_batch acc) (n + 1) (map writer_of qs)
          = (build_batch (acc @ concat (map client_ops (take k qs))), n + 1 + k)"
        using Cons.IH [of own acc sz "n + 1"] Cons.prems by blast
      then show ?thesis using False by (intro exI [of _ "Suc k"]) (simp add: q None)
    next
      case (Some ops)
      show ?thesis
      proof (cases "ms < sz + length (build_batch ops)")
        case True
        then show ?thesis using False by (intro exI [of _ 0]) (simp add: q Some)
      next
        case small: False
        have "(if own then batch_Append batch_Clear first else build_batch acc) = build_batch acc"
          using Cons.prems by (simp add: build_batch_clear)
        moreover obtain k where "k \<le> length qs"
          "group_loop fs ms first (sz + length (build_batch ops)) False (build_batch (acc @ ops)) (n + 1) (map writer_of qs)
          = (build_batch ((acc @ ops) @ concat (map client_ops (take k qs))), n + 1 + k)"
          using Cons.IH [of False "acc @ ops"] by blast
        ultimately show ?thesis
          using False small
          by (intro exI [of _ "Suc k"]) (simp add: q Some build_batch_append Let_def)
      qed
    qed
  qed
qed

text \<open>The operations of the group that forms behind a writer: the writer's own and those of some that follow it.\<close>

definition group_ops :: "batch_op list \<Rightarrow> bool \<Rightarrow> client list \<Rightarrow> batch_op list" where
  "group_ops ops sync qs = ops @ concat (map client_ops (take (snd (BuildBatchGroup (build_batch ops) sync (map writer_of qs)) - 1) qs))"

lemma BuildBatchGroup_ops:
  "fst (BuildBatchGroup (build_batch ops) sync (map writer_of qs)) = build_batch (group_ops ops sync qs)"
proof -
  let ?ms = "if length (build_batch ops) \<le> 128 * 1024 then length (build_batch ops) + 128 * 1024 else 1024 * 1024"
  obtain k where "BuildBatchGroup (build_batch ops) sync (map writer_of qs)
      = (build_batch (ops @ concat (map client_ops (take k qs))), 1 + k)"
    using group_loop_ops [of True "build_batch ops" ops qs sync ?ms "length (build_batch ops)" 1]
    by (auto simp: BuildBatchGroup_def Let_def)
  then show ?thesis by (simp add: group_ops_def)
qed

section \<open>The memtable after a batch\<close>

definition op_fits :: "batch_op \<Rightarrow> bool" where
  "op_fits op = (case op of Put_op key val \<Rightarrow> length key + 8 < 2 ^ 32 \<and> length val < 2 ^ 32 | Delete_op key \<Rightarrow> length key + 8 < 2 ^ 32)"

definition add_of :: "u64 \<Rightarrow> batch_op \<Rightarrow> mem_add" where
  "add_of s op = (case op of
     Put_op key val \<Rightarrow> \<lparr>add_seq = s, add_type = kTypeValue, add_key = key, add_val = val\<rparr>
   | Delete_op key \<Rightarrow> \<lparr>add_seq = s, add_type = kTypeDeletion, add_key = key, add_val = []\<rparr>)"

text \<open>Operations numbered from \<open>k\<close> on, the latest first.\<close>

fun history :: "nat \<Rightarrow> batch_op list \<Rightarrow> mem_add list" where
  "history k [] = []"
| "history k (op # ops) = history (Suc k) ops @ [add_of (of_nat k) op]"

lemma history_append: "history k (xs @ ys) = history (k + length xs) ys @ history k xs"
  by (induction xs arbitrary: k) simp_all

lemma op_fits_ok: "op_fits op \<Longrightarrow> op_ok op"
  by (simp add: op_fits_def op_ok_def split: batch_op.splits)

lemma seq_number: "k < 2 ^ 56 \<Longrightarrow> unat (of_nat k :: u64) = k \<and> (of_nat k :: u64) \<le> kMaxSequenceNumber"
  by (simp add: kMaxSequenceNumber_def word_le_nat_alt unat_u64_of_nat)

definition mem_upto :: "comparator_ops \<Rightarrow> memtable \<Rightarrow> nat \<Rightarrow> mem_add list \<Rightarrow> bool" where
  "mem_upto user m k adds \<longleftrightarrow> mem_reach user m adds \<and> (\<forall>e\<in>set adds. unat (add_seq e) < k)"

context comparator
begin

lemma inserter_step:
  assumes "mem_upto c m k adds" and "op_fits op" and "k < 2 ^ 56"
  obtains m' where "inserter junk c op (of_nat k, Some m) = (of_nat (Suc k), Some m')"
    "mem_upto c m' (Suc k) (add_of (of_nat k) op # adds)"
proof -
  let ?e = "add_of (of_nat k) op"
  have ok: "add_ok ?e"
    using assms(2) seq_number [OF assms(3)]
    by (auto simp: add_of_def add_ok_def op_fits_def kTypeValue_def kTypeDeletion_def split: batch_op.splits)
  have seq: "add_seq ?e = of_nat k" by (simp add: add_of_def split: batch_op.splits)
  have less: "\<forall>e'\<in>set adds. add_seq e' < add_seq ?e"
    using assms(1) seq_number [OF assms(3)] by (simp add: seq mem_upto_def word_less_nat_alt)
  have reach: "mem_reach c m adds" using assms(1) by (simp add: mem_upto_def)
  obtain m' where m': "memtable_Add junk c (add_seq ?e) (add_type ?e) (add_key ?e) (add_val ?e) m = Some m'"
    using memtable_Add_returns [OF reach ok less] by blast
  have "mem_reach c m' (?e # adds)" by (rule mem_reach.add [OF reach ok less m'])
  then have "mem_upto c m' (Suc k) (?e # adds)"
    using assms(1) seq_number [OF assms(3)] by (auto simp: mem_upto_def seq less_Suc_eq)
  moreover have "inserter junk c op (of_nat k, Some m) = (of_nat (Suc k), Some m')"
    using m' by (simp add: inserter_def add_of_def add.commute split: batch_op.splits)
  ultimately show ?thesis using that by blast
qed

lemma inserter_fold:
  "mem_upto c m k adds \<Longrightarrow> \<forall>op\<in>set ops. op_fits op \<Longrightarrow> k + length ops \<le> 2 ^ 56 \<Longrightarrow>
     \<exists>m'. fold (inserter junk c) ops (of_nat k, Some m) = (of_nat (k + length ops), Some m')
       \<and> mem_upto c m' (k + length ops) (history k ops @ adds)"
proof (induction ops arbitrary: m k adds)
  case Nil
  then show ?case by simp
next
  case (Cons op ops)
  have "op_fits op" "k < 2 ^ 56" using Cons.prems(2, 3) by simp_all
  from inserter_step [OF Cons.prems(1) this] obtain m1 where
    m1: "inserter junk c op (of_nat k, Some m) = (of_nat (Suc k), Some m1)" "mem_upto c m1 (Suc k) (add_of (of_nat k) op # adds)"
    by blast
  have "Suc k + length ops \<le> 2 ^ 56" using Cons.prems(3) by simp
  from Cons.IH [OF m1(2) _ this] Cons.prems(2) show ?case using m1(1) by auto
qed

lemma InsertInto_history:
  assumes "mem_upto c m k adds" and "\<forall>op\<in>set ops. op_fits op" and "k + length ops \<le> 2 ^ 56"
  shows "\<exists>m'. InsertInto junk c (batch_rep (of_nat k) (of_nat (length ops)) ops) m = (OK, Some m')
    \<and> mem_upto c m' (k + length ops) (history k ops @ adds)"
proof -
  obtain m' where m': "fold (inserter junk c) ops (of_nat k, Some m) = (of_nat (k + length ops), Some m')"
    "mem_upto c m' (k + length ops) (history k ops @ adds)"
    using inserter_fold [OF assms] by blast
  have "\<forall>op\<in>set ops. op_ok op" using assms(2) op_fits_ok by blast
  from batch_Iterate_rep [OF this, of "inserter junk c" "of_nat k" "(of_nat k, Some m)"] m'
  show ?thesis by (simp add: InsertInto_def)
qed

end

section \<open>Runs of writes\<close>

record write_request =
  req_ptr :: u64
  req_synced :: bool
  req_ops :: "batch_op list"
  req_sync :: bool
  req_waiting :: "client list"

definition req_group :: "write_request \<Rightarrow> batch_op list" where
  "req_group q = group_ops (req_ops q) (req_sync q) (req_waiting q)"

abbreviation request_Write ::
  "'s writable_ops \<Rightarrow> nat \<Rightarrow> comparator_ops \<Rightarrow> write_request \<Rightarrow> 's database \<Rightarrow> (db_status \<times> nat \<times> 's database) option" where
  "request_Write ops junk user q \<equiv>
     db_Write ops junk user (req_ptr q) (req_synced q) (build_batch (req_ops q)) (req_sync q) (map writer_of (req_waiting q))"

text \<open>Writes until one fails: how many succeeded, and the database.\<close>

fun db_writes ::
  "'s writable_ops \<Rightarrow> nat \<Rightarrow> comparator_ops \<Rightarrow> write_request list \<Rightarrow> 's database \<Rightarrow> (nat \<times> 's database) option" where
  "db_writes ops junk user [] db = Some (0, db)"
| "db_writes ops junk user (q # qs) db =
     (case request_Write ops junk user q db of
        None \<Rightarrow> None
      | Some (st, _, db') \<Rightarrow>
          if st = Db_ok then map_option (\<lambda>(k, d). (Suc k, d)) (db_writes ops junk user qs db') else Some (0, db'))"

text \<open>The log records of a run that starts at sequence number \<open>k\<close>.\<close>

fun log_records :: "nat \<Rightarrow> write_request list \<Rightarrow> (u64 \<times> bytes) list" where
  "log_records k [] = []"
| "log_records k (q # qs) =
     (req_ptr q, batch_rep (of_nat k) (of_nat (length (req_group q))) (req_group q)) # log_records (k + length (req_group q)) qs"

abbreviation run_ops :: "write_request list \<Rightarrow> batch_op list" where
  "run_ops qs \<equiv> concat (map req_group qs)"

definition run_fits :: "nat \<Rightarrow> write_request list \<Rightarrow> bool" where
  "run_fits k qs \<longleftrightarrow> (\<forall>op\<in>set (run_ops qs). op_fits op) \<and> k + length (run_ops qs) \<le> 2 ^ 31"

lemma scast_count:
  assumes "n < 2 ^ 31"
  shows "(scast (of_nat n :: u32) :: u64) = of_nat n"
proof -
  have "signed_take_bit 31 (int n) = int n" by (rule signed_take_bit_int_eq_self) (use assms in simp_all)
  then show ?thesis by (simp add: signed_of_nat)
qed

context comparator
begin

lemma db_Write_group:
  fixes junk :: nat and ops :: "'s writable_ops"
  assumes "last_sequence db = of_nat k" and "\<not> bg_error db" and m: "mem_upto c (db_mem db) (Suc k) adds"
    and g: "\<forall>op\<in>set (req_group q). op_fits op" and len: "Suc k + length (req_group q) \<le> 2 ^ 31"
  defines "rec \<equiv> batch_rep (of_nat (Suc k)) (of_nat (length (req_group q))) (req_group q)"
    and "res \<equiv> request_Write ops junk c q db"
  shows "AddRecord ops (req_ptr q) rec (db_log db) = None \<Longrightarrow> res = None"
    and "AddRecord ops (req_ptr q) rec (db_log db) = Some (ok, lg) \<Longrightarrow> \<exists>st n db'. res = Some (st, n, db') \<and> db_log db' = lg
      \<and> last_sequence db' = of_nat (k + length (req_group q)) \<and> (\<not> ok \<longrightarrow> st = Db_io_error \<and> \<not> bg_error db')
      \<and> (st = Db_ok \<longrightarrow> ok \<and> \<not> bg_error db'
           \<and> mem_upto c (db_mem db') (Suc k + length (req_group q)) (history (Suc k) (req_group q) @ adds))
      \<and> (st \<noteq> Db_ok \<longrightarrow> db_mem db' = db_mem db) \<and> (ok \<and> (req_sync q \<longrightarrow> req_synced q) \<longrightarrow> st = Db_ok)"
proof -
  let ?g = "req_group q"
  obtain n where grp: "BuildBatchGroup (build_batch (req_ops q)) (req_sync q) (map writer_of (req_waiting q)) = (build_batch ?g, n)"
    using BuildBatchGroup_ops [of "req_ops q" "req_sync q" "req_waiting q"] by (cases "BuildBatchGroup (build_batch (req_ops q)) (req_sync q) (map writer_of (req_waiting q))") (simp add: req_group_def)
  have upd: "SetSequence (build_batch ?g) (of_nat k + 1) = rec"
    by (simp add: build_batch_rep rec_def add.commute)
  have cnt: "(scast (batch_Count rec) :: u64) = of_nat (length ?g)" using len by (simp add: rec_def scast_count)
  note W = db_Write_def grp prod.case option.case assms(1, 2) upd cnt if_False Let_def
  show "AddRecord ops (req_ptr q) rec (db_log db) = None \<Longrightarrow> res = None"
    by (simp add: res_def W)
  assume add: "AddRecord ops (req_ptr q) rec (db_log db) = Some (ok, lg)"
  have "Suc k + length ?g \<le> 2 ^ 56" using len by simp
  from InsertInto_history [OF m g this, of junk] obtain m' where m': "InsertInto junk c rec (db_mem db) = (OK, Some m')"
    "mem_upto c m' (Suc k + length ?g) (history (Suc k) ?g @ adds)" unfolding rec_def by blast
  show "\<exists>st n db'. res = Some (st, n, db') \<and> db_log db' = lg
      \<and> last_sequence db' = of_nat (k + length ?g) \<and> (\<not> ok \<longrightarrow> st = Db_io_error \<and> \<not> bg_error db')
      \<and> (st = Db_ok \<longrightarrow> ok \<and> \<not> bg_error db'
           \<and> mem_upto c (db_mem db') (Suc k + length ?g) (history (Suc k) ?g @ adds))
      \<and> (st \<noteq> Db_ok \<longrightarrow> db_mem db' = db_mem db) \<and> (ok \<and> (req_sync q \<longrightarrow> req_synced q) \<longrightarrow> st = Db_ok)"
    using add m' assms(2) by (auto simp: res_def W)
qed

lemma db_writes_log:
  "db_writes ops junk c qs db = Some (j, db') \<Longrightarrow> last_sequence db = of_nat k \<Longrightarrow> \<not> bg_error db \<Longrightarrow>
     mem_upto c (db_mem db) (Suc k) adds \<Longrightarrow> run_fits (Suc k) qs \<Longrightarrow>
     \<exists>n i. add_records ops (take n (log_records (Suc k) qs)) (db_log db) = Some (i, db_log db') \<and> j \<le> i \<and> n \<le> Suc j
       \<and> mem_upto c (db_mem db') (Suc k + length (run_ops (take j qs))) (history (Suc k) (run_ops (take j qs)) @ adds)"
proof (induction qs arbitrary: db j k adds)
  case Nil
  then show ?case by auto
next
  case (Cons q qs)
  let ?g = "req_group q" and ?rec = "batch_rep (of_nat (Suc k)) (of_nat (length (req_group q))) (req_group q)"
  have g: "\<forall>op\<in>set ?g. op_fits op" "Suc k + length ?g \<le> 2 ^ 31" and fits: "run_fits (Suc (k + length ?g)) qs"
    using Cons.prems(5) by (auto simp: run_fits_def)
  note W = db_Write_group [OF Cons.prems(2-4) g, where ops = ops and junk = junk]
  obtain ok lg where add: "AddRecord ops (req_ptr q) ?rec (db_log db) = Some (ok, lg)"
    using W(1) Cons.prems(1) by (cases "AddRecord ops (req_ptr q) ?rec (db_log db)") auto
  from W(2) [OF this] obtain st n db1 where r:
    "request_Write ops junk c q db = Some (st, n, db1)" "db_log db1 = lg"
    "st = Db_ok \<Longrightarrow> ok \<and> last_sequence db1 = of_nat (k + length ?g) \<and> \<not> bg_error db1
       \<and> mem_upto c (db_mem db1) (Suc k + length ?g) (history (Suc k) ?g @ adds)"
    "st \<noteq> Db_ok \<Longrightarrow> db_mem db1 = db_mem db"
    by blast
  show ?case
  proof (cases "st = Db_ok")
    case True
    then obtain j1 where j: "j = Suc j1" "db_writes ops junk c qs db1 = Some (j1, db')"
      using Cons.prems(1) by (auto simp: r(1))
    have "mem_upto c (db_mem db1) (Suc (k + length ?g)) (history (Suc k) ?g @ adds)" using r(3) True by simp
    with Cons.IH [OF j(2) _ _ this fits] r(3) True obtain n' i where IH:
      "add_records ops (take n' (log_records (Suc (k + length ?g)) qs)) lg = Some (i, db_log db')" "j1 \<le> i" "n' \<le> Suc j1"
      "mem_upto c (db_mem db') (Suc (k + length ?g) + length (run_ops (take j1 qs)))
         (history (Suc (k + length ?g)) (run_ops (take j1 qs)) @ history (Suc k) ?g @ adds)"
      unfolding r(2) by blast
    have "add_records ops (take (Suc n') (log_records (Suc k) (q # qs))) (db_log db) = Some (Suc i, db_log db')"
      using add IH(1) r(3) True by simp
    then show ?thesis
      using IH(2-4) by (intro exI [of _ "Suc n'"] exI [of _ "Suc i"]) (simp add: j(1) history_append add.assoc)
  next
    case False
    then have j: "j = 0" "db' = db1" using Cons.prems(1) by (auto simp: r(1))
    have "add_records ops (take 1 (log_records (Suc k) (q # qs))) (db_log db) = Some (if ok then 1 else 0, db_log db')"
      using add r(2) by (simp add: j)
    then show ?thesis
      using r(4) [OF False] Cons.prems(4) by (intro exI [of _ 1] exI [of _ "if ok then 1 else 0"]) (simp add: j)
  qed
qed

text \<open>If nobody asks for a sync, the writes succeed exactly as far as the log does.\<close>

lemma db_writes_succeed:
  "add_records ops (log_records (Suc k) qs) (db_log db) = Some (i, lg) \<Longrightarrow> \<forall>q\<in>set qs. \<not> req_sync q \<Longrightarrow>
     last_sequence db = of_nat k \<Longrightarrow> \<not> bg_error db \<Longrightarrow> mem_upto c (db_mem db) (Suc k) adds \<Longrightarrow> run_fits (Suc k) qs \<Longrightarrow>
     \<exists>db'. db_writes ops junk c qs db = Some (i, db')"
proof (induction qs arbitrary: db k i adds)
  case Nil
  then show ?case by simp
next
  case (Cons q qs)
  let ?g = "req_group q" and ?rec = "batch_rep (of_nat (Suc k)) (of_nat (length (req_group q))) (req_group q)"
  have g: "\<forall>op\<in>set ?g. op_fits op" "Suc k + length ?g \<le> 2 ^ 31" and fits: "run_fits (Suc (k + length ?g)) qs"
    using Cons.prems(6) by (auto simp: run_fits_def)
  note W = db_Write_group [OF Cons.prems(3-5) g, where ops = ops and junk = junk]
  obtain ok l1 where add: "AddRecord ops (req_ptr q) ?rec (db_log db) = Some (ok, l1)"
    using Cons.prems(1) by (auto split: option.splits)
  from W(2) [OF this] obtain st n db1 where r:
    "request_Write ops junk c q db = Some (st, n, db1)" "db_log db1 = l1"
    "st = Db_ok \<Longrightarrow> ok \<and> last_sequence db1 = of_nat (k + length ?g) \<and> \<not> bg_error db1
       \<and> mem_upto c (db_mem db1) (Suc k + length ?g) (history (Suc k) ?g @ adds)"
    "ok \<Longrightarrow> st = Db_ok"
    using Cons.prems(2) by auto
  show ?case
  proof (cases ok)
    case True
    then obtain i1 where i: "i = Suc i1" "add_records ops (log_records (Suc (k + length ?g)) qs) (db_log db1) = Some (i1, lg)"
      using Cons.prems(1) add r(2) by auto
    have "mem_upto c (db_mem db1) (Suc (k + length ?g)) (history (Suc k) ?g @ adds)" using r(3, 4) True by simp
    with Cons.IH [OF i(2) _ _ _ this fits] Cons.prems(2) r(3, 4) True obtain db' where
      "db_writes ops junk c qs db1 = Some (i1, db')" by auto
    then show ?thesis using r(4) True by (simp add: r(1) i(1))
  next
    case False
    then show ?thesis using Cons.prems(1) add r(1, 3) by auto
  qed
qed

end
section \<open>Reading the log back\<close>

text \<open>The memtables of a recovery stand for the operations \<open>adds\<close>: each for a segment, the open one for the latest.\<close>

definition recovered :: "comparator_ops \<Rightarrow> memtable option \<Rightarrow> memtable list \<Rightarrow> nat \<Rightarrow> mem_add list \<Rightarrow> bool" where
  "recovered user mem tables k adds \<longleftrightarrow> (\<exists>now segs.
     (case mem of None \<Rightarrow> now = [] | Some m \<Rightarrow> mem_upto user m k now) \<and> list_all2 (mem_reach user) tables segs
     \<and> now @ concat (rev segs) = adds)"

lemma recovered_insert:
  fixes junk :: nat
  assumes "comparator user" and "recovered user mem tables k adds" and "\<forall>op\<in>set ops. op_fits op" and "k + length ops \<le> 2 ^ 56"
  defines "m \<equiv> case mem of None \<Rightarrow> MemTable junk | Some m \<Rightarrow> m"
  obtains m' where "InsertInto junk user (batch_rep (of_nat k) (of_nat (length ops)) ops) m = (OK, Some m')"
    "recovered user (Some m') tables (k + length ops) (history k ops @ adds)"
    "recovered user None (tables @ [m']) (k + length ops) (history k ops @ adds)"
proof -
  obtain now segs where r: "case mem of None \<Rightarrow> now = [] | Some m \<Rightarrow> mem_upto user m k now"
    "list_all2 (mem_reach user) tables segs" "now @ concat (rev segs) = adds"
    using assms(2) unfolding recovered_def by blast
  have "mem_upto user m k now"
    using r(1) by (auto simp: m_def mem_upto_def mem_reach.new split: option.splits)
  from comparator.InsertInto_history [OF assms(1) this assms(3, 4), of junk] obtain m' where
    m': "InsertInto junk user (batch_rep (of_nat k) (of_nat (length ops)) ops) m = (OK, Some m')"
    "mem_upto user m' (k + length ops) (history k ops @ now)"
    by blast
  have "recovered user (Some m') tables (k + length ops) (history k ops @ adds)"
    unfolding recovered_def using m'(2) r(2, 3) by (intro exI [of _ "history k ops @ now"] exI [of _ segs]) simp
  moreover have "recovered user None (tables @ [m']) (k + length ops) (history k ops @ adds)"
    unfolding recovered_def using m'(2) r(2, 3)
    by (intro exI [of _ "[]"] exI [of _ "segs @ [history k ops @ now]"]) (simp add: list_all2_appendI mem_upto_def)
  ultimately show ?thesis using that m'(1) by blast
qed

lemma batch_rep_header: "12 \<le> length (batch_rep s n ops)"
  by (simp add: batch_rep_def length_fixed)

lemma later_sequence:
  assumes "k + n < 2 ^ 63"
  shows "(if (of_nat k :: u64) < of_nat (k + n) then of_nat (k + n) else of_nat k) = (of_nat (k + n) :: u64)"
  using assms by (cases "n = 0") (simp_all add: word_less_nat_alt unat_u64_of_nat del: of_nat_add)

context sequential_file
begin

lemma recover_loop_at:
  "comparator user \<Longrightarrow> reading remaining sound r off (take n (log_bytes off (map snd (log_records (Suc k) qs)))) \<Longrightarrow>
     reported r = [] \<Longrightarrow> run_fits (Suc k) qs \<Longrightarrow> recovered user mem tables (Suc k) adds \<Longrightarrow>
     j = complete_records off n (map snd (log_records (Suc k) qs)) \<Longrightarrow>
     \<exists>mem' tables'. recover_loop ops junk user paranoid full r False mem (of_nat k) tables
         = Some (Db_ok, mem', of_nat (k + length (run_ops (take j qs))), tables')
       \<and> recovered user mem' tables' (Suc k + length (run_ops (take j qs))) (history (Suc k) (run_ops (take j qs)) @ adds)"
proof (induction qs arbitrary: r off n k mem tables adds j)
  case Nil
  obtain r' where "ReadRecord ops r = Some (None, r')" "reported r' = reported r"
    using ReadRecord_at_end [of r off] Nil.prems(2) by auto
  then show ?case using Nil.prems by (subst recover_loop.simps) simp
next
  case (Cons q qs)
  let ?g = "req_group q"
  let ?rec = "batch_rep (of_nat (Suc k)) (of_nat (length ?g)) ?g"
  let ?b = "record_bytes True off ?rec" and ?rest = "map snd (log_records (Suc (k + length ?g)) qs)"
  have rd: "reading remaining sound r off (take n (fst ?b @ log_bytes (snd ?b) ?rest))"
    using Cons.prems(2) by simp
  have g: "\<forall>op\<in>set ?g. op_fits op" "Suc k + length ?g \<le> 2 ^ 31" and fits: "run_fits (Suc (k + length ?g)) qs"
    using Cons.prems(4) by (auto simp: run_fits_def)
  show ?case
  proof (cases "length (fst ?b) \<le> n")
    case False
    then obtain r1 where r1: "ReadRecord ops r = Some (None, r1)" "reported r1 = reported r"
      using ReadRecord_at(2) [OF rd refl] by auto
    have "j = 0" using False Cons.prems(6) by (simp add: case_prod_beta)
    then show ?thesis using r1 Cons.prems(3, 5) by (subst recover_loop.simps) simp
  next
    case True
    then obtain r1 where r1: "ReadRecord ops r = Some (Some ?rec, r1)" "reported r1 = []"
      "reading remaining sound r1 (snd ?b) (take (n - length (fst ?b)) (log_bytes (snd ?b) ?rest))"
      using ReadRecord_at(1) [OF rd refl] Cons.prems(3) by auto
    define i where "i = complete_records (snd ?b) (n - length (fst ?b)) ?rest"
    have j: "j = Suc i" using True Cons.prems(6) by (simp add: case_prod_beta i_def)
    have "Suc k + length ?g \<le> 2 ^ 56" using g(2) by simp
    from recovered_insert [OF Cons.prems(1, 5) g(1) this, where junk = junk] obtain m' where m':
      "InsertInto junk user ?rec (case mem of None \<Rightarrow> MemTable junk | Some m \<Rightarrow> m) = (OK, Some m')"
      "recovered user (Some m') tables (Suc (k + length ?g)) (history (Suc k) ?g @ adds)"
      "recovered user None (tables @ [m']) (Suc (k + length ?g)) (history (Suc k) ?g @ adds)"
      by auto
    have cnt: "(scast (batch_Count ?rec) :: u64) = of_nat (length ?g)" using g(2) by (simp add: scast_count)
    have seq: "batch_Sequence ?rec + scast (batch_Count ?rec) - 1 = (of_nat (k + length ?g) :: u64)"
      unfolding cnt by simp
    have later: "(if (of_nat k :: u64) < of_nat (k + length ?g) then of_nat (k + length ?g) else of_nat k)
        = (of_nat (k + length ?g) :: u64)"
      by (rule later_sequence) (use g(2) in simp)
    have step: "recover_loop ops junk user paranoid full r False mem (of_nat k) tables =
        recover_loop ops junk user paranoid full r1 False (if full m' then None else Some m') (of_nat (k + length ?g))
          (if full m' then tables @ [m'] else tables)"
      using r1(1, 2) m'(1) batch_rep_header [of "of_nat (Suc k)" "of_nat (length ?g)" ?g]
      by (subst recover_loop.simps) (simp only: option.case prod.case seq later Let_def not_less if_False list.simps simp_thms split: if_split, simp)
    have "recovered user (if full m' then None else Some m') (if full m' then tables @ [m'] else tables)
        (Suc (k + length ?g)) (history (Suc k) ?g @ adds)"
      using m'(2, 3) by simp
    from Cons.IH [OF Cons.prems(1) r1(3, 2) fits this i_def] show ?thesis
      by (auto simp: step j history_append add.assoc)
  qed
qed

end
section \<open>Crash and recovery\<close>

definition new_database :: "u64 \<Rightarrow> nat \<Rightarrow> write_result list \<Rightarrow> posix_writable database" where
  "new_database addr junk ws =
     \<lparr>db_log = log_Writer addr \<lparr>disk = [], buf = [], answers = ws\<rparr>, db_mem = MemTable junk, last_sequence = 0, bg_error = False\<rparr>"

text \<open>A lookup in several memtables: the first that knows the key answers.\<close>

fun stack_Get :: "comparator_ops \<Rightarrow> lookup_key \<Rightarrow> memtable list \<Rightarrow> get_result option" where
  "stack_Get user lk [] = Some Not_here"
| "stack_Get user lk (m # ms) =
     (case memtable_Get user lk m of Some Not_here \<Rightarrow> stack_Get user lk ms | res \<Rightarrow> res)"

definition newest_first :: "memtable option \<Rightarrow> memtable list \<Rightarrow> memtable list" where
  "newest_first mem tables = (case mem of None \<Rightarrow> [] | Some m \<Rightarrow> [m]) @ rev tables"

lemma newest_visible_append:
  "newest_visible user u s (xs @ ys) = (case newest_visible user u s xs of None \<Rightarrow> newest_visible user u s ys | Some e \<Rightarrow> Some e)"
  by (simp add: newest_visible_def find_append split: option.split)

lemma visible_result_simps [simp]:
  "visible_result None = Not_here" "visible_result (Some e) \<noteq> Not_here"
  by (simp_all add: visible_result_def)

lemma stack_Get_newest:
  assumes "comparator user" and "length u + 8 < 2 ^ 32" and "s \<le> kMaxSequenceNumber"
  shows "list_all2 (mem_reach user) ms segs \<Longrightarrow>
    stack_Get user (LookupKey u s) ms = Some (visible_result (newest_visible user u s (concat segs)))"
proof (induction rule: list_all2_induct)
  case Nil
  show ?case by (simp add: newest_visible_def)
next
  case (Cons m ms seg segs)
  have "memtable_Get user (LookupKey u s) m = Some (visible_result (newest_visible user u s seg))"
    by (rule comparator.Get_newest [OF assms(1) Cons.hyps(1) assms(2, 3)])
  then show ?case
    using Cons.IH by (auto simp: newest_visible_append split: option.splits get_result.splits)
qed

lemma recovered_Get:
  assumes "comparator user" and "length u + 8 < 2 ^ 32" and "s \<le> kMaxSequenceNumber" and "recovered user mem tables k adds"
  shows "stack_Get user (LookupKey u s) (newest_first mem tables) = Some (visible_result (newest_visible user u s adds))"
proof -
  obtain now segs where r: "case mem of None \<Rightarrow> now = [] | Some m \<Rightarrow> mem_upto user m k now"
    "list_all2 (mem_reach user) tables segs" "now @ concat (rev segs) = adds"
    using assms(4) unfolding recovered_def by blast
  have "list_all2 (mem_reach user) (rev tables) (rev segs)" using r(2) by simp
  then have "list_all2 (mem_reach user) (newest_first mem tables) ((case mem of None \<Rightarrow> [] | Some m \<Rightarrow> [now]) @ rev segs)"
    using r(1) by (auto simp: newest_first_def mem_upto_def split: option.splits)
  moreover have "concat ((case mem of None \<Rightarrow> [] | Some m \<Rightarrow> [now]) @ rev segs) = adds"
    using r(1, 3) by (auto split: option.splits)
  ultimately show ?thesis using stack_Get_newest [OF assms(1-3)] by metis
qed

lemma log_records_take: "take n (log_records k qs) = log_records k (take n qs)"
  by (induction qs arbitrary: n k) (auto simp: take_Cons split: nat.splits)

lemma complete_records_le: "complete_records off n recs \<le> length recs"
  by (induction recs arbitrary: off n) (auto simp: case_prod_beta)

lemma length_log_records [simp]: "length (log_records k qs) = length qs"
  by (induction qs arbitrary: k) simp_all

lemma run_fits_take: "run_fits k qs \<Longrightarrow> run_fits k (take n qs)"
proof -
  assume fits: "run_fits k qs"
  have "run_ops qs = run_ops (take n qs) @ run_ops (drop n qs)"
    by (metis append_take_drop_id concat_append map_append)
  with fits show ?thesis by (auto simp: run_fits_def)
qed

text \<open>
  Property C8: no acknowledged write is lost. A fresh database takes writes, each of which becomes one log record with the
  batches that wait behind it, until one fails; the bytes of the log that have reached the disk are read by
  \<^verbatim>\<open>RecoverLogFile\<close>. It succeeds, checks paranoid or not and wherever memtables are cut, and finds exactly the first \<open>j\<close> groups:
  the \<open>k\<close> that were acknowledged, at most the failed one besides, and each group whole. The last sequence number is theirs, and
  a lookup at any snapshot answers from these operations as the live memtable does from the acknowledged ones.
\<close>

theorem acknowledged_writes_recovered:
  assumes "comparator user" and "db_writes posix_writable_ops junk user qs (new_database addr junk ws) = Some (k, db)"
    and "run_fits 1 qs" and "fd_bytes f = disk (dest (db_log db))" and "reads_succeed f"
  shows "\<exists>j mem tables. k \<le> j \<and> j \<le> Suc k
    \<and> RecoverLogFile posix_sequential_ops junk' user paranoid full f store 0
        = Some (Db_ok, mem, of_nat (length (run_ops (take j qs))), tables)
    \<and> (\<forall>u s. length u + 8 < 2 ^ 32 \<and> s \<le> kMaxSequenceNumber \<longrightarrow>
         stack_Get user (LookupKey u s) (newest_first mem tables)
           = Some (visible_result (newest_visible user u s (history 1 (run_ops (take j qs)))))
         \<and> memtable_Get user (LookupKey u s) (db_mem db)
           = Some (visible_result (newest_visible user u s (history 1 (run_ops (take k qs))))))"
proof -
  let ?log = "log_records (Suc 0) qs"
  have new: "last_sequence (new_database addr junk ws) = of_nat 0" "\<not> bg_error (new_database addr junk ws)"
    "mem_upto user (db_mem (new_database addr junk ws)) (Suc 0) []"
    by (simp_all add: new_database_def mem_upto_def mem_reach.new)
  have fits: "run_fits (Suc 0) qs" using assms(3) by simp
  from comparator.db_writes_log [OF assms(1, 2) new fits] obtain n i where
    w: "add_records posix_writable_ops (take n ?log) (log_Writer addr \<lparr>disk = [], buf = [], answers = ws\<rparr>) = Some (i, db_log db)"
      "k \<le> i" "n \<le> Suc k" "mem_upto user (db_mem db) (Suc (length (run_ops (take k qs)))) (history 1 (run_ops (take k qs)))"
    by (auto simp: new_database_def)
  have take: "take n ?log = log_records (Suc 0) (take n qs)" by (rule log_records_take)
  obtain c where c: "disk (dest (db_log db)) = take c (log_bytes 0 (map snd (log_records (Suc 0) (take n qs))))"
    "i \<le> complete_records 0 c (map snd (log_records (Suc 0) (take n qs)))"
    using add_records_on_disk [OF w(1)] unfolding take by blast
  define j where "j = complete_records 0 c (map snd (log_records (Suc 0) (take n qs)))"
  have jn: "j \<le> n" using complete_records_le [of 0 c "map snd (log_records (Suc 0) (take n qs))"] by (simp add: j_def)
  have rd: "reading fd_bytes reads_succeed (log_Reader f True True 0 store) 0
      (take c (log_bytes 0 (map snd (log_records (Suc 0) (take n qs)))))"
    using posix_source.reading_start [OF assms(5), of True True store] assms(4) c(1) by simp
  have none: "recovered user None [] (Suc 0) []" by (auto simp: recovered_def)
  have rep: "reported (log_Reader f True True 0 store) = []" by (simp add: log_Reader_def)
  have tj: "take j (take n qs) = take j qs" using jn by (simp add: min_def)
  note reads = posix_source.recover_loop_at [OF assms(1) rd rep run_fits_take [OF fits] none j_def, unfolded tj append_Nil2 add_0,
    where junk = junk' and paranoid = paranoid and full = full]
  obtain mem tables where rec: "RecoverLogFile posix_sequential_ops junk' user paranoid full f store 0
        = Some (Db_ok, mem, of_nat (length (run_ops (take j qs))), tables)"
    "recovered user mem tables (Suc 0 + length (run_ops (take j qs))) (history 1 (run_ops (take j qs)))"
    using reads by (auto simp: RecoverLogFile_def)
  have live: "mem_reach user (db_mem db) (history 1 (run_ops (take k qs)))" using w(4) by (simp add: mem_upto_def)
  have "k \<le> j" "j \<le> Suc k" using w(2, 3) c(2) jn by (auto simp: j_def)
  with rec(1) show ?thesis
    using recovered_Get [OF assms(1) _ _ rec(2)] comparator.Get_newest [OF assms(1) live] by blast
qed

definition demo_requests :: "write_request list" where
  "demo_requests =
     [\<lparr>req_ptr = 0, req_synced = True, req_ops = [Put_op [7] [10]], req_sync = False, req_waiting = []\<rparr>,
      \<lparr>req_ptr = 8, req_synced = True, req_ops = [Delete_op [7]], req_sync = False, req_waiting = []\<rparr>]"

definition demo_answers :: "write_result list" where
  "demo_answers = [Wrote 4, Write_interrupted, Wrote 60, Wrote 3, Write_failed]"

lemma demo_groups: "map req_group demo_requests = [[Put_op [7] [10]], [Delete_op [7]]]"
  by (simp add: demo_requests_def req_group_def group_ops_def)

lemma demo_op_bytes: "op_bytes (Put_op [7] [10]) = [1, 1, 7, 1, 10]" "op_bytes (Delete_op [7]) = [0, 1, 7]"
  by code_simp+

lemma demo_log:
  "\<exists>lg. add_records posix_writable_ops (log_records (Suc 0) demo_requests) (log_Writer 0 \<lparr>disk = [], buf = [], answers = demo_answers\<rparr>)
     = Some (1, lg)"
proof -
  let ?run = "add_records posix_writable_ops (log_records (Suc 0) demo_requests) (log_Writer 0 \<lparr>disk = [], buf = [], answers = demo_answers\<rparr>)"
  have "map_option fst ?run = Some 1"
    by (simp add: demo_requests_def demo_answers_def req_group_def group_ops_def batch_rep_def demo_op_bytes EncodeFixed32_def EncodeFixed64_def
        AddRecord_def AddRecord_loop.simps log_Writer_def switch_block_def EmitPhysicalRecord_def log_sizes
        posix_writable_ops_def posix_Append_def posix_Flush_def FlushBuffer_def WriteUnbuffered_def
        kWritableFileBufferSize_def Let_def)
  then show ?thesis by (cases ?run) auto
qed

theorem acknowledged_writes_recovered_witness:
  "\<exists>db mem tables j. db_writes posix_writable_ops 9 BytewiseComparator demo_requests (new_database 0 9 demo_answers) = Some (1, db)
    \<and> RecoverLogFile posix_sequential_ops 5 BytewiseComparator True (\<lambda>_. False)
        \<lparr>fd_bytes = disk (dest (db_log db)), fd_answers = (\<lambda>i. (i, True)), fd_calls = 0\<rparr> 0 0 = Some (Db_ok, mem, of_nat j, tables)
    \<and> 1 \<le> j \<and> memtable_Get BytewiseComparator (LookupKey [7] 1) (db_mem db) = Some (Found_value [10])"
proof -
  let ?db0 = "new_database 0 9 demo_answers"
  obtain lg where run: "add_records posix_writable_ops (log_records (Suc 0) demo_requests) (db_log ?db0) = Some (1, lg)"
    using demo_log by (auto simp: new_database_def)
  have fits: "run_fits 1 demo_requests"
    by (simp add: run_fits_def demo_groups op_fits_def)
  have new: "last_sequence ?db0 = of_nat 0" "\<not> bg_error ?db0" "mem_upto BytewiseComparator (db_mem ?db0) (Suc 0) []"
    by (simp_all add: new_database_def mem_upto_def mem_reach.new)
  have "\<forall>q\<in>set demo_requests. \<not> req_sync q" by (simp add: demo_requests_def)
  from bytewise.db_writes_succeed [OF run this new] fits obtain db where
    db: "db_writes posix_writable_ops 9 BytewiseComparator demo_requests ?db0 = Some (1, db)"
    by auto
  let ?f = "\<lparr>fd_bytes = disk (dest (db_log db)), fd_answers = (\<lambda>i. (i, True)), fd_calls = 0\<rparr>"
  obtain j mem tables where j: "1 \<le> j" "j \<le> Suc 1"
    and rec: "RecoverLogFile posix_sequential_ops 5 BytewiseComparator True (\<lambda>_. False) ?f 0 0
        = Some (Db_ok, mem, of_nat (length (run_ops (take j demo_requests))), tables)"
    and get: "memtable_Get BytewiseComparator (LookupKey [7] 1) (db_mem db)
        = Some (visible_result (newest_visible BytewiseComparator [7] 1 (history 1 (run_ops (take 1 demo_requests)))))"
    using acknowledged_writes_recovered [OF bytewise.comparator_axioms db fits, of ?f 5 True "\<lambda>_. False" 0]
    by (auto simp: reads_succeed_def kMaxSequenceNumber_def)
  have "length (run_ops (take j demo_requests)) = j"
    using j demo_groups by (auto simp: take_map [symmetric] le_Suc_eq)
  moreover have "visible_result (newest_visible BytewiseComparator [7] 1 (history 1 (run_ops (take 1 demo_requests)))) = Found_value [10]"
    unfolding take_map [symmetric] demo_groups
    by (simp add: newest_visible_def visible_result_def add_of_def kTypeValue_def BytewiseComparator_def)
  ultimately show ?thesis using db rec get j(1) by metis
qed

end
