(* ===== verification/Ldb_Torn.thy ===== *)
theory Ldb_Torn
  imports Ldb_Store
begin

text \<open>
  Writing on after an error. \<^verbatim>\<open>DBImpl::Write\<close> remembers an error of \<^verbatim>\<open>Sync\<close> and refuses further writes, but not an error of the log
  itself: when \<^verbatim>\<open>write\<close> stops in the middle of a record, the next record follows its first part.
\<close>

section \<open>A record in one piece\<close>

lemma posix_small_Append:
  "length d \<le> kWritableFileBufferSize - length (buf f) \<Longrightarrow> posix_Append d f = Some (True, f\<lparr>buf := buf f @ d\<rparr>)"
  by (simp add: posix_Append_def)

lemma EmitPhysicalRecord_posix:
  assumes "type_crc w = InitTypeCrc a" and "t \<le> kMaxRecordType" and "buf (dest w) = []"
    and "length (physical t d) \<le> kWritableFileBufferSize"
  shows "EmitPhysicalRecord posix_writable_ops t ptr d w =
    (case write_loop (answers (dest w)) (disk (dest w)) (physical t d) of
       None \<Rightarrow> None
     | Some (ok, dsk, rs) \<Rightarrow>
         Some (ok, w\<lparr>dest := \<lparr>disk = dsk, buf = [], answers = rs\<rparr>, block_offset := block_offset w + (kHeaderSize + length d)\<rparr>))"
proof -
  let ?crc = "Mask (Extend ptr (type_crc w ! unat t) d)"
  let ?header = "EncodeFixed32 ?crc @ [of_nat (length d) AND 0xff, of_nat (length d div 256), ucast t]"
  have t: "unat t < Suc (unat kMaxRecordType)" using assms(2) by (simp add: word_le_nat_alt)
  have "type_crc w ! unat t = crc32c 0 [ucast t]"
    using t by (simp add: assms(1) InitTypeCrc_def crc_Value_def Extend_is_crc32c' nth_map_upt del: upt_Suc)
  then have bytes: "physical t d = ?header @ d"
    by (simp add: physical_def Extend_is_crc32c' crc32c_append)
  have len: "length ?header + length d \<le> kWritableFileBufferSize" using assms(4) unfolding bytes by simp
  obtain f where f: "dest w = \<lparr>disk = f, buf = [], answers = answers (dest w)\<rparr>" using assms(3) by (cases "dest w") simp
  have "posix_Append ?header (dest w) = Some (True, (dest w)\<lparr>buf := ?header\<rparr>)"
    using posix_small_Append [of ?header "dest w"] len assms(3) by simp
  moreover have "posix_Append d ((dest w)\<lparr>buf := ?header\<rparr>) = Some (True, (dest w)\<lparr>buf := physical t d\<rparr>)"
    using posix_small_Append [of d "(dest w)\<lparr>buf := ?header\<rparr>"] len unfolding bytes by simp
  ultimately show ?thesis
    unfolding EmitPhysicalRecord_def Let_def posix_writable_ops_def writable_ops.simps
    by (simp add: posix_Flush_def FlushBuffer_def WriteUnbuffered_def split: option.split)
qed

lemma AddRecord_posix:
  assumes "type_crc w = InitTypeCrc a" and "buf (dest w) = []" and "block_offset w + (kHeaderSize + length d) \<le> kBlockSize"
  shows "AddRecord posix_writable_ops ptr d w =
    (case write_loop (answers (dest w)) (disk (dest w)) (physical kFullType d) of
       None \<Rightarrow> None
     | Some (ok, dsk, rs) \<Rightarrow>
         Some (ok, w\<lparr>dest := \<lparr>disk = dsk, buf = [], answers = rs\<rparr>, block_offset := block_offset w + (kHeaderSize + length d)\<rparr>))"
proof -
  have sw: "switch_block posix_writable_ops w = Some w" using assms(3) by (auto simp: switch_block_def Let_def)
  have n: "fragment_length (block_offset w) d = length d"
    using assms(3) by (simp add: fragment_length_def start_offset_def log_sizes)
  have "length (physical kFullType d) \<le> kWritableFileBufferSize"
    using assms(3) by (simp add: length_physical log_sizes kWritableFileBufferSize_def)
  from EmitPhysicalRecord_posix [OF assms(1) _ assms(2) this, of ptr] show ?thesis
    by (simp add: AddRecord_def AddRecord_loop_unfold [OF sw] n fragment_type_def record_type_defs split: option.split)
qed

section \<open>Reading a torn record\<close>

context sequential_file
begin

lemma ReadRecord_torn:
  assumes rd: "reading remaining sound r 0 (take n (physical t d) @ rest)" and fresh: "buffer r = []" "\<not> eof r"
    and cut: "kHeaderSize \<le> n" "n + length rest < length (physical t d)"
    and fits: "length (physical t d) \<le> kBlockSize" and t: "t \<in> fragment_types"
  shows "\<exists>r'. ReadRecord ops r = Some (None, r') \<and> reported r' = reported r"
proof -
  have nl: "\<not> loaded r" using fresh by (simp add: loaded_def log_sizes)
  obtain r1 where r1: "fetch_block ops r = (True, r1)" "loaded r1" "reported r1 = reported r"
    "reading remaining sound r1 0 (take n (physical t d) @ rest)"
    using fetch_reading [OF rd nl] by (auto simp: fresh)
  have le: "length (take n (physical t d) @ rest) < kBlockSize" using cut fits by simp
  have ahead: "take n (physical t d) @ rest = buffer r1 @ remaining (src_file r1)" using r1(4) by (simp add: reading_def)
  have e: "eof r1"
  proof (rule ccontr)
    assume "\<not> eof r1"
    then have "length (buffer r1) = kBlockSize" using r1(2, 4) by (auto simp: reading_def loaded_def log_sizes)
    then show False using le unfolding ahead by simp
  qed
  then have b: "buffer r1 = take n (physical t d) @ rest" using r1(4) by (simp add: reading_def)
  let ?h = "EncodeFixed32 (Mask (crc32c 0 (ucast t # d))) @ [of_nat (length d) AND 0xff, of_nat (length d div 256), ucast t]"
  have h: "length ?h = kHeaderSize" "physical t d = ?h @ d" by (simp_all add: physical_def log_sizes)
  have "take n (?h @ d) = ?h @ take (n - kHeaderSize) d" using cut(1) h(1) by (simp only: take_append) simp
  then have b': "buffer r1 = EncodeFixed32 (Mask (crc32c 0 (ucast t # d))) @
      [of_nat (length d) AND 0xff, of_nat (length d div 256), ucast t] @ (take (n - kHeaderSize) d @ rest)"
    unfolding b h(2) by simp
  have short: "length (take (n - kHeaderSize) d @ rest) < length d" "length d < 65536"
    using cut fits by (simp_all add: length_physical log_sizes)
  have "initial_offset r1 = 0" using r1(4) by (simp add: reading_def)
  from parse_header_bytes(1) [OF b' short(2) t this short(1) e] have "parse_header frag r1 = (kEof, frag, r1\<lparr>buffer := []\<rparr>)" for frag
    by simp
  moreover have "kHeaderSize \<le> length (buffer r1)" using b cut h by simp
  ultimately have "ReadPhysicalRecord ops [] r = (kEof, [], r1\<lparr>buffer := []\<rparr>)"
    unfolding ReadPhysicalRecord_fetch [OF nl r1(1)] by (subst ReadPhysicalRecord.simps) simp
  from ReadRecord_loop_eof [OF this, of False "[]" 0] show ?thesis
    using rd r1(3) by (auto simp: reading_def ReadRecord_unskipped)
qed

end

section \<open>Acknowledged, and lost\<close>

text \<open>The log record of a request.\<close>

definition req_record :: "nat \<Rightarrow> write_request \<Rightarrow> bytes" where
  "req_record k q = batch_rep (of_nat k) (of_nat (length (req_group q))) (req_group q)"

text \<open>
  Property C9: an acknowledged write can be lost, even a synced one. If \<^verbatim>\<open>write\<close> fails after the header and a part of a record, so
  that the first request returns an error, then the second request is still taken: its record follows the part, it is synced,
  applied and acknowledged, and reads see it. But recovery takes its bytes for the rest of the first record, which they do not fill; it
  returns nothing, and no error even if checks are paranoid.
\<close>

theorem torn_record_hides_later_writes:
  assumes "comparator user" and "run_fits 1 [q, q']" and "req_sync q' \<longrightarrow> req_synced q'"
    and "kHeaderSize \<le> n" and "n + (kHeaderSize + length (req_record k q')) < kHeaderSize + length (req_record 1 q)"
    and "(kHeaderSize + length (req_record 1 q)) + (kHeaderSize + length (req_record k q')) \<le> kBlockSize" and "kHeaderSize + length (req_record k q') \<le> m"
    and k: "k = Suc (length (req_group q))"
  shows "\<exists>w1 db1 w2 db2. request_Write posix_writable_ops junk user q (new_database addr junk [Wrote n, Write_failed, Wrote m])
        = Some (Db_io_error, w1, db1)
    \<and> request_Write posix_writable_ops junk user q' db1 = Some (Db_ok, w2, db2)
    \<and> (\<forall>u s. length u + 8 < 2 ^ 32 \<and> s \<le> kMaxSequenceNumber \<longrightarrow>
         memtable_Get user (LookupKey u s) (db_mem db2)
           = Some (visible_result (newest_visible user u s (history k (req_group q')))))
    \<and> (\<forall>f. fd_bytes f = disk (dest (db_log db2)) \<and> reads_succeed f \<longrightarrow>
         RecoverLogFile posix_sequential_ops junk' user paranoid full f store 0 = Some (Db_ok, None, 0, []))"
proof -
  let ?db0 = "new_database addr junk [Wrote n, Write_failed, Wrote m]"
  let ?p = "physical kFullType (req_record 1 q)" and ?p' = "physical kFullType (req_record k q')"
  have len: "length ?p = kHeaderSize + length (req_record 1 q)" "length ?p' = kHeaderSize + length (req_record k q')"
    by (simp_all add: length_physical)
  have ne: "?p \<noteq> []" "?p' \<noteq> []" "drop n ?p \<noteq> []" using len assms(5) by (auto simp: log_sizes)
  let ?lg1 = "\<lparr>dest = \<lparr>disk = take n ?p, buf = [], answers = [Wrote m]\<rparr>, block_offset = kHeaderSize + length (req_record 1 q),
    type_crc = InitTypeCrc addr\<rparr>"
  let ?disk = "take n ?p @ ?p'"
  have w0: "type_crc (db_log ?db0) = InitTypeCrc addr" "buf (dest (db_log ?db0)) = []"
    "block_offset (db_log ?db0) + (kHeaderSize + length (req_record 1 q)) \<le> kBlockSize"
    using assms(6) by (simp_all add: new_database_def log_Writer_def)
  have a1: "AddRecord posix_writable_ops (req_ptr q) (req_record 1 q) (db_log ?db0) = Some (False, ?lg1)"
    unfolding AddRecord_posix [OF w0] using ne by (simp add: new_database_def log_Writer_def)
  have g: "\<forall>op\<in>set (req_group q). op_fits op" "Suc 0 + length (req_group q) \<le> 2 ^ 31"
    "\<forall>op\<in>set (req_group q'). op_fits op" "Suc (length (req_group q)) + length (req_group q') \<le> 2 ^ 31"
    using assms(2) by (auto simp: run_fits_def)
  have new: "last_sequence ?db0 = of_nat 0" "\<not> bg_error ?db0" "mem_upto user (db_mem ?db0) (Suc 0) []"
    by (simp_all add: new_database_def mem_upto_def mem_reach.new)
  note W1 = comparator.db_Write_group(2) [OF assms(1) new g(1, 2), where ops = posix_writable_ops and junk = junk]
  obtain st w1 db1 where r1: "request_Write posix_writable_ops junk user q ?db0 = Some (st, w1, db1)" "db_log db1 = ?lg1"
    "last_sequence db1 = of_nat (length (req_group q))" "\<not> bg_error db1" "st = Db_io_error" "db_mem db1 = db_mem ?db0"
    using W1 [of False ?lg1] a1 by (auto simp: req_record_def)
  let ?lg2 = "?lg1\<lparr>dest := \<lparr>disk = ?disk, buf = [], answers = []\<rparr>,
    block_offset := (kHeaderSize + length (req_record 1 q)) + (kHeaderSize + length (req_record k q'))\<rparr>"
  have w1: "type_crc ?lg1 = InitTypeCrc addr" "buf (dest ?lg1) = []"
    "block_offset ?lg1 + (kHeaderSize + length (req_record k q')) \<le> kBlockSize"
    using assms(6) by simp_all
  have a2: "AddRecord posix_writable_ops (req_ptr q') (req_record k q') ?lg1 = Some (True, ?lg2)"
    unfolding AddRecord_posix [OF w1] using ne assms(7) len by simp
  have m1: "mem_upto user (db_mem db1) (Suc (length (req_group q))) []"
    using new(3) by (simp add: mem_upto_def r1(6))
  note W2 = comparator.db_Write_group(2) [OF assms(1) r1(3, 4) m1 g(3, 4), where ops = posix_writable_ops and junk = junk]
  obtain w2 db2 where r2: "request_Write posix_writable_ops junk user q' db1 = Some (Db_ok, w2, db2)" "db_log db2 = ?lg2"
    "mem_reach user (db_mem db2) (history k (req_group q'))"
    using W2 [of True ?lg2] a2 assms(3) by (auto simp: req_record_def r1(2) k mem_upto_def)
  have lost: "RecoverLogFile posix_sequential_ops junk' user paranoid full f store 0 = Some (Db_ok, None, 0, [])"
    if f: "fd_bytes f = disk (dest (db_log db2))" "reads_succeed f" for f
  proof -
    have "reading fd_bytes reads_succeed (log_Reader f True True 0 store) 0 (take n ?p @ ?p')"
      using posix_source.reading_start [OF f(2), of True True store] f(1) r2(2) by simp
    from posix_source.ReadRecord_torn [OF this _ _ assms(4)] assms(5, 6) len
    obtain r' where "ReadRecord posix_sequential_ops (log_Reader f True True 0 store) = Some (None, r')" "reported r' = []"
      by (auto simp: log_Reader_def fragment_types_def)
    then show ?thesis unfolding RecoverLogFile_def by (subst recover_loop.simps) simp
  qed
  show ?thesis
    using r1(1, 5) r2(1) comparator.Get_newest [OF assms(1) r2(3)] lost by blast
qed

definition torn_requests :: "write_request \<times> write_request" where
  "torn_requests =
     (\<lparr>req_ptr = 0, req_synced = True, req_ops = [Put_op [7] [1, 2, 3, 4, 5, 6, 7, 8, 9, 10, 11, 12, 13]], req_sync = False, req_waiting = []\<rparr>,
      \<lparr>req_ptr = 8, req_synced = True, req_ops = [Put_op [7] [10]], req_sync = True, req_waiting = []\<rparr>)"

lemma torn_groups:
  "req_group (fst torn_requests) = [Put_op [7] [1, 2, 3, 4, 5, 6, 7, 8, 9, 10, 11, 12, 13]]"
  "req_group (snd torn_requests) = [Put_op [7] [10]]"
  by (simp_all add: torn_requests_def req_group_def group_ops_def)

theorem torn_record_hides_later_writes_witness:
  "\<exists>w1 db1 w2 db2.
     request_Write posix_writable_ops 9 BytewiseComparator (fst torn_requests)
       (new_database 0 9 [Wrote 7, Write_failed, Wrote 24]) = Some (Db_io_error, w1, db1)
     \<and> request_Write posix_writable_ops 9 BytewiseComparator (snd torn_requests) db1 = Some (Db_ok, w2, db2)
     \<and> memtable_Get BytewiseComparator (LookupKey [7] 5) (db_mem db2) = Some (Found_value [10])
     \<and> RecoverLogFile posix_sequential_ops 5 BytewiseComparator True (\<lambda>_. False)
         \<lparr>fd_bytes = disk (dest (db_log db2)), fd_answers = (\<lambda>i. (i, True)), fd_calls = 0\<rparr> 0 0 = Some (Db_ok, None, 0, [])"
proof -
  let ?q = "fst torn_requests" and ?q' = "snd torn_requests"
  have "op_bytes (Put_op [7] [1, 2, 3, 4, 5, 6, 7, 8, 9, 10, 11, 12, 13]) = [1, 1, 7, 13, 1, 2, 3, 4, 5, 6, 7, 8, 9, 10, 11, 12, 13]"
    by code_simp
  then have len: "length (req_record 1 ?q) = 29" "length (req_record 2 ?q') = 17"
    by (simp_all add: req_record_def torn_groups batch_rep_def length_fixed demo_op_bytes)
  have fits: "run_fits 1 [?q, ?q']" "req_sync ?q' \<longrightarrow> req_synced ?q'"
    by (simp_all add: run_fits_def torn_groups op_fits_def) (simp add: torn_requests_def)
  have val: "visible_result (newest_visible BytewiseComparator [7] 5 (history 2 (req_group ?q'))) = Found_value [10]"
    by (simp add: torn_groups newest_visible_def visible_result_def add_of_def kTypeValue_def BytewiseComparator_def)
  have sizes: "kHeaderSize \<le> 7" "7 + (kHeaderSize + length (req_record 2 ?q')) < kHeaderSize + length (req_record 1 ?q)"
    "(kHeaderSize + length (req_record 1 ?q)) + (kHeaderSize + length (req_record 2 ?q')) \<le> kBlockSize"
    "kHeaderSize + length (req_record 2 ?q') \<le> 24"
    unfolding len by (simp_all add: log_sizes)
  have k: "2 = Suc (length (req_group ?q))" by (simp add: torn_groups)
  from torn_record_hides_later_writes [OF bytewise.comparator_axioms fits sizes k,
      where addr = 0 and junk = 9 and junk' = 5 and paranoid = True and full = "\<lambda>_. False" and store = 0]
  obtain w1 db1 w2 db2 where
    run: "request_Write posix_writable_ops 9 BytewiseComparator ?q (new_database 0 9 [Wrote 7, Write_failed, Wrote 24])
        = Some (Db_io_error, w1, db1)"
      "request_Write posix_writable_ops 9 BytewiseComparator ?q' db1 = Some (Db_ok, w2, db2)"
    and get: "\<forall>u s. length u + 8 < 2 ^ 32 \<and> s \<le> kMaxSequenceNumber \<longrightarrow>
        memtable_Get BytewiseComparator (LookupKey u s) (db_mem db2)
          = Some (visible_result (newest_visible BytewiseComparator u s (history 2 (req_group ?q'))))"
    and lost: "\<forall>f. fd_bytes f = disk (dest (db_log db2)) \<and> reads_succeed f \<longrightarrow>
        RecoverLogFile posix_sequential_ops 5 BytewiseComparator True (\<lambda>_. False) f 0 0 = Some (Db_ok, None, 0, [])"
    by (elim exE conjE)
  have "memtable_Get BytewiseComparator (LookupKey [7] 5) (db_mem db2) = Some (Found_value [10])"
    using get [rule_format, of "[7]" 5] by (simp add: val kMaxSequenceNumber_def)
  with run lost [rule_format, of "\<lparr>fd_bytes = disk (dest (db_log db2)), fd_answers = (\<lambda>i. (i, True)), fd_calls = 0\<rparr>"]
  show ?thesis by (simp add: reads_succeed_def)
qed

end
