(* ===== verification/Ldb_Block.thy ===== *)
theory Ldb_Block
  imports Ldb_Keys
begin

text \<open>
  The blocks of LevelDB's tables (\<^verbatim>\<open>table/block_builder.cc\<close>, \<^verbatim>\<open>table/block.cc\<close>): sorted entries whose keys share
  a prefix with the key before, and restart points where they do not, for binary search. Offsets in a block are 32-bit words; a pointer into it
  is a natural number. Reading past the block's bytes has no defined result, which is an outer \<open>None\<close>.
\<close>

section \<open>Building\<close>

record block_builder =
  block_buffer :: bytes
  restarts :: "u32 list"
  counter :: nat
  finished :: bool
  last_key :: bytes

definition BlockBuilder :: block_builder where
  "BlockBuilder = \<lparr>block_buffer = [], restarts = [0], counter = 0, finished = False, last_key = []\<rparr>"

definition block_Reset :: "block_builder \<Rightarrow> block_builder" where
  "block_Reset b = b\<lparr>block_buffer := [], restarts := [0], counter := 0, finished := False, last_key := []\<rparr>"

definition CurrentSizeEstimate :: "block_builder \<Rightarrow> nat" where
  "CurrentSizeEstimate b = length (block_buffer b) + length (restarts b) * 4 + 4"

text \<open>\<open>interval\<close> is the option \<^verbatim>\<open>block_restart_interval\<close>.\<close>

definition block_Add :: "nat \<Rightarrow> bytes \<Rightarrow> bytes \<Rightarrow> block_builder \<Rightarrow> block_builder" where
  "block_Add interval key val b =
     (let (shared, b) =
            (if counter b < interval then (common_prefix (last_key b) key, b)
             else (0, b\<lparr>restarts := restarts b @ [of_nat (length (block_buffer b))], counter := 0\<rparr>));
          non_shared = length key - shared;
          buf = PutVarint32 (PutVarint32 (PutVarint32 (block_buffer b) (of_nat shared)) (of_nat non_shared)) (of_nat (length val))
      in b\<lparr>block_buffer := (buf @ drop shared key) @ val,
           last_key := take shared (last_key b) @ drop shared key,
           counter := counter b + 1\<rparr>)"

definition block_Finish :: "block_builder \<Rightarrow> bytes \<times> block_builder" where
  "block_Finish b =
     (let buf = PutFixed32 (foldl PutFixed32 (block_buffer b) (restarts b)) (of_nat (length (restarts b)))
      in (buf, b\<lparr>block_buffer := buf, finished := True\<rparr>))"

section \<open>A block\<close>

record block =
  block_data :: bytes
  block_size :: nat
  restart_offset :: u32

definition NumRestarts :: "bytes \<Rightarrow> nat \<Rightarrow> u32" where
  "NumRestarts data n = DecodeFixed32 (drop (n - 4) data)"

definition Block :: "bytes \<Rightarrow> block" where
  "Block contents =
     (let n = length contents
      in if n < 4 then \<lparr>block_data = contents, block_size = 0, restart_offset = 0\<rparr>
         else let max_restarts_allowed = (n - 4) div 4
              in if max_restarts_allowed < unat (NumRestarts contents n)
                 then \<lparr>block_data = contents, block_size = 0, restart_offset = 0\<rparr>
                 else \<lparr>block_data = contents, block_size = n,
                        restart_offset = of_nat (n - unat (1 + NumRestarts contents n) * 4)\<rparr>)"

text \<open>An entry's three lengths and the rest of the bytes before the limit.\<close>

definition DecodeEntry :: "bytes \<Rightarrow> (u32 \<times> u32 \<times> u32 \<times> bytes) option" where
  "DecodeEntry p =
     (if length p < 3 then None
      else let shared = ucast (p ! 0) :: u32; non_shared = ucast (p ! 1) :: u32; value_length = ucast (p ! 2) :: u32;
               res = (if (shared OR non_shared OR value_length) < 128 then Some (shared, non_shared, value_length, drop 3 p)
                      else case GetVarint32Ptr p of
                             None \<Rightarrow> None
                           | Some (shared, p) \<Rightarrow>
                               (case GetVarint32Ptr p of
                                  None \<Rightarrow> None
                                | Some (non_shared, p) \<Rightarrow>
                                    (case GetVarint32Ptr p of
                                       None \<Rightarrow> None
                                     | Some (value_length, p) \<Rightarrow> Some (shared, non_shared, value_length, p))))
           in case res of
                None \<Rightarrow> None
              | Some (shared, non_shared, value_length, p) \<Rightarrow>
                  if of_nat (length p) < non_shared + value_length then None
                  else Some (shared, non_shared, value_length, p))"

section \<open>Its iterator\<close>

text \<open>\<open>value_slice\<close> is where the value starts and how long it is.\<close>

record block_iter =
  it_data :: bytes
  it_restarts :: u32
  num_restarts :: u32
  it_current :: u32
  restart_index :: u32
  it_key :: bytes
  value_slice :: "nat \<times> u32"
  it_corrupt :: bool

definition NextEntryOffset :: "block_iter \<Rightarrow> u32" where
  "NextEntryOffset it = of_nat (fst (value_slice it) + unat (snd (value_slice it)))"

definition GetRestartPoint :: "block_iter \<Rightarrow> u32 \<Rightarrow> u32" where
  "GetRestartPoint it index = DecodeFixed32 (drop (unat (it_restarts it) + unat index * 4) (it_data it))"

definition SeekToRestartPoint :: "u32 \<Rightarrow> block_iter \<Rightarrow> block_iter" where
  "SeekToRestartPoint index it =
     it\<lparr>it_key := [], restart_index := index, value_slice := (unat (GetRestartPoint it index), 0)\<rparr>"

definition block_Iter :: "bytes \<Rightarrow> u32 \<Rightarrow> u32 \<Rightarrow> block_iter" where
  "block_Iter data offset num =
     \<lparr>it_data = data, it_restarts = offset, num_restarts = num, it_current = offset, restart_index = num,
      it_key = [], value_slice = (0, 0), it_corrupt = False\<rparr>"

definition it_Valid :: "block_iter \<Rightarrow> bool" where
  "it_Valid it \<longleftrightarrow> it_current it < it_restarts it"

definition it_value :: "block_iter \<Rightarrow> bytes" where
  "it_value it = take (unat (snd (value_slice it))) (drop (fst (value_slice it)) (it_data it))"

text \<open>A cleared slice points elsewhere; its place is used by no operation before the next seek.\<close>

definition CorruptionError :: "block_iter \<Rightarrow> block_iter" where
  "CorruptionError it =
     it\<lparr>it_current := it_restarts it, restart_index := num_restarts it, it_corrupt := True, it_key := [], value_slice := (0, 0)\<rparr>"

lemma unat_u32_Suc:
  fixes x :: u32
  assumes "x + 1 \<noteq> 0"
  shows "unat (x + 1) = unat x + 1"
proof -
  have "unat (x + 1) = (unat x + 1) mod 2 ^ 32" by (simp add: unat_word_ariths)
  moreover have "unat x + 1 \<noteq> 2 ^ 32"
    using calculation assms by (auto simp: unat_eq_zero)
  ultimately show ?thesis using unat_u32_lt [of x] by simp
qed

function advance_restart :: "block_iter \<Rightarrow> block_iter" where
  "advance_restart it =
     (if restart_index it + 1 < num_restarts it \<and> GetRestartPoint it (restart_index it + 1) < it_current it
      then advance_restart (it\<lparr>restart_index := restart_index it + 1\<rparr>) else it)"
  by auto
termination
proof (relation "measure (\<lambda>it. if restart_index it = - 1 then 2 ^ 32 else unat (num_restarts it) - unat (restart_index it))", goal_cases)
  case (2 it)
  then have less: "restart_index it + 1 < num_restarts it" by simp
  then have "unat (restart_index it + 1) < 2 ^ 32 - 1"
    using unat_u32_lt [of "num_restarts it"] by (simp add: word_less_nat_alt)
  moreover have "unat (- 1 :: u32) = 2 ^ 32 - 1" by (simp add: unsigned_minus_1_eq_mask mask_eq_exp_minus_1)
  ultimately have ne: "restart_index it + 1 \<noteq> - 1" by (metis less_irrefl)
  show ?case
  proof (cases "restart_index it = - 1")
    case True
    then show ?thesis using unat_u32_lt [of "num_restarts it"] ne by simp
  next
    case False
    then have "restart_index it + 1 \<noteq> 0" by (metis add.commute add_eq_0_iff)
    then have "unat (restart_index it + 1) = unat (restart_index it) + 1" by (rule unat_u32_Suc)
    then show ?thesis using less False ne by (auto simp: word_less_nat_alt)
  qed
qed simp

declare advance_restart.simps [simp del]

definition ParseNextKey :: "block_iter \<Rightarrow> (bool \<times> block_iter) option" where
  "ParseNextKey it =
     (let it = it\<lparr>it_current := NextEntryOffset it\<rparr>;
          p = unat (it_current it); limit = unat (it_restarts it)
      in if limit \<le> p then Some (False, it\<lparr>it_current := it_restarts it, restart_index := num_restarts it\<rparr>)
         else case DecodeEntry (take (limit - p) (drop p (it_data it))) of
                None \<Rightarrow> Some (False, CorruptionError it)
              | Some (shared, non_shared, value_length, q) \<Rightarrow>
                  if length (it_key it) < unat shared then Some (False, CorruptionError it)
                  else let q_off = limit - length q
                       in if length (it_data it) < q_off + unat non_shared then None
                          else let it = it\<lparr>it_key := take (unat shared) (it_key it) @ take (unat non_shared) (drop q_off (it_data it)),
                                           value_slice := (q_off + unat non_shared, value_length)\<rparr>
                               in Some (True, advance_restart it))"

definition it_Next :: "block_iter \<Rightarrow> block_iter option" where
  "it_Next it = map_option snd (ParseNextKey it)"

text \<open>Entries are parsed until one ends at \<open>bound\<close> or behind it.\<close>

partial_function (option) skip_loop :: "u32 \<Rightarrow> block_iter \<Rightarrow> block_iter option" where
  [code]: "skip_loop bound it =
     (case ParseNextKey it of
        None \<Rightarrow> None
      | Some (ok, it') \<Rightarrow> if ok \<and> NextEntryOffset it' < bound then skip_loop bound it' else Some it')"

function prev_restart :: "block_iter \<Rightarrow> u32 \<Rightarrow> u32 \<Rightarrow> u32 option" where
  "prev_restart it original index =
     (if original \<le> GetRestartPoint it index
      then if index = 0 then None else prev_restart it original (index - 1)
      else Some index)"
  by auto
termination
proof (relation "measure (\<lambda>(it, original, index). unat index)", goal_cases)
  case (2 it original index)
  then show ?case by (simp add: unat_minus_one unat_gt_0)
qed simp

declare prev_restart.simps [simp del]

definition it_Prev :: "block_iter \<Rightarrow> block_iter option" where
  "it_Prev it =
     (case prev_restart it (it_current it) (restart_index it) of
        None \<Rightarrow> Some (it\<lparr>it_current := it_restarts it, restart_index := num_restarts it\<rparr>)
      | Some index \<Rightarrow> skip_loop (it_current it) (SeekToRestartPoint index it))"

text \<open>The binary search: no restart point if an entry is corrupt.\<close>

partial_function (option) seek_search :: "comparator_ops \<Rightarrow> bytes \<Rightarrow> block_iter \<Rightarrow> u32 \<Rightarrow> u32 \<Rightarrow> u32 option option" where
  [code]: "seek_search user target it left right =
     (if left < right
      then let mid = (left + right + 1) div 2; region_offset = unat (GetRestartPoint it mid); limit = unat (it_restarts it)
           in case DecodeEntry (take (limit - region_offset) (drop region_offset (it_data it))) of
                None \<Rightarrow> Some None
              | Some (shared, non_shared, value_length, q) \<Rightarrow>
                  if shared \<noteq> 0 then Some None
                  else if length (it_data it) < limit - length q + unat non_shared then None
                  else if Compare user (take (unat non_shared) (drop (limit - length q) (it_data it))) target < 0
                  then seek_search user target it mid right
                  else seek_search user target it left (mid - 1)
      else Some (Some left))"

partial_function (option) seek_scan :: "comparator_ops \<Rightarrow> bytes \<Rightarrow> block_iter \<Rightarrow> block_iter option" where
  [code]: "seek_scan user target it =
     (case ParseNextKey it of
        None \<Rightarrow> None
      | Some (ok, it') \<Rightarrow> if \<not> ok \<or> 0 \<le> Compare user (it_key it') target then Some it' else seek_scan user target it')"

definition it_Seek :: "comparator_ops \<Rightarrow> bytes \<Rightarrow> block_iter \<Rightarrow> block_iter option" where
  "it_Seek user target it =
     (case seek_search user target it 0 (num_restarts it - 1) of
        None \<Rightarrow> None
      | Some None \<Rightarrow> Some (CorruptionError it)
      | Some (Some left) \<Rightarrow> seek_scan user target (SeekToRestartPoint left it))"

definition it_SeekToFirst :: "block_iter \<Rightarrow> block_iter option" where
  "it_SeekToFirst it = map_option snd (ParseNextKey (SeekToRestartPoint 0 it))"

definition it_SeekToLast :: "block_iter \<Rightarrow> block_iter option" where
  "it_SeekToLast it = skip_loop (it_restarts it) (SeekToRestartPoint (num_restarts it - 1) it)"

datatype block_iterator =
    Error_iterator
  | Empty_iterator
  | Block_iterator block_iter

definition block_NewIterator :: "block \<Rightarrow> block_iterator" where
  "block_NewIterator b =
     (if block_size b < 4 then Error_iterator
      else let num = NumRestarts (block_data b) (block_size b)
           in if num = 0 then Empty_iterator else Block_iterator (block_Iter (block_data b) (restart_offset b) num))"
section \<open>An entry is decoded as it was encoded\<close>

lemma less_128_drop: "(w :: u32) < 128 \<longleftrightarrow> drop_bit 7 w = 0"
proof -
  have "drop_bit 7 w < 1 \<longleftrightarrow> unat w div 2 ^ 7 < 1" using drop_bit_less [of 7 w 1] by simp
  then show ?thesis by (simp add: word_less_1 word_less_nat_alt div_eq_0_iff unat_eq_zero)
qed

lemma or_less_128: "((ucast (x :: u8) OR ucast (y :: u8)) OR ucast (z :: u8) :: u32) < 128 \<longleftrightarrow> x < 128 \<and> y < 128 \<and> z < 128"
proof -
  have byte: "(ucast b :: u32) < 128 \<longleftrightarrow> b < 128" for b :: u8
    by (simp add: word_less_nat_alt unat_ucast_up)
  show ?thesis unfolding byte [of x, symmetric] byte [of y, symmetric] byte [of z, symmetric] by (simp add: less_128_drop drop_bit_or or_eq_0_iff)
qed

lemma byte_less_128: "(ucast b :: u32) < 128 \<longleftrightarrow> b < 128" for b :: u8
  by (simp add: word_less_nat_alt unat_ucast_up)

lemma varint32_first:
  fixes v :: u32
  obtains b bs where "EncodeVarint32 v = b # bs" "b < 128 \<Longrightarrow> bs = [] \<and> ucast b = v"
proof (cases "v < 128")
  case True
  then have "(ucast (ucast v :: u8) :: u32) = v"
    by (simp add: word_unat_eq_iff word_less_nat_alt unat_ucast_up unat_ucast_down)
  then show ?thesis using that [of "ucast v" "[]"] True by (simp add: EncodeVarint32_def)
next
  case False
  have "bit (drop_bit 7 (ucast (ucast (v OR 128) :: u8) :: u32)) 0" by (simp add: bit_simps)
  then have "\<not> (ucast (v OR 128) :: u8) < 128" unfolding byte_less_128 [symmetric] less_128_drop by auto
  then show ?thesis using that [of "ucast (v OR 128)" "tl (EncodeVarint32 v)"] False by (simp add: EncodeVarint32_def)
qed

lemma GetVarint32Ptr_Encode: "GetVarint32Ptr (EncodeVarint32 v @ rest) = Some (v, rest)"
  using GetVarint32_Encode by (simp add: GetVarint32_def)

lemma DecodeEntry_Encode:
  assumes "unat b + unat c \<le> length rest" and "length rest < 2 ^ 32"
  shows "DecodeEntry (EncodeVarint32 a @ EncodeVarint32 b @ EncodeVarint32 c @ rest) = Some (a, b, c, rest)"
proof -
  obtain x xs where x: "EncodeVarint32 a = x # xs" "x < 128 \<Longrightarrow> xs = [] \<and> ucast x = a" using varint32_first [of a] by blast
  obtain y ys where y: "EncodeVarint32 b = y # ys" "y < 128 \<Longrightarrow> ys = [] \<and> ucast y = b" using varint32_first [of b] by blast
  obtain z zs where z: "EncodeVarint32 c = z # zs" "z < 128 \<Longrightarrow> zs = [] \<and> ucast z = c" using varint32_first [of c] by blast
  let ?p = "EncodeVarint32 a @ EncodeVarint32 b @ EncodeVarint32 c @ rest"
  have fit: "\<not> of_nat (length rest) < b + c"
    using assms unat_u32_of_nat [of "length rest"] by (simp add: word_less_nat_alt unat_word_ariths)
  have three: "\<not> length ?p < 3" by (simp add: x(1) y(1) z(1))
  show ?thesis
  proof (cases "((ucast (?p ! 0) OR ucast (?p ! 1)) OR ucast (?p ! 2) :: u32) < 128")
    case True
    then have less: "?p ! 0 < 128" "?p ! 1 < 128" "?p ! 2 < 128" unfolding or_less_128 by simp_all
    have a: "xs = []" "ucast x = a" using less(1) x by simp_all
    have b: "ys = []" "ucast y = b" using less(2) y by (simp_all add: x(1) a(1))
    have c: "zs = []" "ucast z = c" using less(3) z by (simp_all add: x(1) y(1) a(1) b(1))
    have p: "?p ! 0 = x" "?p ! 1 = y" "?p ! 2 = z" "drop 3 ?p = rest"
      by (simp_all add: x(1) y(1) z(1) a(1) b(1) c(1))
    have cond: "(a OR b OR c) < 128" using True unfolding p a(2) b(2) c(2) by (simp add: or.assoc)
    show ?thesis
      by (simp only: DecodeEntry_def Let_def three if_False p a(2) b(2) c(2) or.assoc cond if_True option.case prod.case fit)
  next
    case False
    show ?thesis
      by (simp only: DecodeEntry_def Let_def three False [unfolded or.assoc] if_False GetVarint32Ptr_Encode option.case prod.case fit)
  qed
qed
section \<open>The layout of a block\<close>

text \<open>An item is an entry with the length of the prefix it shares; \<open>rs\<close> are the indices of the restart points.\<close>

type_synonym item = "nat \<times> bytes \<times> bytes"

abbreviation item_key :: "item \<Rightarrow> bytes" where "item_key x \<equiv> fst (snd x)"
abbreviation item_val :: "item \<Rightarrow> bytes" where "item_val x \<equiv> snd (snd x)"

definition item_bytes :: "item \<Rightarrow> bytes" where
  "item_bytes x = EncodeVarint32 (of_nat (fst x)) @ EncodeVarint32 (of_nat (length (item_key x) - fst x))
     @ EncodeVarint32 (of_nat (length (item_val x))) @ drop (fst x) (item_key x) @ item_val x"

definition items_bytes :: "item list \<Rightarrow> bytes" where
  "items_bytes items = concat (map item_bytes items)"

definition offset :: "item list \<Rightarrow> nat \<Rightarrow> nat" where
  "offset items i = length (items_bytes (take i items))"

definition shares_prefix :: "item list \<Rightarrow> nat \<Rightarrow> bool" where
  "shares_prefix items i \<longleftrightarrow> fst (items ! i) \<le> length (item_key (items ! i))
     \<and> (0 < fst (items ! i) \<longrightarrow> 0 < i \<and> fst (items ! i) \<le> length (item_key (items ! (i - 1)))
          \<and> take (fst (items ! i)) (item_key (items ! (i - 1))) = take (fst (items ! i)) (item_key (items ! i)))"

definition laid_out :: "item list \<Rightarrow> nat list \<Rightarrow> bool" where
  "laid_out items rs \<longleftrightarrow> (\<forall>i<length items. shares_prefix items i) \<and> rs \<noteq> [] \<and> hd rs = 0 \<and> sorted_wrt (<) rs
     \<and> (\<forall>r\<in>set rs. 0 < r \<longrightarrow> r < length items) \<and> (\<forall>r\<in>set rs. r < length items \<longrightarrow> fst (items ! r) = 0)"

definition restart_bytes :: "item list \<Rightarrow> nat list \<Rightarrow> bytes" where
  "restart_bytes items rs = concat (map (\<lambda>r. EncodeFixed32 (of_nat (offset items r))) rs)"

definition layout_bytes :: "item list \<Rightarrow> nat list \<Rightarrow> bytes" where
  "layout_bytes items rs = items_bytes items @ restart_bytes items rs @ EncodeFixed32 (of_nat (length rs))"

lemma items_bytes_simps [simp]:
  "items_bytes [] = []" "items_bytes (x # xs) = item_bytes x @ items_bytes xs"
  "items_bytes (xs @ ys) = items_bytes xs @ items_bytes ys"
  by (simp_all add: items_bytes_def)

lemma offset_append: "i \<le> length xs \<Longrightarrow> offset (xs @ ys) i = offset xs i"
  by (simp add: offset_def)

lemma offset_0 [simp]: "offset items 0 = 0"
  by (simp add: offset_def)

lemma offset_all: "length items \<le> i \<Longrightarrow> offset items i = length (items_bytes items)"
  by (simp add: offset_def)

lemma offset_Suc: "i < length items \<Longrightarrow> offset items (Suc i) = offset items i + length (item_bytes (items ! i))"
  by (simp add: offset_def take_Suc_conv_app_nth)

lemma item_bytes_nonempty: "3 \<le> length (item_bytes x)"
  by (simp add: item_bytes_def EncodeVarint32_def)

lemma offset_less: "i < j \<Longrightarrow> j \<le> length items \<Longrightarrow> offset items i < offset items j"
proof (induction j)
  case (Suc j)
  then show ?case
    using offset_Suc [of j items] item_bytes_nonempty [of "items ! j"] by (cases "i = j") (simp_all del: length_greater_0_conv, linarith?)
qed simp

lemma offset_less_iff: "i \<le> length items \<Longrightarrow> j \<le> length items \<Longrightarrow> offset items i < offset items j \<longleftrightarrow> i < j"
  using offset_less [of i j items] offset_less [of j i items] by (cases i j rule: linorder_cases) auto

lemma items_bytes_at:
  assumes "i < length items"
  shows "items_bytes items = items_bytes (take i items) @ item_bytes (items ! i) @ items_bytes (drop (Suc i) items)"
  by (subst id_take_nth_drop [OF assms]) simp

lemma length_restart_bytes [simp]: "length (restart_bytes items rs) = 4 * length rs"
  by (induction rs) (simp_all add: restart_bytes_def)

section \<open>The builder makes this layout\<close>

lemma common_prefix_le: "common_prefix a b \<le> length a" "common_prefix a b \<le> length b"
  by (induction a b rule: common_prefix.induct) auto

lemma common_prefix_take: "take (common_prefix a b) a = take (common_prefix a b) b"
  by (induction a b rule: common_prefix.induct) auto

definition built :: "block_builder \<Rightarrow> item list \<Rightarrow> nat list \<Rightarrow> bool" where
  "built b items rs \<longleftrightarrow> laid_out items rs \<and> block_buffer b = items_bytes items
     \<and> restarts b = map (\<lambda>r. of_nat (offset items r)) rs
     \<and> last_key b = (if items = [] then [] else item_key (List.last items)) \<and> List.last rs + counter b = length items"

lemma laid_out_snoc:
  assumes "laid_out items rs" and "s \<le> length key"
    and "0 < s \<Longrightarrow> items \<noteq> [] \<and> s \<le> length (item_key (List.last items)) \<and> take s (item_key (List.last items)) = take s key"
  shows "items \<noteq> [] \<or> s = 0 \<Longrightarrow> laid_out (items @ [(s, key, val)]) rs"
    "s = 0 \<Longrightarrow> List.last rs < length items \<Longrightarrow> laid_out (items @ [(s, key, val)]) (rs @ [length items])"
proof -
  have sh: "\<forall>i<length (items @ [(s, key, val)]). shares_prefix (items @ [(s, key, val)]) i"
  proof (intro allI impI)
    fix i assume "i < length (items @ [(s, key, val)])"
    then consider "i < length items" | "i = length items" by fastforce
    then show "shares_prefix (items @ [(s, key, val)]) i"
    proof cases
      case 1
      then show ?thesis using assms(1) by (auto simp: laid_out_def shares_prefix_def nth_append)
    next
      case 2
      then show ?thesis using assms(2, 3) by (auto simp: shares_prefix_def nth_append last_conv_nth)
    qed
  qed
  have old: "r \<in> set rs \<Longrightarrow> r < length items \<or> r = 0" for r using assms(1) by (auto simp: laid_out_def)
  show "laid_out (items @ [(s, key, val)]) rs" if "items \<noteq> [] \<or> s = 0"
    using sh assms(1) that old unfolding laid_out_def by (auto simp: nth_append less_Suc_eq)
  show "laid_out (items @ [(s, key, val)]) (rs @ [length items])" if "s = 0" "List.last rs < length items"
  proof -
    have "r < length items" if "r \<in> set rs" for r
      using old [OF that] \<open>List.last rs < length items\<close> by auto
    then show ?thesis
      using sh assms(1) that(1) unfolding laid_out_def by (auto simp: nth_append sorted_wrt_append intro: less_SucI)
  qed
qed

lemma block_Add_built:
  assumes "built b items rs" and "1 \<le> interval"
  shows "\<exists>s rs'. built (block_Add interval key val b) (items @ [(s, key, val)]) rs'"
proof -
  have lay: "laid_out items rs" and rs: "r \<in> set rs \<Longrightarrow> r \<le> length items" for r
    using assms(1) by (auto simp: built_def laid_out_def)
  have bytes: "block_buffer b @ EncodeVarint32 (of_nat s) @ EncodeVarint32 (of_nat (length key - s)) @
      EncodeVarint32 (of_nat (length val)) @ drop s key @ val = items_bytes (items @ [(s, key, val)])" for s
    using assms(1) by (simp add: built_def item_bytes_def)
  have old: "map (\<lambda>r. of_nat (offset (items @ [x]) r)) rs = (map (\<lambda>r. of_nat (offset items r)) rs :: u32 list)" for x
    using rs by (simp add: offset_append)
  have ne: "rs \<noteq> []" using lay by (simp add: laid_out_def)
  show ?thesis
  proof (cases "counter b < interval")
    case True
    let ?s = "common_prefix (last_key b) key"
    have "laid_out (items @ [(?s, key, val)]) rs"
      using common_prefix_le [of "last_key b" key] common_prefix_take [of "last_key b" key] assms(1)
      by (intro laid_out_snoc(1) [OF lay]) (auto simp: built_def split: if_splits)
    then have "built (block_Add interval key val b) (items @ [(?s, key, val)]) rs"
      using True assms(1) bytes [of ?s] old [of "(?s, key, val)"] common_prefix_take [of "last_key b" key]
      by (simp add: built_def block_Add_def PutVarint32_def)
    then show ?thesis by blast
  next
    case False
    then have "List.last rs < length items" using assms by (simp add: built_def)
    then have "laid_out (items @ [(0, key, val)]) (rs @ [length items])"
      by (intro laid_out_snoc(2) [OF lay]) simp_all
    then have "built (block_Add interval key val b) (items @ [(0, key, val)]) (rs @ [length items])"
      using False assms(1) bytes [of 0] old [of "(0, key, val)"]
      by (simp add: built_def block_Add_def PutVarint32_def offset_append offset_all)
    then show ?thesis by blast
  qed
qed

definition build_block :: "nat \<Rightarrow> (bytes \<times> bytes) list \<Rightarrow> block_builder" where
  "build_block interval es = fold (\<lambda>(key, val). block_Add interval key val) es BlockBuilder"

lemma build_block_built:
  assumes "1 \<le> interval"
  shows "\<exists>items rs. built (build_block interval es) items rs \<and> map snd items = es"
proof (induction es rule: rev_induct)
  case Nil
  have "built BlockBuilder [] [0]" by (simp add: built_def BlockBuilder_def laid_out_def)
  then show ?case by (auto simp: build_block_def)
next
  case (snoc e es)
  then obtain items rs where b: "built (build_block interval es) items rs" "map snd items = es" by blast
  obtain key val where e: "e = (key, val)" by force
  from block_Add_built [OF b(1) assms, of key val] b(2) show ?case
    by (fastforce simp: build_block_def e)
qed

lemma block_Finish_layout: "built b items rs \<Longrightarrow> fst (block_Finish b) = layout_bytes items rs"
proof -
  have "foldl PutFixed32 buf vs = buf @ concat (map EncodeFixed32 vs)" for buf vs
    by (induction vs arbitrary: buf) (simp_all add: PutFixed32_def)
  then show "built b items rs \<Longrightarrow> fst (block_Finish b) = layout_bytes items rs"
    by (simp add: built_def block_Finish_def Let_def layout_bytes_def restart_bytes_def PutFixed32_def comp_def)
qed

end
