(* ===== verification/Ldb_Cursor.thy ===== *)
theory Ldb_Cursor
  imports Ldb_Block
begin

text \<open>
  The iterator of a block is a cursor over its entries: every operation moves it where the same operation moves an index into the
  sorted list of entries.
\<close>

section \<open>Iterators of a built block\<close>

definition of_block :: "item list \<Rightarrow> nat list \<Rightarrow> block_iter \<Rightarrow> bool" where
  "of_block items rs it \<longleftrightarrow> laid_out items rs \<and> length (layout_bytes items rs) < 2 ^ 32 \<and> it_data it = layout_bytes items rs
     \<and> it_restarts it = of_nat (offset items (length items)) \<and> num_restarts it = of_nat (length rs) \<and> \<not> it_corrupt it"

text \<open>\<open>ready\<close>: the next entry to be parsed is number \<open>i\<close>. \<open>standing\<close>: the iterator is valid at entry \<open>i\<close>.\<close>

definition ready :: "item list \<Rightarrow> nat list \<Rightarrow> block_iter \<Rightarrow> nat \<Rightarrow> bool" where
  "ready items rs it i \<longleftrightarrow> of_block items rs it \<and> i \<le> length items
     \<and> fst (value_slice it) + unat (snd (value_slice it)) = offset items i
     \<and> (i < length items \<longrightarrow> fst (items ! i) \<le> length (it_key it)
          \<and> take (fst (items ! i)) (it_key it) = take (fst (items ! i)) (item_key (items ! i)))
     \<and> (\<exists>j<length rs. restart_index it = of_nat j \<and> rs ! j \<le> i)"

definition standing :: "item list \<Rightarrow> nat list \<Rightarrow> block_iter \<Rightarrow> nat \<Rightarrow> bool" where
  "standing items rs it i \<longleftrightarrow> of_block items rs it \<and> i < length items \<and> it_current it = of_nat (offset items i)
     \<and> it_key it = item_key (items ! i)
     \<and> value_slice it = (offset items (Suc i) - length (item_val (items ! i)), of_nat (length (item_val (items ! i))))
     \<and> (\<exists>j<length rs. restart_index it = of_nat j \<and> rs ! j \<le> i)"

lemma length_layout_bytes [simp]:
  "length (layout_bytes items rs) = offset items (length items) + 4 * length rs + 4"
  by (simp add: layout_bytes_def offset_all)

lemma offset_mono: "i \<le> j \<Longrightarrow> j \<le> length items \<Longrightarrow> offset items i \<le> offset items j"
  using offset_less [of i j items] by (cases "i = j") auto

lemma of_block_small:
  assumes "of_block items rs it"
  shows "i \<le> length items \<Longrightarrow> offset items i < 2 ^ 32" "i \<le> length items \<Longrightarrow> unat (of_nat (offset items i) :: u32) = offset items i"
    "j \<le> length rs \<Longrightarrow> unat (of_nat j :: u32) = j" "length rs < 2 ^ 30" "rs \<noteq> []"
    "unat (it_restarts it) = offset items (length items)" "unat (num_restarts it) = length rs"
proof -
  have small: "offset items (length items) + 4 * length rs + 4 < 2 ^ 32" "rs \<noteq> []"
    using assms by (auto simp: of_block_def laid_out_def)
  then show l: "i \<le> length items \<Longrightarrow> offset items i < 2 ^ 32"
    using offset_mono [of i "length items" items] by linarith
  then show "i \<le> length items \<Longrightarrow> unat (of_nat (offset items i) :: u32) = offset items i"
    by (rule unat_u32_of_nat)
  show "j \<le> length rs \<Longrightarrow> unat (of_nat j :: u32) = j" "length rs < 2 ^ 30" "rs \<noteq> []"
    using small by (simp_all add: unat_u32_of_nat)
  show "unat (it_restarts it) = offset items (length items)" "unat (num_restarts it) = length rs"
    using assms small by (simp_all add: of_block_def unat_u32_of_nat)
qed

lemma laid_out_restart:
  assumes "laid_out items rs" and "j < length rs"
  shows "rs ! j \<le> length items" "0 < j \<Longrightarrow> rs ! j < length items" "rs ! 0 = 0" "rs ! j < length items \<Longrightarrow> fst (items ! (rs ! j)) = 0"
proof -
  show z: "rs ! 0 = 0" using assms by (auto simp: laid_out_def hd_conv_nth)
  have m: "rs ! j \<in> set rs" using assms(2) by simp
  then show "rs ! j \<le> length items" using assms(1) by (auto simp: laid_out_def)
  show "rs ! j < length items \<Longrightarrow> fst (items ! (rs ! j)) = 0" using m assms(1) by (auto simp: laid_out_def)
  show "0 < j \<Longrightarrow> rs ! j < length items"
    using assms m sorted_wrt_nth_less [of "(<)" rs 0 j] by (auto simp: laid_out_def z)
qed

lemma GetRestartPoint_at:
  assumes "of_block items rs it" and "j < length rs"
  shows "GetRestartPoint it (of_nat j) = of_nat (offset items (rs ! j))"
proof -
  have "restart_bytes items rs = restart_bytes items (take j rs) @ EncodeFixed32 (of_nat (offset items (rs ! j)))
      @ restart_bytes items (drop (Suc j) rs)"
    by (subst id_take_nth_drop [OF assms(2)]) (simp add: restart_bytes_def)
  moreover have "length (restart_bytes items (take j rs)) = j * 4" using assms(2) by simp
  moreover have "unat (of_nat j :: u32) = j" using of_block_small(3) [OF assms(1)] assms(2) by simp
  ultimately show ?thesis
    using of_block_small(6) [OF assms(1)] assms(1)
    by (simp add: GetRestartPoint_def of_block_def layout_bytes_def offset_all)
qed

lemma key_length_offset:
  assumes "\<forall>i<length items. shares_prefix items i"
  shows "i < length items \<Longrightarrow> length (item_key (items ! i)) \<le> offset items (Suc i)"
proof (induction i)
  case 0
  then show ?case using assms offset_Suc [OF 0] by (auto simp: shares_prefix_def item_bytes_def)
next
  case (Suc i)
  have "fst (items ! Suc i) \<le> length (item_key (items ! i)) \<or> fst (items ! Suc i) = 0"
    using assms Suc.prems by (auto simp: shares_prefix_def)
  then have "fst (items ! Suc i) \<le> offset items (Suc i)" using Suc by auto
  then show ?case using offset_Suc [OF Suc.prems] by (simp add: item_bytes_def)
qed

text \<open>Decoding the bytes from an entry on.\<close>

lemma entry_bytes_at:
  assumes "of_block items rs it" and "i < length items"
  defines "x \<equiv> items ! i"
  obtains q where
    "DecodeEntry (take (offset items (length items) - offset items i) (drop (offset items i) (it_data it)))
       = Some (of_nat (fst x), of_nat (length (item_key x) - fst x), of_nat (length (item_val x)), q)"
    "unat (of_nat (fst x) :: u32) = fst x" "unat (of_nat (length (item_key x) - fst x) :: u32) = length (item_key x) - fst x"
    "unat (of_nat (length (item_val x)) :: u32) = length (item_val x)"
    "offset items (length items) - length q + (length (item_key x) - fst x) + length (item_val x) = offset items (Suc i)"
    "drop (offset items (length items) - length q) (it_data it) = drop (fst x) (item_key x) @ item_val x
       @ items_bytes (drop (Suc i) items) @ drop (offset items (length items)) (it_data it)"
proof -
  let ?n = "length items" and ?body = "drop (fst x) (item_key x) @ item_val x"
  define head where "head = EncodeVarint32 (of_nat (fst x)) @ EncodeVarint32 (of_nat (length (item_key x) - fst x))
     @ EncodeVarint32 (of_nat (length (item_val x)))"
  define pre where "pre = items_bytes (take i items)"
  define q where "q = ?body @ items_bytes (drop (Suc i) items)"
  define tail where "tail = restart_bytes items rs @ EncodeFixed32 (of_nat (length rs))"
  have all: "it_data it = pre @ head @ q @ tail" and full: "items_bytes items = pre @ head @ q"
    using assms(1) items_bytes_at [OF assms(2)]
    by (simp_all add: of_block_def layout_bytes_def item_bytes_def x_def pre_def head_def q_def tail_def)
  have len: "offset items i = length pre" "offset items ?n = length pre + length head + length q"
    "offset items (Suc i) = length pre + length head + length ?body"
    using full offset_Suc [OF assms(2)] by (simp_all add: offset_all offset_def item_bytes_def x_def pre_def head_def)
  have small: "offset items ?n < 2 ^ 32" using of_block_small(1) [OF assms(1)] by simp
  have shares: "\<forall>i<?n. shares_prefix items i" using assms(1) by (simp add: of_block_def laid_out_def)
  have "length (item_key x) \<le> offset items (Suc i)" "fst x \<le> length (item_key x)"
    using key_length_offset [OF shares assms(2)] shares assms(2) by (simp_all add: shares_prefix_def x_def)
  moreover have "offset items (Suc i) \<le> offset items ?n" using assms(2) by (intro offset_mono) simp_all
  ultimately have us: "unat (of_nat (fst x) :: u32) = fst x" using small by (simp add: unat_u32_of_nat)
  have u: "unat (of_nat (length (item_key x) - fst x) :: u32) = length (item_key x) - fst x"
    "unat (of_nat (length (item_val x)) :: u32) = length (item_val x)"
    using len(2) small by (simp_all add: unat_u32_of_nat q_def)
  have "take (offset items ?n - offset items i) (drop (offset items i) (it_data it)) = head @ q"
    unfolding all len by simp
  moreover have "DecodeEntry (head @ q) = Some (of_nat (fst x), of_nat (length (item_key x) - fst x), of_nat (length (item_val x)), q)"
    using DecodeEntry_Encode [of "of_nat (length (item_key x) - fst x)" "of_nat (length (item_val x))" q "of_nat (fst x)"] u small len(2)
    by (simp add: head_def q_def)
  ultimately have dec: "DecodeEntry (take (offset items ?n - offset items i) (drop (offset items i) (it_data it)))
      = Some (of_nat (fst x), of_nat (length (item_key x) - fst x), of_nat (length (item_val x)), q)"
    by simp
  have pos: "offset items ?n - length q = length pre + length head" using len by simp
  have rest: "drop (offset items ?n - length q) (it_data it) = q @ tail" unfolding all pos by simp
  have tl: "drop (offset items ?n) (it_data it) = tail" unfolding all len by simp
  show ?thesis
    by (rule that [OF dec us u]) (use pos len(3) in simp, unfold rest tl, simp add: q_def)
qed
section \<open>Parsing entries\<close>

lemma advance_restart_same [simp]:
  "it_data (advance_restart it) = it_data it" "it_restarts (advance_restart it) = it_restarts it"
  "num_restarts (advance_restart it) = num_restarts it" "it_current (advance_restart it) = it_current it"
  "it_key (advance_restart it) = it_key it" "value_slice (advance_restart it) = value_slice it"
  "it_corrupt (advance_restart it) = it_corrupt it"
  by (induction it rule: advance_restart.induct, subst advance_restart.simps, simp)+

lemma of_block_advance [simp]: "of_block items rs (advance_restart it) = of_block items rs it"
  by (simp add: of_block_def)

lemma advance_restart_index:
  "of_block items rs it \<Longrightarrow> i \<le> length items \<Longrightarrow> it_current it = of_nat (offset items i) \<Longrightarrow> j < length rs \<Longrightarrow>
     restart_index it = of_nat j \<Longrightarrow> rs ! j \<le> i \<Longrightarrow> \<exists>j<length rs. restart_index (advance_restart it) = of_nat j \<and> rs ! j \<le> i"
proof (induction it arbitrary: j rule: advance_restart.induct)
  case (1 it)
  note b = of_block_small [OF "1.prems"(1)]
  have suc: "restart_index it + 1 = of_nat (Suc j)" using "1.prems"(5) by simp
  show ?case
  proof (cases "restart_index it + 1 < num_restarts it \<and> GetRestartPoint it (restart_index it + 1) < it_current it")
    case True
    have u: "unat (of_nat (Suc j) :: u32) = Suc j" by (rule b(3)) (use "1.prems"(4) in simp)
    have j: "Suc j < length rs" using True unfolding suc word_less_nat_alt b(7) u by simp
    have r: "rs ! Suc j \<le> length items" using laid_out_restart(1) [OF _ j] "1.prems"(1) by (simp add: of_block_def)
    have "offset items (rs ! Suc j) < offset items i"
      using True unfolding suc GetRestartPoint_at [OF "1.prems"(1) j] "1.prems"(3) word_less_nat_alt
        b(2) [OF r] b(2) [OF "1.prems"(2)] by simp
    then have le: "rs ! Suc j \<le> i" using offset_less_iff [OF r "1.prems"(2)] by simp
    have "of_block items rs (it\<lparr>restart_index := restart_index it + 1\<rparr>)" using "1.prems"(1) by (simp add: of_block_def)
    moreover have "advance_restart it = advance_restart (it\<lparr>restart_index := restart_index it + 1\<rparr>)"
      using True by (subst advance_restart.simps) (simp only: if_True simp_thms)
    ultimately show ?thesis using "1.IH" [OF True _ "1.prems"(2) _ j _ le] "1.prems"(3) suc by simp
  next
    case False
    then show ?thesis using "1.prems" by (subst advance_restart.simps) auto
  qed
qed

lemma standing_Valid: "standing items rs it i \<Longrightarrow> it_Valid it"
  using offset_less [of i "length items" items] of_block_small(2, 6) [of items rs it]
  by (simp add: standing_def it_Valid_def word_less_nat_alt)

lemma standing_value: "standing items rs it i \<Longrightarrow> it_value it = item_val (items ! i)"
proof -
  assume st: "standing items rs it i"
  let ?x = "items ! i"
  have b: "of_block items rs it" and i: "i < length items" using st by (simp_all add: standing_def)
  obtain q where q:
    "DecodeEntry (take (offset items (length items) - offset items i) (drop (offset items i) (it_data it)))
       = Some (of_nat (fst ?x), of_nat (length (item_key ?x) - fst ?x), of_nat (length (item_val ?x)), q)"
    "unat (of_nat (fst ?x) :: u32) = fst ?x"
    "unat (of_nat (length (item_key ?x) - fst ?x) :: u32) = length (item_key ?x) - fst ?x"
    "unat (of_nat (length (item_val ?x)) :: u32) = length (item_val ?x)"
    "offset items (length items) - length q + (length (item_key ?x) - fst ?x) + length (item_val ?x) = offset items (Suc i)"
    "drop (offset items (length items) - length q) (it_data it) = drop (fst ?x) (item_key ?x) @ item_val ?x
       @ items_bytes (drop (Suc i) items) @ drop (offset items (length items)) (it_data it)"
    by (rule entry_bytes_at [OF b i])
  have "offset items (Suc i) - length (item_val ?x)
      = (length (item_key ?x) - fst ?x) + (offset items (length items) - length q)"
    using q(5) by linarith
  then have "drop (offset items (Suc i) - length (item_val ?x)) (it_data it)
      = item_val ?x @ items_bytes (drop (Suc i) items) @ drop (offset items (length items)) (it_data it)"
    by (simp only: drop_drop [symmetric] q(6)) simp
  moreover have "value_slice it = (offset items (Suc i) - length (item_val ?x), of_nat (length (item_val ?x)))"
    using st by (simp add: standing_def)
  ultimately show ?thesis by (simp only: it_value_def fst_conv snd_conv q(4)) simp
qed

lemma standing_ready:
  assumes "standing items rs it i"
  shows "ready items rs it (Suc i)"
proof -
  let ?x = "items ! i"
  have b: "of_block items rs it" and i: "i < length items" using assms by (simp_all add: standing_def)
  have v: "length (item_val ?x) \<le> offset items (Suc i)" "unat (of_nat (length (item_val ?x)) :: u32) = length (item_val ?x)"
    using offset_Suc [OF i] entry_bytes_at [OF b i] by (auto simp: item_bytes_def)
  have "Suc i < length items \<Longrightarrow> shares_prefix items (Suc i)" using b by (simp add: of_block_def laid_out_def)
  then show ?thesis
    using assms v unfolding ready_def standing_def shares_prefix_def
    by (auto simp: le_Suc_eq Suc_le_eq)
qed

lemma ParseNextKey_entry:
  assumes r: "ready items rs it i" and i: "i < length items"
  shows "\<exists>it'. ParseNextKey it = Some (True, it') \<and> standing items rs it' i"
proof -
  let ?x = "items ! i" and ?n = "length items"
  have b: "of_block items rs it" using r by (simp add: ready_def)
  note small = of_block_small [OF b]
  obtain q where q:
    "DecodeEntry (take (offset items ?n - offset items i) (drop (offset items i) (it_data it)))
       = Some (of_nat (fst ?x), of_nat (length (item_key ?x) - fst ?x), of_nat (length (item_val ?x)), q)"
    "unat (of_nat (fst ?x) :: u32) = fst ?x"
    "unat (of_nat (length (item_key ?x) - fst ?x) :: u32) = length (item_key ?x) - fst ?x"
    "offset items ?n - length q + (length (item_key ?x) - fst ?x) + length (item_val ?x) = offset items (Suc i)"
    "drop (offset items ?n - length q) (it_data it) = drop (fst ?x) (item_key ?x) @ item_val ?x
       @ items_bytes (drop (Suc i) items) @ drop (offset items ?n) (it_data it)"
    by (rule entry_bytes_at [OF b i])
  let ?off = "offset items ?n - length q" and ?ns = "length (item_key ?x) - fst ?x"
  have next_offset: "NextEntryOffset it = of_nat (offset items i)" using r by (simp add: NextEntryOffset_def ready_def)
  have less: "\<not> offset items ?n \<le> offset items i" using offset_less [OF i, of items] by simp
  have fits: "\<not> length (it_data it) < ?off + ?ns"
  proof -
    have "?ns \<le> length (drop ?off (it_data it))" unfolding q(5) by simp
    moreover have "?off \<le> length (it_data it)" using b by (simp add: of_block_def)
    ultimately show ?thesis by simp
  qed
  have share: "\<not> length (it_key it) < fst ?x" "take (fst ?x) (it_key it) = take (fst ?x) (item_key ?x)"
    using r i by (simp_all add: ready_def)
  have key: "take (fst ?x) (it_key it) @ take ?ns (drop ?off (it_data it)) = item_key ?x"
    unfolding share(2) q(5) by simp
  define it1 where "it1 = it\<lparr>it_current := of_nat (offset items i), it_key := item_key ?x,
    value_slice := (?off + ?ns, of_nat (length (item_val ?x)))\<rparr>"
  have pn: "ParseNextKey it = Some (True, advance_restart it1)"
    using less fits share(1) key q(2, 3)
    by (simp add: ParseNextKey_def next_offset Let_def small(2, 6) i less_imp_le q(1) it1_def)
  have b1: "of_block items rs it1" using b by (simp add: of_block_def it1_def)
  obtain j where j: "j < length rs" "restart_index it = of_nat j" "rs ! j \<le> i" using r by (auto simp: ready_def)
  have "\<exists>j<length rs. restart_index (advance_restart it1) = of_nat j \<and> rs ! j \<le> i"
    by (rule advance_restart_index [OF b1 less_imp_le [OF i] _ j(1) _ j(3)]) (simp_all add: it1_def j(2))
  then have "standing items rs (advance_restart it1) i"
    using b1 i q(4) by (auto simp: standing_def it1_def)
  with pn show ?thesis by blast
qed

text \<open>Behind the last entry.\<close>

definition ended :: "item list \<Rightarrow> nat list \<Rightarrow> block_iter \<Rightarrow> bool" where
  "ended items rs it \<longleftrightarrow> of_block items rs it \<and> \<not> it_Valid it"

lemma ParseNextKey_end:
  assumes "ready items rs it (length items)"
  shows "\<exists>it'. ParseNextKey it = Some (False, it') \<and> ended items rs it'"
proof -
  have b: "of_block items rs it" using assms by (simp add: ready_def)
  have "NextEntryOffset it = of_nat (offset items (length items))" using assms by (simp add: NextEntryOffset_def ready_def)
  then show ?thesis
    using b by (simp add: ParseNextKey_def Let_def of_block_small(2, 6) [OF b] ended_def of_block_def it_Valid_def)
qed

lemma SeekToRestartPoint_ready:
  assumes "of_block items rs it" and "j < length rs"
  shows "ready items rs (SeekToRestartPoint (of_nat j) it) (rs ! j)"
proof -
  have lay: "laid_out items rs" using assms(1) by (simp add: of_block_def)
  note r = laid_out_restart [OF lay assms(2)]
  have "of_block items rs (SeekToRestartPoint (of_nat j) it)"
    using assms(1) by (simp add: of_block_def SeekToRestartPoint_def)
  then show ?thesis
    using r(1, 4) assms(2) of_block_small(2) [OF assms(1) r(1)]
    by (auto simp: ready_def SeekToRestartPoint_def GetRestartPoint_at [OF assms])
qed
section \<open>Moving backwards\<close>

lemma skip_loop_to:
  "ready items rs it i \<Longrightarrow> i \<le> b \<Longrightarrow> b < length items \<Longrightarrow>
     \<exists>it'. skip_loop (of_nat (offset items (Suc b))) it = Some it' \<and> standing items rs it' b"
proof (induction "b - i" arbitrary: it i)
  case 0
  then have i: "i = b" by simp
  then obtain it' where it': "ParseNextKey it = Some (True, it')" "standing items rs it' b"
    using ParseNextKey_entry 0 by blast
  have "NextEntryOffset it' = of_nat (offset items (Suc b))"
    using standing_ready [OF it'(2)] by (simp add: ready_def NextEntryOffset_def)
  then show ?case using it' by (subst skip_loop.simps) simp
next
  case (Suc m)
  then have i: "i < length items" "i < b" by simp_all
  obtain it' where it': "ParseNextKey it = Some (True, it')" "standing items rs it' i"
    using ParseNextKey_entry [OF Suc.prems(1) i(1)] by blast
  note r = standing_ready [OF it'(2)]
  have b: "of_block items rs it'" using r by (simp add: ready_def)
  have "NextEntryOffset it' = of_nat (offset items (Suc i))" using r by (simp add: ready_def NextEntryOffset_def)
  moreover have "(of_nat (offset items (Suc i)) :: u32) < of_nat (offset items (Suc b))"
    using of_block_small(2) [OF b] offset_less [of "Suc i" "Suc b" items] i Suc.prems(3) by (simp add: word_less_nat_alt)
  ultimately have "skip_loop (of_nat (offset items (Suc b))) it = skip_loop (of_nat (offset items (Suc b))) it'"
    using it'(1) by (subst skip_loop.simps) simp
  then show ?case using Suc.hyps(1) [OF _ r] Suc i by auto
qed

lemma prev_restart_before:
  assumes "of_block items rs it" and "i \<le> length items"
  shows "j < length rs \<Longrightarrow> (i = 0 \<longrightarrow> prev_restart it (of_nat (offset items i)) (of_nat j) = None)
    \<and> (0 < i \<longrightarrow> (\<exists>k<length rs. prev_restart it (of_nat (offset items i)) (of_nat j) = Some (of_nat k) \<and> rs ! k < i))"
proof (induction j)
  case 0
  have lay: "laid_out items rs" using assms(1) by (simp add: of_block_def)
  note z = laid_out_restart(3) [OF lay 0]
  have "GetRestartPoint it 0 = 0" using GetRestartPoint_at [OF assms(1) 0] z by simp
  moreover have "(of_nat (offset items i) :: u32) \<le> 0 \<longleftrightarrow> i = 0"
    using of_block_small(2) [OF assms] offset_less [of 0 i items] assms(2) by (cases "i = 0") (auto simp: word_le_nat_alt)
  ultimately show ?case using 0 z by (auto simp: prev_restart.simps [of it _ 0])
next
  case (Suc j)
  have lay: "laid_out items rs" using assms(1) by (simp add: of_block_def)
  note r = laid_out_restart [OF lay Suc.prems]
  have j: "(of_nat (Suc j) :: u32) \<noteq> 0" "(of_nat (Suc j) :: u32) - 1 = of_nat j"
    using of_block_small(3) [OF assms(1), of "Suc j"] Suc.prems by (auto simp: unat_eq_zero [symmetric] simp del: of_nat_Suc) simp
  have le: "(of_nat (offset items i) :: u32) \<le> GetRestartPoint it (of_nat (Suc j)) \<longleftrightarrow> i \<le> rs ! Suc j"
    using of_block_small(2) [OF assms(1)] r(1) assms(2) offset_less_iff [OF r(1) assms(2)]
    by (simp add: GetRestartPoint_at [OF assms(1) Suc.prems] word_le_nat_alt not_less [symmetric] del: of_nat_Suc not_less)
  show ?case
  proof (cases "i \<le> rs ! Suc j")
    case True
    then have eq: "prev_restart it (of_nat (offset items i)) (of_nat (Suc j)) = prev_restart it (of_nat (offset items i)) (of_nat j)"
      using le j by (subst prev_restart.simps) (simp del: of_nat_Suc)
    show ?thesis unfolding eq by (rule Suc.IH [OF Suc_lessD [OF Suc.prems]])
  next
    case False
    then have "prev_restart it (of_nat (offset items i)) (of_nat (Suc j)) = Some (of_nat (Suc j))"
      using le by (subst prev_restart.simps) (simp del: of_nat_Suc)
    then show ?thesis using False Suc.prems by (auto simp del: of_nat_Suc)
  qed
qed

lemma it_Prev_moves:
  assumes "standing items rs it i"
  shows "i = 0 \<Longrightarrow> \<exists>it'. it_Prev it = Some it' \<and> ended items rs it'"
    and "0 < i \<Longrightarrow> \<exists>it'. it_Prev it = Some it' \<and> standing items rs it' (i - 1)"
proof -
  have b: "of_block items rs it" and i: "i < length items" "it_current it = of_nat (offset items i)"
    using assms by (simp_all add: standing_def)
  obtain j where j: "j < length rs" "restart_index it = of_nat j" using assms by (auto simp: standing_def)
  note prev = prev_restart_before [OF b less_imp_le [OF i(1)] j(1)]
  show "\<exists>it'. it_Prev it = Some it' \<and> ended items rs it'" if "i = 0"
    using prev that b by (simp add: it_Prev_def i(2) j(2) ended_def of_block_def it_Valid_def)
  show "\<exists>it'. it_Prev it = Some it' \<and> standing items rs it' (i - 1)" if pos: "0 < i"
  proof -
    obtain k where k: "k < length rs" "prev_restart it (of_nat (offset items i)) (of_nat j) = Some (of_nat k)" "rs ! k < i"
      using conjunct2 [OF prev] pos by auto
    have "rs ! k \<le> i - 1" "i - 1 < length items" using k(3) i(1) by simp_all
    from skip_loop_to [OF SeekToRestartPoint_ready [OF b k(1)] this] pos show ?thesis
      by (simp add: it_Prev_def i(2) j(2) k(2))
  qed
qed

lemma it_SeekToLast_moves:
  assumes "of_block items rs it"
  shows "items = [] \<Longrightarrow> \<exists>it'. it_SeekToLast it = Some it' \<and> ended items rs it'"
    and "items \<noteq> [] \<Longrightarrow> \<exists>it'. it_SeekToLast it = Some it' \<and> standing items rs it' (length items - 1)"
proof -
  have lay: "laid_out items rs" and ne: "0 < length rs" using assms by (auto simp: of_block_def laid_out_def)
  have l: "length rs - 1 < length rs" using ne by simp
  have idx: "num_restarts it - 1 = of_nat (length rs - 1)" using assms ne by (cases "length rs") (simp_all add: of_block_def)
  note r = SeekToRestartPoint_ready [OF assms l] laid_out_restart [OF lay l]
  show "\<exists>it'. it_SeekToLast it = Some it' \<and> ended items rs it'" if "items = []"
  proof -
    have "ready items rs (SeekToRestartPoint (of_nat (length rs - 1)) it) (length items)"
      using r(1, 2) that by (simp del: of_nat_diff)
    from ParseNextKey_end [OF this] show ?thesis
      unfolding it_SeekToLast_def idx by (subst skip_loop.simps) auto
  qed
  show "\<exists>it'. it_SeekToLast it = Some it' \<and> standing items rs it' (length items - 1)" if ne: "items \<noteq> []"
  proof -
    have "rs ! (length rs - 1) \<le> length items - 1"
      using r(3, 4) ne by (cases "length rs - 1 = 0") auto
    moreover have "length items - 1 < length items" "Suc (length items - 1) = length items" using ne by simp_all
    ultimately show ?thesis
      using skip_loop_to [OF r(1)] assms unfolding it_SeekToLast_def idx of_block_def by metis
  qed
qed

section \<open>Seeking\<close>

lemma u32_middle:
  assumes "l + r + 1 < 2 ^ 32"
  shows "(of_nat l + of_nat r + 1) div 2 = (of_nat ((l + r + 1) div 2) :: u32)"
proof -
  have "unat (of_nat l + of_nat r + 1 :: u32) = l + r + 1"
    using unat_u32_of_nat [OF assms] by (simp add: ac_simps)
  then have "unat ((of_nat l + of_nat r + 1) div 2 :: u32) = (l + r + 1) div 2"
    by (simp add: unat_div)
  then show ?thesis by (rule of_nat_eqI)
qed

lemma seek_search_finds:
  fixes target :: bytes
  assumes "of_block items rs it"
  shows "l \<le> r \<Longrightarrow> r < length rs \<Longrightarrow> l = 0 \<or> Compare user (item_key (items ! (rs ! l))) target < 0 \<Longrightarrow>
    \<exists>k<length rs. seek_search user target it (of_nat l) (of_nat r) = Some (Some (of_nat k))
      \<and> (k = 0 \<or> Compare user (item_key (items ! (rs ! k))) target < 0)"
proof (induction "r - l" arbitrary: l r rule: less_induct)
  case less
  note small = of_block_small [OF assms]
  have lay: "laid_out items rs" using assms by (simp add: of_block_def)
  have u: "unat (of_nat l :: u32) = l" "unat (of_nat r :: u32) = r" using small(3) less.prems by simp_all
  show ?case
  proof (cases "l < r")
    case False
    then show ?thesis using less.prems u by (subst seek_search.simps) (auto simp: word_less_nat_alt)
  next
    case True
    define m where "m = (l + r + 1) div 2"
    have m: "l < m" "m \<le> r" "m < length rs" "0 < m" using True less.prems by (auto simp: m_def)
    have mid: "(of_nat l + of_nat r + 1) div 2 = (of_nat m :: u32)"
      unfolding m_def by (rule u32_middle) (use less.prems small(4) in simp)
    have i: "rs ! m < length items" by (rule laid_out_restart(2) [OF lay m(3, 4)])
    define x where "x = items ! (rs ! m)"
    define p where "p = offset items (rs ! m)"
    let ?n = "offset items (length items)"
    have s0: "fst x = 0" unfolding x_def by (rule laid_out_restart(4) [OF lay m(3) i])
    obtain q where q:
      "DecodeEntry (take (?n - p) (drop p (it_data it)))
         = Some (of_nat (fst x), of_nat (length (item_key x) - fst x), of_nat (length (item_val x)), q)"
      "unat (of_nat (fst x) :: u32) = fst x"
      "unat (of_nat (length (item_key x) - fst x) :: u32) = length (item_key x) - fst x"
      "drop (?n - length q) (it_data it) = drop (fst x) (item_key x) @ item_val x
         @ items_bytes (drop (Suc (rs ! m)) items) @ drop ?n (it_data it)"
      unfolding x_def p_def by (rule entry_bytes_at [OF assms i])
    have key: "take (length (item_key x)) (drop (?n - length q) (it_data it)) = item_key x"
      unfolding q(4) s0 by simp
    have fits: "\<not> length (it_data it) < ?n - length q + length (item_key x)"
    proof -
      have "length (item_key x) \<le> length (drop (?n - length q) (it_data it))" unfolding q(4) s0 by simp
      moreover have "?n - length q \<le> length (it_data it)" using assms by (simp add: of_block_def)
      ultimately show ?thesis by simp
    qed
    have z: "(of_nat (0 :: nat) :: u32) = 0" by simp
    note q1 = q(1) [unfolded s0 diff_zero z] q(3) [unfolded s0 diff_zero]
    have lr: "(of_nat l :: u32) < of_nat r" using True u by (simp add: word_less_nat_alt)
    have pu: "unat (GetRestartPoint it (of_nat m)) = p"
      unfolding p_def GetRestartPoint_at [OF assms m(3)] by (rule small(2)) (use i in simp)
    have step: "seek_search user target it (of_nat l) (of_nat r) =
        (if Compare user (item_key x) target < 0 then seek_search user target it (of_nat m) (of_nat r)
         else seek_search user target it (of_nat l) (of_nat m - 1))"
      by (subst seek_search.simps)
        (simp only: lr if_True mid Let_def pu small(6) q1 option.case prod.case fits key if_False simp_thms)
    show ?thesis
    proof (cases "Compare user (item_key x) target < 0")
      case True
      have "r - m < r - l" using m by linarith
      from less.hyps [OF this m(2) less.prems(2)] True show ?thesis unfolding step by (simp add: x_def)
    next
      case False
      have "m - 1 - l < r - l" "l \<le> m - 1" "m - 1 < length rs" using m by linarith+
      from less.hyps [OF this less.prems(3)] False m(4) show ?thesis unfolding step by (simp add: of_nat_diff)
    qed
  qed
qed
definition positioned :: "item list \<Rightarrow> nat list \<Rightarrow> block_iter \<Rightarrow> nat option \<Rightarrow> bool" where
  "positioned items rs it at = (case at of None \<Rightarrow> ended items rs it | Some i \<Rightarrow> standing items rs it i)"

lemma positioned_simps [simp]:
  "positioned items rs it None = ended items rs it" "positioned items rs it (Some i) = standing items rs it i"
  by (simp_all add: positioned_def)

lemma positioned_of_block: "positioned items rs it at \<Longrightarrow> of_block items rs it"
  by (cases at) (simp_all add: ended_def standing_def)

lemma seek_scan_finds:
  "ready items rs it i \<Longrightarrow> \<exists>it'. seek_scan user target it = Some it'
     \<and> positioned items rs it' (find (\<lambda>k. 0 \<le> Compare user (item_key (items ! k)) target) [i..<length items])"
proof (induction "length items - i" arbitrary: it i)
  case 0
  then have i: "i = length items" by (simp add: ready_def)
  obtain it' where "ParseNextKey it = Some (False, it')" "ended items rs it'"
    using ParseNextKey_end 0(2) i by blast
  then show ?case by (subst seek_scan.simps) (simp add: i)
next
  case (Suc m)
  then have i: "i < length items" by simp
  obtain it' where it': "ParseNextKey it = Some (True, it')" "standing items rs it' i"
    using ParseNextKey_entry [OF Suc.prems i] by blast
  have key: "it_key it' = item_key (items ! i)" using it'(2) by (simp add: standing_def)
  show ?case
  proof (cases "0 \<le> Compare user (item_key (items ! i)) target")
    case True
    then show ?thesis using it' i by (subst seek_scan.simps) (simp add: key upt_conv_Cons)
  next
    case False
    then have "seek_scan user target it = seek_scan user target it'"
      using it'(1) by (subst seek_scan.simps) (simp add: key)
    then show ?thesis
      using Suc.hyps(1) [OF _ standing_ready [OF it'(2)]] Suc.hyps(2) False i by (simp add: upt_conv_Cons)
  qed
qed

context comparator
begin

lemma it_Seek_moves:
  assumes "of_block items rs it" and sorted: "sorted_wrt (\<lambda>a b. Compare c (item_key a) (item_key b) < 0) items"
  shows "\<exists>it'. it_Seek c target it = Some it'
    \<and> positioned items rs it' (find (\<lambda>k. 0 \<le> Compare c (item_key (items ! k)) target) [0..<length items])"
proof -
  let ?P = "\<lambda>k. 0 \<le> Compare c (item_key (items ! k)) target"
  have lay: "laid_out items rs" and ne: "0 < length rs" using assms by (auto simp: of_block_def laid_out_def)
  have idx: "num_restarts it - 1 = of_nat (length rs - 1)" using assms ne by (cases "length rs") (simp_all add: of_block_def)
  have l: "length rs - 1 < length rs" using ne by simp
  have z: "(of_nat (0 :: nat) :: u32) = 0" by simp
  obtain k where k: "k < length rs" "seek_search c target it 0 (num_restarts it - 1) = Some (Some (of_nat k))"
    "k = 0 \<or> Compare c (item_key (items ! (rs ! k))) target < 0"
    using seek_search_finds [OF assms(1) le0 l, of c target] unfolding idx z by blast
  note r = laid_out_restart [OF lay k(1)]
  have before: "find ?P [0..<rs ! k] = None"
  proof (cases "k = 0")
    case True
    then show ?thesis using r(3) by simp
  next
    case False
    have "\<not> ?P i" if "i < rs ! k" for i
    proof -
      have "Compare c (item_key (items ! i)) (item_key (items ! (rs ! k))) < 0"
        using sorted_wrt_nth_less [OF sorted that] r(2) False by simp
      then have "Compare c (item_key (items ! i)) target < 0"
        using compare_less_le_trans k(3) False by (meson less_imp_le)
      then show ?thesis by simp
    qed
    then show ?thesis by (auto simp: find_None_iff)
  qed
  have "[0..<length items] = [0..<rs ! k] @ [rs ! k..<length items]"
    using r(1) by (metis le0 upt_add_eq_append le_add_diff_inverse)
  then have "find ?P [0..<length items] = find ?P [rs ! k..<length items]"
    using before by (simp add: find_append)
  then show ?thesis
    using seek_scan_finds [OF SeekToRestartPoint_ready [OF assms(1) k(1)], of c target]
    by (simp add: it_Seek_def k(2))
qed

end

section \<open>The cursor\<close>

datatype cursor_op =
    To_first
  | To_last
  | To_key bytes
  | Move_next
  | Move_prev

text \<open>\<^verbatim>\<open>Next\<close> and \<^verbatim>\<open>Prev\<close> require a valid iterator; without one a run skips them.\<close>

definition block_step :: "comparator_ops \<Rightarrow> cursor_op \<Rightarrow> block_iter \<Rightarrow> block_iter option" where
  "block_step user op it =
     (case op of
        To_first \<Rightarrow> it_SeekToFirst it
      | To_last \<Rightarrow> it_SeekToLast it
      | To_key target \<Rightarrow> it_Seek user target it
      | Move_next \<Rightarrow> if it_Valid it then it_Next it else Some it
      | Move_prev \<Rightarrow> if it_Valid it then it_Prev it else Some it)"

fun block_run :: "comparator_ops \<Rightarrow> cursor_op list \<Rightarrow> block_iter \<Rightarrow> block_iter option" where
  "block_run user [] it = Some it"
| "block_run user (op # ops) it = Option.bind (block_step user op it) (block_run user ops)"

text \<open>The specification: an index into the sorted entries.\<close>

definition cursor_step :: "comparator_ops \<Rightarrow> (bytes \<times> bytes) list \<Rightarrow> cursor_op \<Rightarrow> nat option \<Rightarrow> nat option" where
  "cursor_step user es op at =
     (case op of
        To_first \<Rightarrow> if es = [] then None else Some 0
      | To_last \<Rightarrow> if es = [] then None else Some (length es - 1)
      | To_key target \<Rightarrow> find (\<lambda>k. 0 \<le> Compare user (fst (es ! k)) target) [0..<length es]
      | Move_next \<Rightarrow> (case at of None \<Rightarrow> None | Some i \<Rightarrow> if Suc i < length es then Some (Suc i) else None)
      | Move_prev \<Rightarrow> (case at of None \<Rightarrow> None | Some i \<Rightarrow> if i = 0 then None else Some (i - 1)))"

lemma find_cong_set: "(\<And>x. x \<in> set xs \<Longrightarrow> P x = Q x) \<Longrightarrow> find P xs = find Q xs"
  by (induction xs) auto

lemma it_Next_moves:
  assumes "standing items rs it i"
  shows "\<exists>it'. it_Next it = Some it' \<and> positioned items rs it' (if Suc i < length items then Some (Suc i) else None)"
proof -
  note r = standing_ready [OF assms]
  have "Suc i < length items \<or> Suc i = length items" using assms by (auto simp: standing_def)
  then show ?thesis
  proof
    assume "Suc i < length items"
    then show ?thesis using ParseNextKey_entry [OF r] by (auto simp: it_Next_def)
  next
    assume e: "Suc i = length items"
    from ParseNextKey_end [OF r [unfolded e]] show ?thesis using e by (auto simp: it_Next_def)
  qed
qed

lemma it_SeekToFirst_moves:
  assumes "of_block items rs it"
  shows "\<exists>it'. it_SeekToFirst it = Some it' \<and> positioned items rs it' (if items = [] then None else Some 0)"
proof -
  have ne: "0 < length rs" and lay: "laid_out items rs" using assms by (auto simp: of_block_def laid_out_def)
  have r: "ready items rs (SeekToRestartPoint 0 it) 0"
    using SeekToRestartPoint_ready [OF assms ne] laid_out_restart(3) [OF lay ne] by simp
  show ?thesis
  proof (cases "items = []")
    case True
    then have "ready items rs (SeekToRestartPoint 0 it) (length items)" using r by simp
    from ParseNextKey_end [OF this] show ?thesis using True by (auto simp: it_SeekToFirst_def)
  next
    case False
    then show ?thesis using ParseNextKey_entry [OF r] by (auto simp: it_SeekToFirst_def)
  qed
qed

context comparator
begin

lemma block_step_moves:
  assumes "positioned items rs it at" and sorted: "sorted_wrt (\<lambda>a b. Compare c (item_key a) (item_key b) < 0) items"
  shows "\<exists>it'. block_step c op it = Some it' \<and> positioned items rs it' (cursor_step c (map snd items) op at)"
proof -
  note b = positioned_of_block [OF assms(1)]
  show ?thesis
  proof (cases op)
    case To_first
    then show ?thesis using it_SeekToFirst_moves [OF b] by (simp add: block_step_def cursor_step_def)
  next
    case To_last
    then show ?thesis using it_SeekToLast_moves [OF b] by (auto simp: block_step_def cursor_step_def)
  next
    case (To_key target)
    have "find (\<lambda>k. 0 \<le> Compare c (fst (map snd items ! k)) target) [0..<length items]
        = find (\<lambda>k. 0 \<le> Compare c (item_key (items ! k)) target) [0..<length items]"
      by (rule find_cong_set) simp
    then show ?thesis using it_Seek_moves [OF b sorted, of target] To_key by (simp add: block_step_def cursor_step_def)
  next
    case Move_next
    then show ?thesis
      using assms(1) it_Next_moves [of items rs it] standing_Valid [of items rs it]
      by (cases at) (auto simp: block_step_def cursor_step_def ended_def)
  next
    case Move_prev
    then show ?thesis
      using assms(1) it_Prev_moves [of items rs it] standing_Valid [of items rs it]
      by (cases at) (auto simp: block_step_def cursor_step_def ended_def)
  qed
qed

lemma block_run_moves:
  "positioned items rs it at \<Longrightarrow> sorted_wrt (\<lambda>a b. Compare c (item_key a) (item_key b) < 0) items \<Longrightarrow>
     \<exists>it'. block_run c ops it = Some it' \<and> positioned items rs it' (fold (cursor_step c (map snd items)) ops at)"
proof (induction ops arbitrary: it at)
  case (Cons op ops)
  from block_step_moves [OF Cons.prems, of op] obtain it1 where
    "block_step c op it = Some it1" "positioned items rs it1 (cursor_step c (map snd items) op at)" by blast
  then show ?case using Cons.IH Cons.prems(2) by simp
qed simp

end

lemma block_NewIterator_layout:
  assumes "laid_out items rs" and "length (layout_bytes items rs) < 2 ^ 32"
  shows "\<exists>it. block_NewIterator (Block (layout_bytes items rs)) = Block_iterator it \<and> positioned items rs it None"
proof -
  let ?d = "layout_bytes items rs" and ?n = "offset items (length items)"
  have ne: "0 < length rs" using assms(1) by (simp add: laid_out_def)
  have "drop (length ?d - 4) ?d = EncodeFixed32 (of_nat (length rs))"
    by (simp add: layout_bytes_def offset_all)
  then have num: "NumRestarts ?d (length ?d) = of_nat (length rs)" by (simp add: NumRestarts_def)
  have small: "length rs < 2 ^ 32" "Suc (length rs) < 2 ^ 32" using assms(2) by simp_all
  have u: "unat (of_nat (length rs) :: u32) = length rs" "unat (1 + of_nat (length rs) :: u32) = Suc (length rs)"
    using unat_u32_of_nat [OF small(1)] unat_u32_of_nat [OF small(2)] by simp_all
  have "Block ?d = \<lparr>block_data = ?d, block_size = length ?d, restart_offset = of_nat ?n\<rparr>"
    unfolding Block_def Let_def num u by simp
  moreover have "(of_nat (length rs) :: u32) \<noteq> 0" using ne u(1) by (metis unat_0 less_irrefl)
  ultimately have "block_NewIterator (Block ?d) = Block_iterator (block_Iter ?d (of_nat ?n) (of_nat (length rs)))"
    by (simp only: block_NewIterator_def block.simps num Let_def if_False) simp
  moreover have "positioned items rs (block_Iter ?d (of_nat ?n) (of_nat (length rs))) None"
    using assms by (simp add: ended_def of_block_def block_Iter_def it_Valid_def)
  ultimately show ?thesis by blast
qed

section \<open>Blocks iterate in order\<close>

text \<open>
  Property C12: a block is its entries, in order. Sorted entries are added to a block with any restart interval; the iterator of the
  finished bytes, moved by any sequence of seeks and steps in either direction, always returns, reports no
  corruption, and is where the same moves take an index into the list of entries: at the first entry not below a sought key, at
  the neighbour, or invalid, with the entry's key and value.
\<close>

theorem block_iterates_entries:
  assumes "comparator user" and "1 \<le> interval" and "sorted_wrt (\<lambda>a b. Compare user (fst a) (fst b) < 0) es"
    and data: "data = fst (block_Finish (build_block interval es))" and "length data < 2 ^ 32"
  shows "\<exists>it. block_NewIterator (Block data) = Block_iterator it \<and> (\<forall>ops. \<exists>it'. block_run user ops it = Some it' \<and> \<not> it_corrupt it'
    \<and> (case fold (cursor_step user es) ops None of
          None \<Rightarrow> \<not> it_Valid it'
        | Some i \<Rightarrow> i < length es \<and> it_Valid it' \<and> (it_key it', it_value it') = es ! i))"
proof -
  obtain items rs where built: "built (build_block interval es) items rs" and es: "map snd items = es"
    using build_block_built [OF assms(2)] by blast
  have d: "data = layout_bytes items rs" unfolding data by (rule block_Finish_layout [OF built])
  have lay: "laid_out items rs" using built by (simp add: built_def)
  have sorted: "sorted_wrt (\<lambda>a b. Compare user (item_key a) (item_key b) < 0) items"
    using assms(3) by (simp add: sorted_wrt_map flip: es)
  obtain it where it: "block_NewIterator (Block data) = Block_iterator it" "positioned items rs it None"
    using block_NewIterator_layout [OF lay] assms(5) unfolding d by blast
  have "\<exists>it'. block_run user ops it = Some it' \<and> \<not> it_corrupt it'
    \<and> (case fold (cursor_step user es) ops None of
          None \<Rightarrow> \<not> it_Valid it'
        | Some i \<Rightarrow> i < length es \<and> it_Valid it' \<and> (it_key it', it_value it') = es ! i)" for ops
  proof -
    obtain it' where run: "block_run user ops it = Some it'" "positioned items rs it' (fold (cursor_step user es) ops None)"
      using comparator.block_run_moves [OF assms(1) it(2) sorted] unfolding es by blast
    have "\<not> it_corrupt it'" using positioned_of_block [OF run(2)] by (simp add: of_block_def)
    moreover have "i < length es \<and> it_Valid it' \<and> (it_key it', it_value it') = es ! i" if "standing items rs it' i" for i
      using that standing_Valid [OF that] standing_value [OF that] by (auto simp: standing_def simp flip: es)
    ultimately show ?thesis
      using run by (auto simp: positioned_def ended_def split: option.splits)
  qed
  with it(1) show ?thesis by blast
qed

definition demo_entries :: "(bytes \<times> bytes) list" where
  "demo_entries = [([1, 2], [10]), ([1, 2, 3], [11]), ([1, 3], [12, 13])]"

theorem block_iterates_entries_witness:
  "\<exists>it it'. block_NewIterator (Block (fst (block_Finish (build_block 2 demo_entries)))) = Block_iterator it
    \<and> block_run BytewiseComparator [To_key [1, 2, 5], Move_prev] it = Some it' \<and> it_Valid it' \<and> it_key it' = [1, 2, 3] \<and> it_value it' = [11]"
proof -
  let ?data = "fst (block_Finish (build_block 2 demo_entries))"
  have "length ?data = 30" by code_simp
  then have len: "length ?data < 2 ^ 32" by simp
  have sorted: "sorted_wrt (\<lambda>a b. Compare BytewiseComparator (fst a) (fst b) < 0) demo_entries"
    by (simp add: demo_entries_def BytewiseComparator_def)
  have cursor: "fold (cursor_step BytewiseComparator demo_entries) [To_key [1, 2, 5], Move_prev] None = Some 1"
    by (simp add: demo_entries_def BytewiseComparator_def cursor_step_def upt_conv_Cons)
  obtain it where it: "block_NewIterator (Block ?data) = Block_iterator it"
    and run: "\<forall>ops. \<exists>it'. block_run BytewiseComparator ops it = Some it' \<and> \<not> it_corrupt it'
      \<and> (case fold (cursor_step BytewiseComparator demo_entries) ops None of
            None \<Rightarrow> \<not> it_Valid it'
          | Some i \<Rightarrow> i < length demo_entries \<and> it_Valid it' \<and> (it_key it', it_value it') = demo_entries ! i)"
    using block_iterates_entries [OF bytewise.comparator_axioms _ sorted refl len] by auto
  from run [rule_format, of "[To_key [1, 2, 5], Move_prev]"] it show ?thesis
    unfolding cursor by (auto simp: demo_entries_def)
qed

text \<open>
  The sum of the two lengths of an entry may wrap around, and an entry that needs \<open>2 ^ 32\<close> bytes passes for one that needs none: the
  key is then read past the end of the block.
\<close>

definition overlong_entry :: bytes where
  "overlong_entry = [0, 0xFF, 0xFF, 0xFF, 0xFF, 0x0F, 1, 0, 0, 0, 0, 1, 0, 0, 0]"

lemma overlong_entry_read:
  "\<exists>it. block_NewIterator (Block overlong_entry) = Block_iterator it \<and> it_SeekToFirst it = None"
proof -
  let ?it = "block_Iter overlong_entry 7 1"
  have "block_NewIterator (Block overlong_entry) = Block_iterator ?it" by code_simp
  moreover have "DecodeEntry (take 7 overlong_entry) = Some (0, 0xFFFFFFFF, 1, [])" by code_simp
  moreover have "GetRestartPoint ?it 0 = 0" by code_simp
  ultimately have "it_SeekToFirst ?it = None"
    by (simp add: it_SeekToFirst_def SeekToRestartPoint_def ParseNextKey_def NextEntryOffset_def block_Iter_def Let_def overlong_entry_def)
  with \<open>block_NewIterator (Block overlong_entry) = Block_iterator ?it\<close> show ?thesis by blast
qed

end
