(* ===== verification/Ldb_Filter.thy ===== *)
theory Ldb_Filter
  imports Ldb_Keys
begin

text \<open>
  Filters (\<^verbatim>\<open>util/hash.cc\<close>, \<^verbatim>\<open>util/bloom.cc\<close>, \<^verbatim>\<open>table/filter_block.cc\<close>): a filter over the keys of a few blocks says which keys cannot be in
  them. The locale \<open>filter_policy\<close> is the contract of \<^verbatim>\<open>include/leveldb/filter_policy.h\<close>. Sizes are 64-bit words.
\<close>

section \<open>The hash\<close>

definition hash_m :: u32 where "hash_m = 0xc6a4a793"

fun hash_words :: "bytes \<Rightarrow> u32 \<Rightarrow> u32 \<times> bytes" where
  "hash_words (a # b # c # d # data) h =
     (let w = DecodeFixed32 (a # b # c # d # data); h = (h + w) * hash_m in hash_words data (h XOR drop_bit 16 h))"
| "hash_words data h = (h, data)"

definition Hash :: "bytes \<Rightarrow> u32 \<Rightarrow> u32" where
  "Hash data seed =
     (let (h, rest) = hash_words data (ucast (ucast seed XOR of_nat (length data) * ucast hash_m :: u64));
          h = (if length rest = 3 then h + push_bit 16 (ucast (rest ! 2)) else h);
          h = (if 2 \<le> length rest then h + push_bit 8 (ucast (rest ! 1)) else h)
      in if 1 \<le> length rest then let h = (h + ucast (rest ! 0)) * hash_m in h XOR drop_bit 24 h else h)"

section \<open>The policy\<close>

text \<open>\<open>CreateFilter\<close> takes the keys and the string to which the filter is appended.\<close>

record filter_ops =
  CreateFilter :: "bytes list \<Rightarrow> bytes \<Rightarrow> bytes"
  KeyMayMatch :: "bytes \<Rightarrow> bytes \<Rightarrow> bool"

locale filter_policy =
  fixes policy :: filter_ops and fits :: "bytes list \<Rightarrow> bool"
  assumes appends: "fits keys \<Longrightarrow> \<exists>f. CreateFilter policy keys dst = dst @ f \<and> (\<forall>key\<in>set keys. KeyMayMatch policy key f)"

section \<open>Bloom filters\<close>

text \<open>\<open>product\<close> is the integer part of \<^verbatim>\<open>bits_per_key * 0.69\<close>, a product of doubles.\<close>

definition bloom_probes :: "nat \<Rightarrow> nat" where
  "bloom_probes product = (let k = (if product < 1 then 1 else product) in if 30 < k then 30 else k)"

definition BloomHash :: "bytes \<Rightarrow> u32" where
  "BloomHash key = Hash key 0xbc9f1d34"

definition bloom_delta :: "u32 \<Rightarrow> u32" where
  "bloom_delta h = drop_bit 17 h OR push_bit 15 h"

fun set_probes :: "nat \<Rightarrow> u64 \<Rightarrow> u32 \<Rightarrow> u32 \<Rightarrow> bytes \<Rightarrow> bytes" where
  "set_probes 0 bits delta h array = array"
| "set_probes (Suc j) bits delta h array =
     (let bitpos = unat (ucast h mod bits)
      in set_probes j bits delta (h + delta) (array[bitpos div 8 := array ! (bitpos div 8) OR push_bit (bitpos mod 8) 1]))"

fun test_probes :: "nat \<Rightarrow> u64 \<Rightarrow> u32 \<Rightarrow> u32 \<Rightarrow> bytes \<Rightarrow> bool" where
  "test_probes 0 bits delta h array = True"
| "test_probes (Suc j) bits delta h array =
     (let bitpos = unat (ucast h mod bits)
      in if array ! (bitpos div 8) AND push_bit (bitpos mod 8) 1 = 0 then False
         else test_probes j bits delta (h + delta) array)"

definition bloom_CreateFilter :: "u64 \<Rightarrow> nat \<Rightarrow> bytes list \<Rightarrow> bytes \<Rightarrow> bytes" where
  "bloom_CreateFilter bits_per_key k keys dst =
     (let bits = of_nat (length keys) * bits_per_key;
          bits = (if bits < 64 then 64 else bits);
          nbytes = (bits + 7) div 8;
          bits = nbytes * 8;
          array = fold (\<lambda>key array. let h = BloomHash key in set_probes k bits (bloom_delta h) h array) keys (replicate (unat nbytes) 0)
      in dst @ array @ [of_nat k])"

definition bloom_KeyMayMatch :: "bytes \<Rightarrow> bytes \<Rightarrow> bool" where
  "bloom_KeyMayMatch key bloom_filter =
     (let len = length bloom_filter
      in if len < 2 then False
         else let bits = of_nat (len - 1) * 8; k = unat (scast (bloom_filter ! (len - 1)) :: u64)
              in if 30 < k then True
                 else let h = BloomHash key in test_probes k bits (bloom_delta h) h bloom_filter)"

definition BloomFilterPolicy :: "u64 \<Rightarrow> nat \<Rightarrow> filter_ops" where
  "BloomFilterPolicy bits_per_key product =
     \<lparr>CreateFilter = bloom_CreateFilter bits_per_key (bloom_probes product), KeyMayMatch = bloom_KeyMayMatch\<rparr>"

definition InternalFilterPolicy :: "filter_ops \<Rightarrow> filter_ops" where
  "InternalFilterPolicy user =
     \<lparr>CreateFilter = (\<lambda>keys. CreateFilter user (map ExtractUserKey keys)),
      KeyMayMatch = (\<lambda>key. KeyMayMatch user (ExtractUserKey key))\<rparr>"

section \<open>Filter blocks\<close>

definition kFilterBaseLg :: nat where "kFilterBaseLg = 11"
definition kFilterBase :: u64 where "kFilterBase = push_bit kFilterBaseLg 1"

record filter_builder =
  flat_keys :: bytes
  key_starts :: "nat list"
  filter_result :: bytes
  filter_offsets :: "u32 list"

definition FilterBlockBuilder :: filter_builder where
  "FilterBlockBuilder = \<lparr>flat_keys = [], key_starts = [], filter_result = [], filter_offsets = []\<rparr>"

definition GenerateFilter :: "filter_ops \<Rightarrow> filter_builder \<Rightarrow> filter_builder" where
  "GenerateFilter policy b =
     (let num_keys = length (key_starts b)
      in if num_keys = 0 then b\<lparr>filter_offsets := filter_offsets b @ [of_nat (length (filter_result b))]\<rparr>
         else let starts = key_starts b @ [length (flat_keys b)];
                  tmp_keys = map (\<lambda>i. take (starts ! (i + 1) - starts ! i) (drop (starts ! i) (flat_keys b))) [0..<num_keys]
              in b\<lparr>filter_offsets := filter_offsets b @ [of_nat (length (filter_result b))],
                   filter_result := CreateFilter policy tmp_keys (filter_result b), flat_keys := [], key_starts := []\<rparr>)"

lemma GenerateFilter_offsets [simp]: "length (filter_offsets (GenerateFilter policy b)) = Suc (length (filter_offsets b))"
  by (simp add: GenerateFilter_def Let_def)

function start_loop :: "filter_ops \<Rightarrow> u64 \<Rightarrow> filter_builder \<Rightarrow> filter_builder" where
  "start_loop policy filter_index b =
     (if length (filter_offsets b) < unat filter_index then start_loop policy filter_index (GenerateFilter policy b) else b)"
  by auto
termination
  by (relation "measure (\<lambda>(policy, filter_index, b). unat filter_index - length (filter_offsets b))") auto

declare start_loop.simps [simp del]

definition StartBlock :: "filter_ops \<Rightarrow> u64 \<Rightarrow> filter_builder \<Rightarrow> filter_builder" where
  "StartBlock policy block_offset b = start_loop policy (block_offset div kFilterBase) b"

definition AddKey :: "bytes \<Rightarrow> filter_builder \<Rightarrow> filter_builder" where
  "AddKey key b = b\<lparr>key_starts := key_starts b @ [length (flat_keys b)], flat_keys := flat_keys b @ key\<rparr>"

definition filter_Finish :: "filter_ops \<Rightarrow> filter_builder \<Rightarrow> bytes" where
  "filter_Finish policy b =
     (let b = (if key_starts b \<noteq> [] then GenerateFilter policy b else b);
          array_offset = of_nat (length (filter_result b))
      in PutFixed32 (foldl PutFixed32 (filter_result b) (filter_offsets b)) array_offset @ [of_nat kFilterBaseLg])"

record filter_reader =
  filter_data :: bytes
  filter_array :: nat
  filter_num :: nat
  filter_base_lg :: nat

definition FilterBlockReader :: "bytes \<Rightarrow> filter_reader" where
  "FilterBlockReader contents =
     (let n = length contents; r = \<lparr>filter_data = [], filter_array = 0, filter_num = 0, filter_base_lg = 0\<rparr>
      in if n < 5 then r
         else let r = r\<lparr>filter_base_lg := unat (scast (contents ! (n - 1)) :: u64)\<rparr>; last_word = unat (DecodeFixed32 (drop (n - 5) contents))
              in if n - 5 < last_word then r
                 else r\<lparr>filter_data := contents, filter_array := last_word, filter_num := (n - 5 - last_word) div 4\<rparr>)"

definition block_KeyMayMatch :: "filter_ops \<Rightarrow> u64 \<Rightarrow> bytes \<Rightarrow> filter_reader \<Rightarrow> bool" where
  "block_KeyMayMatch policy block_offset key r =
     (let index = unat (drop_bit (filter_base_lg r) block_offset)
      in if index < filter_num r
         then let start = unat (DecodeFixed32 (drop (filter_array r + index * 4) (filter_data r)));
                  limit = unat (DecodeFixed32 (drop (filter_array r + index * 4 + 4) (filter_data r)))
              in if start \<le> limit \<and> limit \<le> filter_array r
                 then KeyMayMatch policy key (take (limit - start) (drop start (filter_data r)))
                 else if start = limit then False else True
         else True)"

section \<open>A Bloom filter has no false negatives\<close>

definition probe_set :: "bytes \<Rightarrow> nat \<Rightarrow> bool" where
  "probe_set array p \<longleftrightarrow> bit (array ! (p div 8)) (p mod 8)"

lemma probe_test: "array ! (p div 8) AND 2 ^ (p mod 8) = 0 \<longleftrightarrow> \<not> probe_set array p" for array :: bytes
  by (simp add: probe_set_def and_exp_eq_0_iff_not_bit)

lemma set_probes_length [simp]: "length (set_probes j bits delta h array) = length array"
  by (induction j arbitrary: h array) (simp_all add: Let_def)

lemma set_probes_keeps:
  "p div 8 < length array \<Longrightarrow> probe_set array p \<Longrightarrow> probe_set (set_probes j bits delta h array) p"
proof (induction j arbitrary: h array)
  case (Suc j)
  let ?q = "unat (ucast h mod bits)"
  have "probe_set (array[?q div 8 := array ! (?q div 8) OR push_bit (?q mod 8) 1]) p"
    using Suc.prems by (cases "p div 8 = ?q div 8") (simp_all add: probe_set_def bit_simps)
  then show ?case using Suc.IH Suc.prems(1) by (simp add: Let_def)
qed simp

lemma set_probes_test:
  assumes "0 < bits" and "unat bits = length array * 8"
  shows "test_probes j bits delta h (set_probes j bits delta h array @ rest)"
  using assms(2)
proof (induction j arbitrary: h array)
  case (Suc j)
  let ?q = "unat (ucast h mod bits)"
  let ?a = "array[?q div 8 := array ! (?q div 8) OR push_bit (?q mod 8) 1]"
  have "?q < length array * 8"
    using assms(1) Suc.prems by (simp add: unat_mod word_less_nat_alt)
  then have q: "?q div 8 < length array" by simp
  have "probe_set ?a ?q" using q by (simp add: probe_set_def bit_simps)
  then have "probe_set (set_probes j bits delta (h + delta) ?a) ?q"
    using q by (intro set_probes_keeps) simp_all
  then have "probe_set (set_probes j bits delta (h + delta) ?a @ rest) ?q"
    using q by (simp add: probe_set_def nth_append)
  moreover have "test_probes j bits delta (h + delta) (set_probes j bits delta (h + delta) ?a @ rest)"
    using Suc.IH [of ?a "h + delta"] Suc.prems by simp
  ultimately show ?case by (simp add: Let_def probe_test)
qed simp

lemma test_probes_mono:
  assumes "0 < bits" and "unat bits = length array * 8" and "length array' = length array"
    and "\<And>p. p div 8 < length array \<Longrightarrow> probe_set array p \<Longrightarrow> probe_set array' p"
  shows "test_probes j bits delta h (array @ rest) \<Longrightarrow> test_probes j bits delta h (array' @ rest)"
proof (induction j arbitrary: h)
  case (Suc j)
  let ?q = "unat (ucast h mod bits)"
  have "?q < length array * 8" using assms(1, 2) by (simp add: unat_mod word_less_nat_alt)
  then have q: "?q div 8 < length array" by simp
  then show ?case
    using Suc assms(3) assms(4) [OF q] by (auto simp: Let_def probe_test probe_set_def nth_append split: if_splits)
qed simp

definition add_keys :: "nat \<Rightarrow> u64 \<Rightarrow> bytes list \<Rightarrow> bytes \<Rightarrow> bytes" where
  "add_keys k bits = fold (\<lambda>key array. let h = BloomHash key in set_probes k bits (bloom_delta h) h array)"

lemma add_keys_simps:
  "add_keys k bits [] array = array"
  "add_keys k bits (key # keys) array
     = add_keys k bits keys (set_probes k bits (bloom_delta (BloomHash key)) (BloomHash key) array)"
  by (simp_all add: add_keys_def Let_def)

lemma add_keys_length [simp]: "length (add_keys k bits keys array) = length array"
  by (induction keys arbitrary: array) (simp_all add: add_keys_simps)

lemma add_keys_keeps:
  "p div 8 < length array \<Longrightarrow> probe_set array p \<Longrightarrow> probe_set (add_keys k bits keys array) p"
  by (induction keys arbitrary: array) (simp_all add: add_keys_simps set_probes_keeps)

lemma add_keys_test:
  assumes "0 < bits"
  shows "unat bits = length array * 8 \<Longrightarrow> key \<in> set keys \<Longrightarrow>
    test_probes k bits (bloom_delta (BloomHash key)) (BloomHash key) (add_keys k bits keys array @ rest)"
proof (induction keys arbitrary: array)
  case (Cons key' keys)
  let ?a = "set_probes k bits (bloom_delta (BloomHash key')) (BloomHash key') array"
  show ?case
  proof (cases "key = key'")
    case True
    have "test_probes k bits (bloom_delta (BloomHash key)) (BloomHash key) (?a @ rest)"
      unfolding True by (rule set_probes_test [OF assms Cons.prems(1)])
    moreover have "probe_set ?a p \<Longrightarrow> probe_set (add_keys k bits keys ?a) p" if "p div 8 < length ?a" for p
      using that by (rule add_keys_keeps)
    ultimately show ?thesis
      unfolding add_keys_simps using test_probes_mono [OF assms, of ?a "add_keys k bits keys ?a"] Cons.prems(1) by simp
  next
    case False
    then show ?thesis using Cons.IH [of ?a] Cons.prems by (simp add: add_keys_simps)
  qed
qed simp

text \<open>The sizes must not wrap around.\<close>

definition bloom_fits :: "u64 \<Rightarrow> bytes list \<Rightarrow> bool" where
  "bloom_fits bits_per_key keys \<longleftrightarrow> length keys * unat bits_per_key < 2 ^ 63"

lemma bloom_probes_byte:
  "1 \<le> bloom_probes product \<and> bloom_probes product \<le> 30"
  "unat (scast (of_nat (bloom_probes product) :: u8) :: u64) = bloom_probes product"
proof -
  show r: "1 \<le> bloom_probes product \<and> bloom_probes product \<le> 30" by (simp add: bloom_probes_def)
  then have "signed_take_bit 7 (int (bloom_probes product)) = int (bloom_probes product)"
    by (intro signed_take_bit_int_eq_self) simp_all
  then have "(scast (of_nat (bloom_probes product) :: u8) :: u64) = of_nat (bloom_probes product)"
    by (simp add: signed_of_nat)
  then show "unat (scast (of_nat (bloom_probes product) :: u8) :: u64) = bloom_probes product"
    using r unat_u64_of_nat [of "bloom_probes product"] by simp
qed

lemma bloom_sizes:
  assumes "n < 2 ^ 63"
  defines "bits \<equiv> (if (of_nat n :: u64) < 64 then 64 else of_nat n :: u64)"
  shows "8 \<le> unat ((bits + 7) div 8)" and "unat ((bits + 7) div 8 * 8) = unat ((bits + 7) div 8) * 8"
    and "0 < (bits + 7) div 8 * 8" and "unat ((bits + 7) div 8) < 2 ^ 61"
proof -
  have n: "unat (of_nat n :: u64) = n" using assms(1) by (simp add: unat_u64_of_nat)
  have b: "64 \<le> unat bits" "unat bits < 2 ^ 63"
    using n assms(1) by (auto simp: bits_def word_less_nat_alt)
  then have "unat (bits + 7) = unat bits + 7" by (simp add: unat_word_ariths)
  then have d: "unat ((bits + 7) div 8) = (unat bits + 7) div 8" by (simp add: unat_div)
  show "8 \<le> unat ((bits + 7) div 8)" "unat ((bits + 7) div 8) < 2 ^ 61" using b unfolding d by auto
  then show m: "unat ((bits + 7) div 8 * 8) = unat ((bits + 7) div 8) * 8"
    by (simp add: unat_word_ariths)
  show "0 < (bits + 7) div 8 * 8" using \<open>8 \<le> unat ((bits + 7) div 8)\<close> m by (simp add: word_less_nat_alt)
qed

lemma bloom_matches:
  assumes "bloom_fits bits_per_key keys"
  shows "\<exists>f. bloom_CreateFilter bits_per_key (bloom_probes product) keys dst = dst @ f \<and> (\<forall>key\<in>set keys. bloom_KeyMayMatch key f)"
proof -
  let ?n = "length keys * unat bits_per_key" and ?k = "bloom_probes product"
  define bits where "bits = (if (of_nat ?n :: u64) < 64 then 64 else of_nat ?n :: u64)"
  define nbytes where "nbytes = (bits + 7) div 8"
  have n: "?n < 2 ^ 63" using assms by (simp add: bloom_fits_def)
  note sizes = bloom_sizes [OF n, folded bits_def, folded nbytes_def]
  let ?array = "add_keys ?k (nbytes * 8) keys (replicate (unat nbytes) 0)"
  let ?f = "?array @ [of_nat ?k]"
  have prod: "of_nat (length keys) * bits_per_key = (of_nat ?n :: u64)" by simp
  have create: "bloom_CreateFilter bits_per_key ?k keys dst = dst @ ?f"
    unfolding bloom_CreateFilter_def Let_def prod bits_def [symmetric] nbytes_def [symmetric] add_keys_def by (rule refl)
  have "bloom_KeyMayMatch key ?f" if "key \<in> set keys" for key
  proof -
    have len: "length ?f - 1 = unat nbytes" "\<not> length ?f < 2" using sizes(1) by simp_all
    have b: "(of_nat (unat nbytes) * 8 :: u64) = nbytes * 8" by simp
    have k: "unat (scast (?f ! unat nbytes) :: u64) = ?k" using bloom_probes_byte(2) by (simp add: nth_append)
    have "test_probes ?k (nbytes * 8) (bloom_delta (BloomHash key)) (BloomHash key) ?f"
      by (rule add_keys_test) (use sizes that in simp_all)
    then show ?thesis
      unfolding bloom_KeyMayMatch_def Let_def len(1) b k using len(2) bloom_probes_byte(1) [of product] by simp
  qed
  with create show ?thesis by blast
qed

interpretation bloom: filter_policy "BloomFilterPolicy bits_per_key product" "bloom_fits bits_per_key" for bits_per_key product
  by unfold_locales (simp only: BloomFilterPolicy_def filter_ops.simps bloom_matches)

lemma internal_policy:
  assumes "filter_policy policy fits"
  shows "filter_policy (InternalFilterPolicy policy) (\<lambda>keys. fits (map ExtractUserKey keys))"
proof
  fix keys dst assume "fits (map ExtractUserKey keys)"
  from filter_policy.appends [OF assms this, of dst]
  show "\<exists>f. CreateFilter (InternalFilterPolicy policy) keys dst = dst @ f \<and> (\<forall>key\<in>set keys. KeyMayMatch (InternalFilterPolicy policy) key f)"
    by (simp add: InternalFilterPolicy_def)
qed

interpretation internal_bloom: filter_policy "InternalFilterPolicy (BloomFilterPolicy bits_per_key product)"
    "\<lambda>keys. bloom_fits bits_per_key (map ExtractUserKey keys)" for bits_per_key product
  by (rule internal_policy) (rule bloom.filter_policy_axioms)

section \<open>What a filter block holds\<close>

definition ends :: "bytes list \<Rightarrow> nat \<Rightarrow> nat" where
  "ends xs i = length (concat (take i xs))"

lemma ends_simps [simp]: "ends xs 0 = 0" "length xs = n \<Longrightarrow> ends xs n = length (concat xs)" "i \<le> length xs \<Longrightarrow> ends (xs @ ys) i = ends xs i"
  by (auto simp: ends_def)

lemma concat_split: "i < length xs \<Longrightarrow> concat xs = concat (take i xs) @ xs ! i @ concat (drop (Suc i) xs)"
  by (subst id_take_nth_drop [of i xs]) simp_all

lemma ends_Suc: "i < length xs \<Longrightarrow> ends xs (Suc i) = ends xs i + length (xs ! i)"
  by (simp add: ends_def take_Suc_conv_app_nth)

lemma ends_slice: "i < length xs \<Longrightarrow> take (ends xs (Suc i) - ends xs i) (drop (ends xs i) (concat xs @ rest)) = xs ! i"
  by (simp add: ends_Suc concat_split [of i xs]) (simp add: ends_def)

lemma ends_le: "i < length xs \<Longrightarrow> ends xs (Suc i) \<le> length (concat xs)"
  unfolding ends_Suc using concat_split [of i xs] by (simp add: ends_def)

text \<open>\<open>gs\<close> are the filters made so far, over the groups \<open>fs\<close> of keys; \<open>ps\<close> are the keys of the next one.\<close>

definition filters_built :: "filter_ops \<Rightarrow> filter_builder \<Rightarrow> bytes list list \<Rightarrow> bytes list \<Rightarrow> bytes list \<Rightarrow> bool" where
  "filters_built policy b fs gs ps \<longleftrightarrow> flat_keys b = concat ps \<and> key_starts b = map (ends ps) [0..<length ps]
     \<and> length gs = length fs \<and> filter_result b = concat gs \<and> filter_offsets b = map (\<lambda>i. of_nat (ends gs i)) [0..<length gs]
     \<and> (\<forall>i<length fs. \<forall>key\<in>set (fs ! i). KeyMayMatch policy key (gs ! i))"

lemma AddKey_built:
  "filters_built policy b fs gs ps \<Longrightarrow> filters_built policy (AddKey key b) fs gs (ps @ [key])"
  by (auto simp: filters_built_def AddKey_def)

lemma AddKeys_built:
  "filters_built policy b fs gs ps \<Longrightarrow> filters_built policy (fold AddKey keys b) fs gs (ps @ keys)"
proof (induction keys arbitrary: b ps)
  case (Cons key keys)
  show ?case using Cons.IH [OF AddKey_built [OF Cons.prems, of key]] by simp
qed simp

lemma generated_keys:
  assumes "n = length ps"
  shows "map (\<lambda>i. take ((map (ends ps) [0..<n] @ [length (concat ps)]) ! (i + 1) - (map (ends ps) [0..<n] @ [length (concat ps)]) ! i)
      (drop ((map (ends ps) [0..<n] @ [length (concat ps)]) ! i) (concat ps))) [0..<n] = ps"
proof -
  have all: "map (ends ps) [0..<n] @ [length (concat ps)] = map (ends ps) [0..<Suc n]" by (simp add: assms)
  show ?thesis
    unfolding all using ends_slice [of _ ps "[]"]
    by (intro nth_equalityI) (simp_all add: assms nth_append del: upt_Suc)
qed

text \<open>Where a key of a block at an offset is: in the filter of its range, or waiting for it.\<close>

definition covered :: "bytes list list \<Rightarrow> bytes list \<Rightarrow> u64 \<Rightarrow> bytes \<Rightarrow> bool" where
  "covered fs ps off key \<longleftrightarrow>
     (let i = unat (off div kFilterBase) in i < length fs \<and> key \<in> set (fs ! i) \<or> i = length fs \<and> key \<in> set ps)"

context filter_policy
begin

lemma GenerateFilter_built:
  assumes "filters_built policy b fs gs ps" and "ps \<noteq> [] \<Longrightarrow> fits ps"
  shows "\<exists>g. filters_built policy (GenerateFilter policy b) (fs @ [ps]) (gs @ [g]) []"
proof (cases "ps = []")
  case True
  then have "filters_built policy (GenerateFilter policy b) (fs @ [ps]) (gs @ [[]]) []"
    using assms(1) by (auto simp: filters_built_def GenerateFilter_def nth_append less_Suc_eq)
  then show ?thesis by blast
next
  case False
  obtain g where g: "CreateFilter policy ps (concat gs) = concat gs @ g" "\<forall>key\<in>set ps. KeyMayMatch policy key g"
    using appends [OF assms(2) [OF False], of "concat gs"] by blast
  have "GenerateFilter policy b = \<lparr>flat_keys = [], key_starts = [], filter_result = concat gs @ g,
      filter_offsets = map (\<lambda>i. of_nat (ends gs i)) [0..<length gs] @ [of_nat (length (concat gs))]\<rparr>"
    using assms(1) False generated_keys [of "length ps" ps] g(1)
    by (simp add: filters_built_def GenerateFilter_def Let_def)
  then have "filters_built policy (GenerateFilter policy b) (fs @ [ps]) (gs @ [g]) []"
    using assms(1) g(2) by (auto simp: filters_built_def nth_append less_Suc_eq)
  then show ?thesis by blast
qed

lemma start_loop_built:
  "filters_built policy b fs gs ps \<Longrightarrow> length fs \<le> unat idx \<Longrightarrow> (\<And>ks. length ks \<le> length ps \<Longrightarrow> fits ks) \<Longrightarrow>
     \<exists>fs' gs' ps'. filters_built policy (start_loop policy idx b) fs' gs' ps' \<and> length fs' = unat idx \<and> length ps' \<le> length ps
       \<and> (\<forall>off key. covered fs ps off key \<longrightarrow> covered fs' ps' off key)"
proof (induction "unat idx - length fs" arbitrary: b fs gs ps)
  case 0
  then have "length fs = unat idx" "\<not> length (filter_offsets b) < unat idx" by (simp_all add: filters_built_def)
  then show ?case using 0(2) by (subst start_loop.simps) auto
next
  case (Suc m)
  have less: "length (filter_offsets b) < unat idx" using Suc.hyps(2) Suc.prems(1) by (simp add: filters_built_def)
  obtain g where g: "filters_built policy (GenerateFilter policy b) (fs @ [ps]) (gs @ [g]) []"
    using GenerateFilter_built [OF Suc.prems(1)] Suc.prems(3) by blast
  have "m = unat idx - length (fs @ [ps])" "length (fs @ [ps]) \<le> unat idx" using Suc.hyps(2) by simp_all
  from Suc.hyps(1) [OF this(1) g this(2)] Suc.prems(3) obtain fs' gs' ps' where
    r: "filters_built policy (start_loop policy idx (GenerateFilter policy b)) fs' gs' ps'" "length fs' = unat idx" "length ps' \<le> 0"
      "\<forall>off key. covered (fs @ [ps]) [] off key \<longrightarrow> covered fs' ps' off key"
    by auto
  have "covered fs ps off key \<Longrightarrow> covered (fs @ [ps]) [] off key" for off key
    by (auto simp: covered_def Let_def nth_append)
  then show ?case using r less by (subst start_loop.simps) (intro exI [of _ fs'] exI [of _ gs'] exI [of _ ps'], auto)
qed

end

text \<open>A table's blocks, each with the offset at which it starts and its keys.\<close>

definition filter_run :: "filter_ops \<Rightarrow> (u64 \<times> bytes list) list \<Rightarrow> filter_builder" where
  "filter_run policy blocks = fold (\<lambda>(off, keys) b. fold AddKey keys (StartBlock policy off b)) blocks FilterBlockBuilder"

context filter_policy
begin

lemma filter_run_built:
  "sorted (map fst blocks) \<Longrightarrow> (\<And>ks. length ks \<le> length (concat (map snd blocks)) \<Longrightarrow> fits ks) \<Longrightarrow>
     \<exists>fs gs ps. filters_built policy (filter_run policy blocks) fs gs ps \<and> length ps \<le> length (concat (map snd blocks))
       \<and> length fs = (if blocks = [] then 0 else unat (fst (List.last blocks) div kFilterBase))
       \<and> (\<forall>(off, keys)\<in>set blocks. \<forall>key\<in>set keys. covered fs ps off key)"
proof (induction blocks rule: rev_induct)
  case Nil
  have "filters_built policy FilterBlockBuilder [] [] []" by (simp add: filters_built_def FilterBlockBuilder_def)
  then show ?case by (auto simp: filter_run_def)
next
  case (snoc blk blocks)
  obtain off keys where blk: "blk = (off, keys)" by force
  have sorted: "sorted (map fst blocks)" "\<forall>o'\<in>set (map fst blocks). o' \<le> off"
    using snoc.prems(1) by (auto simp: blk sorted_append)
  have few: "\<And>ks. length ks \<le> length (concat (map snd blocks)) \<Longrightarrow> fits ks" using snoc.prems(2) by simp
  obtain fs gs ps where IH: "filters_built policy (filter_run policy blocks) fs gs ps" "length ps \<le> length (concat (map snd blocks))"
    "length fs = (if blocks = [] then 0 else unat (fst (List.last blocks) div kFilterBase))"
    "\<forall>(off, keys)\<in>set blocks. \<forall>key\<in>set keys. covered fs ps off key"
    using snoc.IH [OF sorted(1) few] by blast
  let ?idx = "off div kFilterBase"
  have "length fs \<le> unat ?idx"
    using sorted(2) by (auto simp: IH(3) unat_div word_le_nat_alt intro!: div_le_mono)
  from start_loop_built [OF IH(1) this] few IH(2) obtain fs' gs' ps' where
    st: "filters_built policy (StartBlock policy off (filter_run policy blocks)) fs' gs' ps'" "length fs' = unat ?idx"
      "length ps' \<le> length ps" "\<forall>off key. covered fs ps off key \<longrightarrow> covered fs' ps' off key"
    unfolding StartBlock_def by (meson order_trans)
  have run: "filter_run policy (blocks @ [blk]) = fold AddKey keys (StartBlock policy off (filter_run policy blocks))"
    by (simp add: filter_run_def blk)
  have old: "covered fs' ps' o' key \<Longrightarrow> covered fs' (ps' @ keys) o' key" for o' key
    by (auto simp: covered_def Let_def)
  have new: "key \<in> set keys \<Longrightarrow> covered fs' (ps' @ keys) off key" for key
    by (simp add: covered_def Let_def st(2))
  have "filters_built policy (filter_run policy (blocks @ [blk])) fs' gs' (ps' @ keys)"
    unfolding run by (rule AddKeys_built [OF st(1)])
  then show ?case
    using st(2-4) IH(2, 4) old new
    by (intro exI [of _ fs'] exI [of _ gs'] exI [of _ "ps' @ keys"]) (auto simp: blk)
qed

end

section \<open>Reading a filter block\<close>

definition offsets_bytes :: "bytes list \<Rightarrow> nat \<Rightarrow> bytes" where
  "offsets_bytes gs n = concat (map (\<lambda>i. EncodeFixed32 (of_nat (ends gs i))) [0..<n])"

lemma offsets_bytes_length [simp]: "length (offsets_bytes gs n) = 4 * n"
  by (induction n) (simp_all add: offsets_bytes_def)

lemma offsets_bytes_at:
  assumes "i < n"
  shows "\<exists>rest. drop (4 * i) (offsets_bytes gs n) = EncodeFixed32 (of_nat (ends gs i)) @ rest"
proof -
  have "[0..<n] = [0..<i] @ i # [Suc i..<n]" using assms by (metis le0 less_imp_le upt_add_eq_append upt_conv_Cons le_add_diff_inverse)
  then have "offsets_bytes gs n = offsets_bytes gs i @ EncodeFixed32 (of_nat (ends gs i))
      @ concat (map (\<lambda>i. EncodeFixed32 (of_nat (ends gs i))) [Suc i..<n])"
    by (simp add: offsets_bytes_def)
  then show ?thesis by (metis append_eq_conv_conj offsets_bytes_length)
qed

lemma PutFixed32_all: "foldl PutFixed32 buf vs = buf @ concat (map EncodeFixed32 vs)"
  by (induction vs arbitrary: buf) (simp_all add: PutFixed32_def)

definition filter_layout :: "bytes list \<Rightarrow> bytes" where
  "filter_layout gs = concat gs @ offsets_bytes gs (Suc (length gs)) @ [11]"

lemma FilterBlockReader_layout:
  assumes "length (filter_layout gs) < 2 ^ 32"
  shows "FilterBlockReader (filter_layout gs)
    = \<lparr>filter_data = filter_layout gs, filter_array = length (concat gs), filter_num = length gs, filter_base_lg = 11\<rparr>"
proof -
  let ?n = "length (filter_layout gs)"
  have n: "?n = length (concat gs) + 4 * length gs + 5" by (simp add: filter_layout_def)
  have split: "filter_layout gs = (concat gs @ offsets_bytes gs (length gs)) @ EncodeFixed32 (of_nat (length (concat gs))) @ [11]"
    by (simp add: filter_layout_def offsets_bytes_def)
  have pre: "?n - 5 = length (concat gs @ offsets_bytes gs (length gs))" by (simp add: n)
  have "DecodeFixed32 (drop (?n - 5) (filter_layout gs)) = of_nat (length (concat gs))"
    unfolding pre by (subst split) simp
  moreover have "unat (of_nat (length (concat gs)) :: u32) = length (concat gs)"
    using assms n by (simp add: unat_u32_of_nat)
  moreover have "filter_layout gs ! (?n - 1) = 11" by (simp add: filter_layout_def nth_append)
  moreover have "unat (scast (11 :: u8) :: u64) = 11" by code_simp
  moreover have "\<not> ?n < 5" "\<not> ?n - 5 < length (concat gs)" "(?n - 5 - length (concat gs)) div 4 = length gs" by (simp_all add: n)
  ultimately show ?thesis unfolding FilterBlockReader_def Let_def by simp
qed

lemma block_KeyMayMatch_layout:
  assumes "length (filter_layout gs) < 2 ^ 32" and "i = unat (off div kFilterBase)" and "i < length gs"
  shows "block_KeyMayMatch policy off key (FilterBlockReader (filter_layout gs)) = KeyMayMatch policy key (gs ! i)"
proof -
  let ?c = "filter_layout gs"
  have idx: "unat (drop_bit 11 off) = i"
    by (simp add: assms(2) kFilterBase_def kFilterBaseLg_def unat_div drop_bit_eq_div)
  have n: "length (concat gs) < 2 ^ 32" using assms(1) by (simp add: filter_layout_def)
  have dec: "unat (DecodeFixed32 (drop (length (concat gs) + j * 4) ?c)) = ends gs j" if j: "j \<le> length gs" for j
  proof -
    obtain rest where "drop (4 * j) (offsets_bytes gs (Suc (length gs))) = EncodeFixed32 (of_nat (ends gs j)) @ rest"
      using offsets_bytes_at [of j "Suc (length gs)" gs] j by auto
    then have "drop (length (concat gs) + j * 4) ?c = EncodeFixed32 (of_nat (ends gs j)) @ rest @ [11]"
      using that by (simp add: filter_layout_def mult.commute)
    moreover have "ends gs j < 2 ^ 32"
      using n that ends_le [of "j - 1" gs] by (cases j) auto
    ultimately show ?thesis by (simp add: unat_u32_of_nat)
  qed
  have lim: "unat (DecodeFixed32 (drop (length (concat gs) + i * 4 + 4) ?c)) = ends gs (Suc i)"
    using dec [of "Suc i"] assms(3) by (simp add: add.assoc add.commute [of 4])
  have le: "ends gs i \<le> ends gs (Suc i)" "ends gs (Suc i) \<le> length (concat gs)"
    using ends_Suc [OF assms(3)] ends_le [OF assms(3)] by simp_all
  have "take (ends gs (Suc i) - ends gs i) (drop (ends gs i) ?c) = gs ! i"
    unfolding filter_layout_def by (rule ends_slice [OF assms(3)])
  then show ?thesis
    using assms(3) le dec [of i] lim
    by (simp add: block_KeyMayMatch_def FilterBlockReader_layout [OF assms(1)] idx Let_def)
qed

context filter_policy
begin

lemma filter_Finish_layout:
  assumes "filters_built policy b fs gs ps" and "fits ps"
  shows "\<exists>gs'. filter_Finish policy b = filter_layout gs' \<and> (\<forall>off key. covered fs ps off key \<longrightarrow>
    (let i = unat (off div kFilterBase) in i < length gs' \<and> KeyMayMatch policy key (gs' ! i)))"
proof -
  have finish: "filter_Finish policy b = filter_layout gs" if "filters_built policy b fs gs []" for b fs gs
    using that by (simp add: filters_built_def filter_Finish_def filter_layout_def PutFixed32_all offsets_bytes_def
        PutFixed32_def kFilterBaseLg_def comp_def)
  show ?thesis
  proof (cases "ps = []")
    case True
    then show ?thesis
      using finish assms(1) by (intro exI [of _ gs]) (auto simp: covered_def filters_built_def Let_def)
  next
    case False
    obtain g where g: "filters_built policy (GenerateFilter policy b) (fs @ [ps]) (gs @ [g]) []"
      using GenerateFilter_built [OF assms(1)] assms(2) by blast
    have "key_starts b \<noteq> []" "key_starts (GenerateFilter policy b) = []"
      using assms(1) g False by (auto simp: filters_built_def)
    then have "filter_Finish policy b = filter_Finish policy (GenerateFilter policy b)" by (simp add: filter_Finish_def)
    then have "filter_Finish policy b = filter_layout (gs @ [g])" using finish [OF g] by simp
    moreover have "i < length (gs @ [g]) \<and> KeyMayMatch policy key ((gs @ [g]) ! i)"
      if "covered fs ps off key" "i = unat (off div kFilterBase)" for off key i
      using that g by (auto simp: covered_def Let_def filters_built_def nth_append less_Suc_eq)
    ultimately show ?thesis by (intro exI [of _ "gs @ [g]"]) (simp add: Let_def)
  qed
qed

end


definition demo_blocks :: "(u64 \<times> bytes list) list" where
  "demo_blocks = [(0, [[1, 2]]), (5000, [[9]])]"


end
