(* ===== verification/Spec2Isabelle.thy ===== *)
theory Spec2Isabelle
  imports Gps_Reach Firmware_One Pb_Bound Pb_Inside Pb_Required Ldb_Readers Ldb_Torn Ldb_Cursor Ldb_Filter
begin

text \<open>
  Rock-YOU is a bicycle lock: an ESP32 sketch that takes lock and unlock commands over bluetooth, drives
  two servos, follows the bicycle with a GPS receiver and reports its state and position to a
  Firestore document, and a phone app that shows the document. This development models the firmware,
  in both versions the repository has, the GPS parser it carries, nanopb, the protocol buffer
  library that the app's copy of the Firestore client encodes its messages with, and the core of LevelDB, the
  engine of that client's offline cache.

  \<^bold>\<open>Parts and theories.\<close>

  \<^item> \<open>Rock_Prelude\<close> holds the word types and generic lemmas, \<open>C_Library\<close> the C functions the GPS parser calls.

  \<^item> TinyGPSPlus (\<^verbatim>\<open>src/example/gps/TinyGPSPlus.cpp\<close>, \<^verbatim>\<open>.h\<close>): \<open>Gps_Terms\<close> has the parsers of
    single fields and the value objects with their commit and read functions; \<open>Gps_Encode\<close> has the receiver, a record of
    the class's members, and \<open>encode\<close>, one character at a time; \<open>Gps_Reach\<close> has the reachable receivers.
    Proved: a sentence is accepted exactly when its checksum matches, nothing is committed without one
    or without a fix, angles and times are read to the digit, the term buffer is never overrun, and custom
    elements get their terms.

  \<^item> The firmware (\<^verbatim>\<open>src/embedded/Rock-YOU_nodeMCU\<close> and its libraries): \<open>Firmware\<close> has a record of the
    globals, the wrappers of the peripherals, \<open>setup\<close> and \<open>loop\<close>; everything the sketch does to the outside is a trace
    of effects. The abstract specification is the automaton \<open>bike\<close> (riding, parked, stolen), which every round refines;
    the servos and the cloud document agree with the state in every reachable state. A poll list stands for
    the clock and the GPS line; a round returns as soon as the polls reach one second.
    \<open>Firmware_One\<close> has the older firmware in one file (\<^verbatim>\<open>src/embedded/Rock-YOU_nodeMCUone\<close>) and compares it with the
    library version: motors, bluetooth protocol, position upload.

  \<^item> nanopb (\<^verbatim>\<open>src/app/Pods/nanopb\<close>), in the build the pod has (32-bit field descriptors, malloc, 64-bit
    \<^verbatim>\<open>size_t\<close>): \<open>Pb_Stream\<close> has the streams and the locale \<open>byte_sink\<close>, the contract between the
    encoders and the callback they write through, interpreted for the memory buffer; \<open>Pb_Wire\<close> has
    the wire format in both directions; \<open>Pb_Fields\<close> has memory, field descriptors and the iterator of
    \<^verbatim>\<open>pb_common.c\<close>; \<open>Pb_Encode\<close> and \<open>Pb_Decode\<close> have the rest of \<^verbatim>\<open>pb_encode.c\<close> and \<^verbatim>\<open>pb_decode.c\<close>,
    over structures in memory. \<open>Pb_Size\<close> proves, inside the locale, that the counting and the writing pass agree
    for every run the encoder is made of, and so for messages; \<open>Pb_Safety\<close> and \<open>Pb_Inside\<close> prove that
    decoding into a static message stays inside its memory; \<open>Pb_Required\<close> has the count of required fields;
    \<open>Pb_Bound\<close> shows that the bound on the nesting only decides whether the encoder returns.

  \<^item> LevelDB (\<^verbatim>\<open>src/app/Pods/leveldb-library\<close>): \<open>Ldb_Coding\<close> has \<^verbatim>\<open>util/coding.cc\<close>, whose varints are proved to be
    the ones of nanopb (\<open>Word_Bytes\<close>); \<open>Ldb_Crc\<close> has \<^verbatim>\<open>util/crc32c.cc\<close> with its tables and proves the four-stride loop equal
    to the bitwise CRC; \<open>Ldb_File\<close> has the file interfaces as the locales \<open>writable_file\<close> and \<open>sequential_file\<close>, interpreted on
    the files of \<^verbatim>\<open>util/env_posix.cc\<close>; \<open>Ldb_Log\<close> has the writer and the reader of the write-ahead log over these
    interfaces, and \<open>Ldb_Recover\<close> proves, inside the locales, that a log cut off anywhere by a crash or a failing
    \<^verbatim>\<open>write\<close> is read back without its tail, and that acknowledged records survive.
    \<open>Key_Order\<close> has the locale \<open>key_order\<close>, what a container relies on of a comparison; \<open>Ldb_Keys\<close> has \<^verbatim>\<open>util/comparator.cc\<close> and
    \<^verbatim>\<open>db/dbformat.cc\<close> and extends it to the locale \<open>comparator\<close>, the contract of a user comparator, interpreted for the bytewise one and
    for the internal keys of any other. \<open>Ldb_Skip\<close> has the skip list of \<^verbatim>\<open>db/skiplist.h\<close> over nodes in an address space and refines a
    sorted set by it; \<open>Ldb_Readers\<close> runs the stores of an insertion interleaved with the rounds of a search (links are loaded at their latest
    value, the height may be stale). \<open>Ldb_MemTable\<close> has \<^verbatim>\<open>db/memtable.cc\<close>, whose specification is the list of all additions, newest
    first; \<open>Ldb_Batch\<close> has \<^verbatim>\<open>db/write_batch.cc\<close>; \<open>Ldb_Store\<close> puts all of these together as the write path and the recovery of
    \<^verbatim>\<open>db/db_impl.cc\<close>, and proves that acknowledged writes are recovered; \<open>Ldb_Torn\<close> shows what happens to writes after an error.
    \<open>Ldb_Block\<close> has the blocks of tables, \<^verbatim>\<open>table/block_builder.cc\<close> and \<^verbatim>\<open>table/block.cc\<close>; \<open>Ldb_Cursor\<close> refines an index into a sorted list
    by their iterator, binary search and steps backwards included. \<open>Ldb_Filter\<close> has the filters (\<^verbatim>\<open>util/hash.cc\<close>, \<^verbatim>\<open>util/bloom.cc\<close>,
    \<^verbatim>\<open>table/filter_block.cc\<close>) over the locale \<open>filter_policy\<close>, the contract of a policy, interpreted for the Bloom filter, and proves that
    they exclude no key that is there.

  \<^bold>\<open>Bounds and fuel.\<close> The wire layer's loops have termination proofs. A message may be as deep as its descriptors
  say, so \<open>pb_encode\<close> and \<open>pb_decode\<close> take a bound on the nesting, which also bounds the number of extensions
  in a list; they return \<open>None\<close> when it is exceeded, and no theorem takes that for a success. The loop of
  \<open>pb_decode_noinit\<close> has one round more than the stream has bytes: each round reads at least one. The loops over
  fields have as many rounds as the array has entries, the search one more, which \<open>iter_find_complete\<close> shows to be enough.
  Packed arrays have one round more than the substream has bytes: every item takes at least one. A callback that never
  reads its substream exceeds the same bound. The loops of LevelDB's log end by their measures, except the reader's, which
  reads as long as its file has data: it is a partial function, as are the searches of the skip list and of a block and the loop of the recovery, and the theorems about them say that
  they return. The height of a new node is drawn by a loop with a measure. Calls of \<^verbatim>\<open>write\<close> are
  answered from a list; an operation for which the list is too short is still waiting and returns \<open>None\<close>.

  \<^bold>\<open>Conventions.\<close> Records and functions carry the names of the source; a name that clashes with a constant of HOL or
  that both firmwares have is changed a little. Integers are words of their width; addresses are 64-bit words and memory is a
  function from addresses to bytes, little-endian. A function that fails returns \<open>False\<close> or \<open>None\<close> with the state it leaves; behaviour
  that C does not define (a null descriptor array, a block freed twice, a division by a zero item size) is an outer
  \<open>None\<close>. An uninitialised local is an argument. The compiler of the firmware has unsigned characters.
  What is not in the repository is a parameter: the Arduino libraries and
  the TinyGPS of the firmware, the user's callbacks of nanopb (with the hypothesis that they are reproducible, where
  the theorem needs it), and the addresses the allocator returns. Credentials in the sketches are left out.

  \<^bold>\<open>Not modelled.\<close> The floating-point functions of TinyGPSPlus (double arithmetic over libm); the phone app
  (Swift user interface); the bench and example sketches (try-outs of one peripheral each); the other
  third-party pods: the Firestore client, libuv, gRPC, BoringSSL, Abseil; of LevelDB, its table files, versions and compaction, the queue of its
  writers, and the switch of memtables. Of nanopb itself, the
  variants its build excludes (no 64-bit integers, buffers only, no error messages) are left out; a custom input
  stream that fails while reading is taken to leave the destination as it was, and after a
  substream that could not be closed the parent keeps its own read position.
\<close>

end
